(* ===== verification/Prelude.thy ===== *)
theory Prelude
  imports Main "HOL-Library.Word"
begin

text \<open>
  Shared vocabulary of the development: task identifiers, two's complement arithmetic at
  the width of the C++ integer types, and sums over the control states of a finite
  number of tasks. The last are what the invariants of the counting primitives (semaphore,
  latch, barrier, shared mutex) are made of: a sum changes by a known amount when
  one task moves.
\<close>

named_theorems step_simps
  "unfolding equations of the instruction tables of the primitives"

type_synonym tid = nat

section \<open>Two's complement integers\<close>

definition swrap :: "nat \<Rightarrow> int \<Rightarrow> int" where
  "swrap w x = (x + 2 ^ (w - 1)) mod 2 ^ w - 2 ^ (w - 1)"

definition smax :: "nat \<Rightarrow> int" where
  "smax w = 2 ^ (w - 1) - 1"

text \<open>\<open>smax w\<close> is \<open>std::numeric_limits<intW_t>::max()\<close>.\<close>

lemma smax_values: "smax 8 = 127" "smax 16 = 32767" "smax 32 = 2147483647"
    "smax 64 = 9223372036854775807"
  by (simp_all add: smax_def)

lemma swrap_id:
  assumes "0 < w" "- smax w - 1 \<le> x" "x \<le> smax w"
  shows "swrap w x = x"
proof -
  have "(2::int) ^ w = 2 * 2 ^ (w - 1)"
    using assms(1) by (cases w) auto
  then have "(x + 2 ^ (w - 1)) mod 2 ^ w = x + 2 ^ (w - 1)"
    using assms(2,3) by (intro mod_pos_pos_trivial) (auto simp: smax_def)
  then show ?thesis by (simp add: swrap_def)
qed

lemma swrap_nonneg:
  "0 < w \<Longrightarrow> 0 \<le> x \<Longrightarrow> x \<le> smax w \<Longrightarrow> swrap w x = x"
  by (rule swrap_id) (auto simp: smax_def intro: order_trans[of _ 0])

lemma smax_nonneg: "0 \<le> smax w"
  by (simp add: smax_def)

section \<open>Sums over tasks\<close>

definition total :: "('c \<Rightarrow> int) \<Rightarrow> nat \<Rightarrow> (tid \<Rightarrow> 'c) \<Rightarrow> int" where
  "total f n c = (\<Sum>t<n. f (c t))"

lemma total_upd:
  assumes "t < n"
  shows "total f n (c(t := x)) = total f n c - f (c t) + f x"
proof -
  have "total f n (c(t := x)) = f x + (\<Sum>u\<in>{..<n} - {t}. f ((c(t := x)) u))"
    unfolding total_def using assms by (subst sum.remove[of _ t]) auto
  also have "(\<Sum>u\<in>{..<n} - {t}. f ((c(t := x)) u)) = (\<Sum>u\<in>{..<n} - {t}. f (c u))"
    by (rule sum.cong) auto
  also have "\<dots> = total f n c - f (c t)"
    unfolding total_def using assms by (subst (2) sum.remove[of _ t]) auto
  finally show ?thesis by linarith
qed

lemma total_nonneg: "(\<And>x. 0 \<le> f x) \<Longrightarrow> 0 \<le> total f n c"
  by (simp add: total_def sum_nonneg)

lemma total_ge:
  assumes "t < n" "\<And>x. 0 \<le> f x"
  shows "f (c t) \<le> total f n c"
  unfolding total_def using assms by (intro member_le_sum) auto

lemma total_eq_0:
  assumes "\<And>t. t < n \<Longrightarrow> f (c t) = 0"
  shows "total f n c = 0"
  using assms by (simp add: total_def)

lemma total_0D:
  assumes "total f n c = 0" "\<And>x. 0 \<le> f x" "t < n"
  shows "f (c t) = 0"
  using total_ge[of t n f c] assms by (metis order_antisym)

lemma total_pos_ex:
  assumes "total f n c \<noteq> 0"
  shows "\<exists>t<n. f (c t) \<noteq> 0"
  using assms total_eq_0 by blast

lemma total_mono:
  assumes "\<And>t. t < n \<Longrightarrow> f (c t) \<le> g (c t)"
  shows "total f n c \<le> total g n c"
  unfolding total_def using assms by (intro sum_mono) auto

lemma total_le_bound:
  assumes "\<And>x. f x \<le> 1"
  shows "total f n c \<le> int n"
proof -
  have "total f n c \<le> (\<Sum>t<n. 1)"
    unfolding total_def using assms by (intro sum_mono) auto
  then show ?thesis by simp
qed

lemma total_le_except:
  assumes "t < n" "f (c t) = 0" "\<And>x. f x \<le> 1"
  shows "total f n c + 1 \<le> int n"
proof -
  have "(\<Sum>u\<in>{..<n} - {t}. f (c u)) \<le> (\<Sum>u\<in>{..<n} - {t}. 1)"
    using assms(3) by (intro sum_mono) auto
  moreover have "total f n c = (\<Sum>u\<in>{..<n} - {t}. f (c u))"
    unfolding total_def using assms by (subst sum.remove[of _ t]) auto
  ultimately show ?thesis using assms(1) by simp
qed

text \<open>A second task with positive weight pushes the sum above the weight of the first.\<close>

lemma total_two:
  assumes "t < n" "u < n" "t \<noteq> u" "\<And>x. 0 \<le> f x"
  shows "f (c t) + f (c u) \<le> total f n c"
proof -
  have "f (c u) \<le> (\<Sum>x\<in>{..<n} - {t}. f (c x))"
    using assms by (intro member_le_sum) auto
  moreover have "total f n c = f (c t) + (\<Sum>x\<in>{..<n} - {t}. f (c x))"
    unfolding total_def using assms by (subst sum.remove[of _ t]) auto
  ultimately show ?thesis by simp
qed

section \<open>Atomic read-modify-write operations\<close>

text \<open>
  \<open>compare_exchange_strong expected desired current\<close> of \<open>std::atomic\<close>: whether the exchange
  happened, and the value of the atomic afterwards. On failure the caller's \<open>expected\<close> is
  overwritten with the current value.
\<close>

definition compare_exchange_strong :: "'a \<Rightarrow> 'a \<Rightarrow> 'a \<Rightarrow> bool \<times> 'a" where
  "compare_exchange_strong expected desired current =
     (if current = expected then (True, desired) else (False, current))"

text \<open>
  The weak form may fail even when the values agree: the list holds every possible outcome.
\<close>

definition compare_exchange_weak :: "'a \<Rightarrow> 'a \<Rightarrow> 'a \<Rightarrow> (bool \<times> 'a) list" where
  "compare_exchange_weak expected desired current =
     (if current = expected then [(True, desired), (False, current)] else [(False, current)])"

section \<open>Fallible computations\<close>

text \<open>\<open>Inl\<close> is the error, \<open>Inr\<close> the result.\<close>

fun and_then :: "'e + 'a \<Rightarrow> ('a \<Rightarrow> 'e + 'b) \<Rightarrow> 'e + 'b" where
  "and_then (Inl e) f = Inl e"
| "and_then (Inr x) f = f x"

definition require :: "bool \<Rightarrow> 'e \<Rightarrow> 'e + unit" where
  "require b e = (if b then Inr () else Inl e)"

lemma require_simps [simp]: "require True e = Inr ()" "require False e = Inl e"
  by (simp_all add: require_def)

lemma and_then_Inr_iff: "and_then x f = Inr y \<longleftrightarrow> (\<exists>z. x = Inr z \<and> f z = Inr y)"
  by (cases x) auto

lemma and_then_Inl_iff: "and_then x f = Inl e \<longleftrightarrow> x = Inl e \<or> (\<exists>z. x = Inr z \<and> f z = Inl e)"
  by (cases x) auto

section \<open>Small quantifiers\<close>

lemma all_less_1: "(\<forall>t<1. P t) \<longleftrightarrow> P (0::nat)"
  by auto

lemma all_less_2: "(\<forall>t<2. P t) \<longleftrightarrow> P (0::nat) \<and> P 1"
  by (auto simp: less_2_cases_iff)

lemma all_less_3: "(\<forall>t<3. P t) \<longleftrightarrow> P (0::nat) \<and> P 1 \<and> P 2"
  by (auto simp: numeral_3_eq_3 numeral_2_eq_2 All_less_Suc)

lemmas all_less_small = all_less_1 all_less_2 all_less_3

section \<open>Truth values as numbers\<close>

lemma one_le_of_bool [simp]: "(1::int) \<le> of_bool P \<longleftrightarrow> P"
  and of_bool_le_0 [simp]: "of_bool P \<le> (0::int) \<longleftrightarrow> \<not> P"
  by (cases P; simp)+

section \<open>Lists\<close>

lemma distinct_take_drop_disjoint:
  "distinct xs \<Longrightarrow> set (take k xs) \<inter> set (drop k xs) = {}"
  by (metis append_take_drop_id distinct_append)

end
