(* ===== verification/Machine_Inv.thy ===== *)
theory Machine_Inv
  imports Machine
begin

text \<open>
  Facts about the task machine that hold for every instruction table: the invariant
  \<open>wf\<close> ties the wait queues, the tasks in flight between a pop and their \<open>resume\<close> and the
  spin mutexes to the control states of the tasks, and every step keeps it.
\<close>

section \<open>The well-formedness invariant\<close>

fun wait_queue_of :: "('v, 'q, 'pc) instr \<Rightarrow> 'q option" where
  "wait_queue_of (Wait_if q pred k) = Some q"
| "wait_queue_of _ = None"

lemma wait_queue_of_Some: "wait_queue_of i = Some q \<longleftrightarrow> (\<exists>pred k. i = Wait_if q pred k)"
  by (cases i) auto

lemma wait_queue_of_neq_None:
  "wait_queue_of i \<noteq> None \<longleftrightarrow> (\<exists>q pred k. i = Wait_if q pred k)"
  by (cases i) auto

text \<open>The queue a sleeping task sleeps on.\<close>

fun sleeps_on :: "('pc \<Rightarrow> ('v, 'q, 'pc) instr) \<Rightarrow> 'pc control \<Rightarrow> 'q option" where
  "sleeps_on code (Suspended pc) = wait_queue_of (code pc)"
| "sleeps_on code _ = None"

text \<open>The queue whose spin mutex a task holds.\<close>

fun locks :: "('pc \<Rightarrow> ('v, 'q, 'pc) instr) \<Rightarrow> 'pc control \<Rightarrow> 'q option" where
  "locks code (Checking pc) = wait_queue_of (code pc)"
| "locks code (Pushing pc) = wait_queue_of (code pc)"
| "locks code _ = None"

text \<open>The waiters a task has popped and not resumed yet.\<close>

fun popped :: "'pc control \<Rightarrow> tid list" where
  "popped (Resuming ws pc) = ws"
| "popped _ = []"

fun stage_pc :: "'pc control \<Rightarrow> 'pc option" where
  "stage_pc (At pc) = None"
| "stage_pc (Suspending pc) = Some pc"
| "stage_pc (Checking pc) = Some pc"
| "stage_pc (Pushing pc) = Some pc"
| "stage_pc (Self_resume pc) = Some pc"
| "stage_pc (Suspended pc) = Some pc"
| "stage_pc (Resuming ws pc) = None"

definition in_flight :: "('v, 'q, 'pc) sys \<Rightarrow> tid \<Rightarrow> bool" where
  "in_flight s t \<longleftrightarrow> (\<exists>u. t \<in> set (popped (ctl s u)))"

definition wf_distinct :: "('v, 'q, 'pc) sys \<Rightarrow> bool" where
  "wf_distinct s \<longleftrightarrow> (\<forall>q. distinct (m_waiters s q)) \<and> (\<forall>u. distinct (popped (ctl s u)))"

definition wf_queued :: "('pc \<Rightarrow> ('v, 'q, 'pc) instr) \<Rightarrow> ('v, 'q, 'pc) sys \<Rightarrow> bool" where
  "wf_queued code s \<longleftrightarrow>
     (\<forall>q t. t \<in> set (m_waiters s q) \<longrightarrow> sleeps_on code (ctl s t) = Some q)"

definition wf_popped :: "('pc \<Rightarrow> ('v, 'q, 'pc) instr) \<Rightarrow> ('v, 'q, 'pc) sys \<Rightarrow> bool" where
  "wf_popped code s \<longleftrightarrow>
     (\<forall>u t. t \<in> set (popped (ctl s u)) \<longrightarrow> sleeps_on code (ctl s t) \<noteq> None)"

definition wf_once :: "('v, 'q, 'pc) sys \<Rightarrow> bool" where
  "wf_once s \<longleftrightarrow>
     (\<forall>u u' t. t \<in> set (popped (ctl s u)) \<longrightarrow> t \<in> set (popped (ctl s u')) \<longrightarrow> u = u')"

definition wf_apart :: "('v, 'q, 'pc) sys \<Rightarrow> bool" where
  "wf_apart s \<longleftrightarrow> (\<forall>u q t. t \<in> set (popped (ctl s u)) \<longrightarrow> t \<notin> set (m_waiters s q))"

definition wf_tracked :: "('pc \<Rightarrow> ('v, 'q, 'pc) instr) \<Rightarrow> ('v, 'q, 'pc) sys \<Rightarrow> bool" where
  "wf_tracked code s \<longleftrightarrow>
     (\<forall>t q. sleeps_on code (ctl s t) = Some q \<longrightarrow>
        t \<in> set (m_waiters s q) \<or> (\<exists>u. t \<in> set (popped (ctl s u))))"

definition wf_stage :: "('pc \<Rightarrow> ('v, 'q, 'pc) instr) \<Rightarrow> ('v, 'q, 'pc) sys \<Rightarrow> bool" where
  "wf_stage code s \<longleftrightarrow> (\<forall>t pc. stage_pc (ctl s t) = Some pc \<longrightarrow> wait_queue_of (code pc) \<noteq> None)"

definition wf_mutex :: "('pc \<Rightarrow> ('v, 'q, 'pc) instr) \<Rightarrow> ('v, 'q, 'pc) sys \<Rightarrow> bool" where
  "wf_mutex code s \<longleftrightarrow> (\<forall>q t. m_waiters_mutex s q = Some t \<longleftrightarrow> locks code (ctl s t) = Some q)"

definition wf_outside :: "nat \<Rightarrow> ('v, 'q, 'pc) sys \<Rightarrow> bool" where
  "wf_outside n s \<longleftrightarrow> (\<forall>t. n \<le> t \<longrightarrow> (\<exists>pc. ctl s t = At pc))"

text \<open>
  \<open>continues code q k\<close>: a task that woke tasks of queue \<open>q\<close> goes on at \<open>k\<close>.
\<close>

definition continues :: "('pc \<Rightarrow> ('v, 'q, 'pc) instr) \<Rightarrow> 'q \<Rightarrow> 'pc \<Rightarrow> bool" where
  "continues code q k \<longleftrightarrow>
     (\<exists>pc. (\<exists>k'. code pc = Resume_one q k' \<and> k = k' True)
           \<or> (\<exists>m. code pc = Resume_n q m k) \<or> code pc = Resume_all q k)"

definition wf_resuming :: "('pc \<Rightarrow> ('v, 'q, 'pc) instr) \<Rightarrow> ('v, 'q, 'pc) sys \<Rightarrow> bool" where
  "wf_resuming code s \<longleftrightarrow>
     (\<forall>t ws k. ctl s t = Resuming ws k \<longrightarrow>
        (\<exists>q. continues code q k \<and> (\<forall>w\<in>set ws. sleeps_on code (ctl s w) = Some q)))"

definition wf :: "('pc \<Rightarrow> ('v, 'q, 'pc) instr) \<Rightarrow> nat \<Rightarrow> ('v, 'q, 'pc) sys \<Rightarrow> bool" where
  "wf code n s \<longleftrightarrow> wf_distinct s \<and> wf_queued code s \<and> wf_popped code s \<and> wf_once s \<and> wf_apart s
     \<and> wf_tracked code s \<and> wf_stage code s \<and> wf_mutex code s \<and> wf_resuming code s \<and> wf_outside n s"

lemma wf_init: "wf code n (init_sys v pc)"
  by (auto simp: wf_def wf_distinct_def wf_queued_def wf_popped_def wf_once_def wf_apart_def
      wf_tracked_def wf_stage_def wf_mutex_def wf_outside_def wf_resuming_def init_sys_def)

lemma mutexD: "wf_mutex code s \<Longrightarrow> locks code (ctl s t) = Some q \<Longrightarrow> m_waiters_mutex s q = Some t"
  and mutexD2: "wf_mutex code s \<Longrightarrow> m_waiters_mutex s q = Some t \<Longrightarrow> locks code (ctl s t) = Some q"
  by (auto simp: wf_mutex_def)

lemma queuedD: "wf_queued code s \<Longrightarrow> t \<in> set (m_waiters s q) \<Longrightarrow> sleeps_on code (ctl s t) = Some q"
  by (auto simp: wf_queued_def)

lemma poppedD: "wf_popped code s \<Longrightarrow> t \<in> set (popped (ctl s u)) \<Longrightarrow> sleeps_on code (ctl s t) \<noteq> None"
  unfolding wf_popped_def by blast

lemma awake_not_queued: "wf_queued code s \<Longrightarrow> sleeps_on code (ctl s t) = None \<Longrightarrow> t \<notin> set (m_waiters s q)"
  by (auto dest: queuedD)

lemma awake_not_popped: "wf_popped code s \<Longrightarrow> sleeps_on code (ctl s t) = None \<Longrightarrow> t \<notin> set (popped (ctl s u))"
  by (auto dest: poppedD)

lemma onceD:
  "wf_once s \<Longrightarrow> t \<in> set (popped (ctl s u)) \<Longrightarrow> t \<in> set (popped (ctl s u')) \<Longrightarrow> u = u'"
  unfolding wf_once_def by blast

lemma apartD: "wf_apart s \<Longrightarrow> t \<in> set (popped (ctl s u)) \<Longrightarrow> t \<notin> set (m_waiters s q)"
  unfolding wf_apart_def by blast

lemma apartD2: "wf_apart s \<Longrightarrow> t \<in> set (m_waiters s q) \<Longrightarrow> t \<notin> set (popped (ctl s u))"
  unfolding wf_apart_def by blast

section \<open>Every step keeps it\<close>

lemma step_wf_outside:
  assumes "mstep code n s t s'" "wf_outside n s" "wf_queued code s"
  shows "wf_outside n s'"
  using assms
  by (cases rule: mstep.cases) (auto simp: wf_outside_def)

lemma step_wf_stage:
  assumes "mstep code n s t s'" "wf_stage code s"
  shows "wf_stage code s'"
  using assms
  by (cases rule: mstep.cases) (auto simp: wf_stage_def)

lemma step_wf_mutex:
  assumes "mstep code n s t s'" "wf_mutex code s"
  shows "wf_mutex code s'"
proof -
  have E: "m_waiters_mutex s q = Some u \<longleftrightarrow> locks code (ctl s u) = Some q" for u q
    using assms(2) by (simp add: wf_mutex_def)
  have "m_waiters_mutex s' q' = Some u \<longleftrightarrow> locks code (ctl s' u) = Some q'" for q' u
    using assms(1)
  proof (cases rule: mstep.cases)
    case (wait_lock pc q pred k)
    then show ?thesis using E[of q' u] E[of q u] by (cases "q' = q"; cases "u = t") auto
  next
    case (wait_recheck_go pc q pred k v)
    then show ?thesis using E[of q' u] E[of q t] by (cases "q' = q"; cases "u = t") auto
  next
    case (wait_push pc q pred k)
    then show ?thesis using E[of q' u] E[of q t] by (cases "q' = q"; cases "u = t") auto
  qed (use E[of q' u] E[of q' t] in \<open>auto split: if_splits\<close>)
  then show ?thesis by (simp add: wf_mutex_def)
qed

text \<open>What a step does to the queues and to the tasks in flight: nothing, a push, a pop of the oldest waiters
  of one queue, or the call of \<open>resume\<close> on one of those popped.\<close>

lemma mstep_queues:
  assumes "mstep code n s t s'"
  obtains (same) c' where "ctl s' = (ctl s)(t := c')" "m_waiters s' = m_waiters s"
      "popped (ctl s t) = []" "popped c' = []" "\<And>ws k. c' \<noteq> Resuming ws k" "sleeps_on code c' = None"
  | (push) q pc where "ctl s' = (ctl s)(t := Suspended pc)" "wait_queue_of (code pc) = Some q"
      "m_waiters s' = (m_waiters s)(q := m_waiters s q @ [t])" "popped (ctl s t) = []"
  | (pop) q m k where "ctl s' = (ctl s)(t := Resuming (take m (m_waiters s q)) k)" "continues code q k"
      "m_waiters s' = (m_waiters s)(q := drop m (m_waiters s q))" "popped (ctl s t) = []"
  | (awaken) w ws k k' where "ctl s' = (ctl s)(w := At k', t := Resuming ws k)" "ctl s t = Resuming (w # ws) k"
      "w \<noteq> t" "popped (ctl s w) = []" "m_waiters s' = m_waiters s"
  using assms
proof (cases rule: mstep.cases)
  case (wait_push pc q pred k)
  then show thesis by (intro push[of pc q]) auto
next
  case (resume_one_some pc q k w ws)
  then show thesis by (intro pop[of 1 q "k True"]) (auto simp: continues_def)
next
  case (resume_n_pop pc q m k)
  then show thesis by (intro pop[of m q k]) (auto simp: continues_def)
next
  case (resume_all_pop pc q k)
  then show thesis by (intro pop[of "length (m_waiters s q)" q k]) (auto simp: continues_def)
next
  case (resume_next w ws k pc q pred k')
  then show thesis by (intro awaken[of w k' ws k]) auto
qed (use same in auto)

lemma mstep_mover_awake: "mstep code n s t s' \<Longrightarrow> sleeps_on code (ctl s t) = None"
  by (cases rule: mstep.cases) auto

lemma mstep_popped: "mstep code n s t s' \<Longrightarrow> u \<noteq> t \<Longrightarrow> popped (ctl s' u) = popped (ctl s u)"
  by (cases rule: mstep_queues, assumption) auto

text \<open>A sleeper stays where it is until its \<open>resume\<close>.\<close>

lemma mstep_sleeper:
  assumes "mstep code n s t s'" "sleeps_on code (ctl s x) \<noteq> None"
  shows "ctl s' x = ctl s x \<or> (\<exists>ws k. ctl s t = Resuming (x # ws) k)"
  using assms(1) by (cases rule: mstep_queues) (use mstep_mover_awake[OF assms(1)] assms(2) in auto)

lemma resumingD:
  assumes "wf_resuming code s" "ctl s t = Resuming ws k"
  obtains q where "continues code q k" "\<And>w. w \<in> set ws \<Longrightarrow> sleeps_on code (ctl s w) = Some q"
  using assms unfolding wf_resuming_def by blast

lemma step_wf_distinct:
  assumes "mstep code n s t s'" "wf_distinct s" "wf_queued code s"
  shows "wf_distinct s'"
  using assms(1)
proof (cases rule: mstep_queues)
  case (awaken w ws k k')
  then have "distinct (w # ws)" using assms(2) by (metis popped.simps(1) wf_distinct_def)
  with awaken assms show ?thesis by (auto simp: wf_distinct_def)
qed (use assms awake_not_queued[OF assms(3) mstep_mover_awake[OF assms(1)]] in
  \<open>auto simp: wf_distinct_def elim: popped.elims\<close>)

text \<open>The task that is resumed is in no queue, and nobody else has popped it.\<close>

lemma resumed_apart:
  assumes "ctl s t = Resuming (w # ws) k" "wf_apart s" "wf_once s" "wf_distinct s"
  shows "w \<notin> set (m_waiters s q)" "u \<noteq> t \<Longrightarrow> w \<notin> set (popped (ctl s u))" "w \<notin> set ws"
  using assms(1) apartD[OF assms(2), of w t] onceD[OF assms(3), of w u t] assms(4)
  unfolding wf_distinct_def by (auto dest: spec[where x = t])

lemma step_wf_queued:
  assumes st: "mstep code n s t s'" and Q: "wf_queued code s" and "wf_apart s" "wf_once s" "wf_distinct s"
  shows "wf_queued code s'"
proof -
  note nq = awake_not_queued[OF Q mstep_mover_awake[OF st]]
  show ?thesis
    using st
  proof (cases rule: mstep_queues)
    case (pop q m k)
    then show ?thesis
      using queuedD[OF Q] nq by (auto simp: wf_queued_def dest: in_set_dropD)
  next
    case (awaken w ws k k')
    with resumed_apart(1)[OF awaken(2)] assms show ?thesis
      using queuedD[OF Q] nq by (auto simp: wf_queued_def)
  qed (use queuedD[OF Q] nq in \<open>auto simp: wf_queued_def\<close>)
qed

lemma step_wf_popped:
  assumes st: "mstep code n s t s'" and P: "wf_popped code s" and Q: "wf_queued code s"
    and "wf_apart s" "wf_once s" "wf_distinct s"
  shows "wf_popped code s'"
proof -
  note np = awake_not_popped[OF P mstep_mover_awake[OF st]] awake_not_queued[OF Q mstep_mover_awake[OF st]]
  show ?thesis
    using st
  proof (cases rule: mstep_queues)
    case (pop q m k)
    then show ?thesis
      using poppedD[OF P] queuedD[OF Q, of _ q] np by (fastforce simp: wf_popped_def dest: in_set_takeD)
  next
    case (awaken w ws k k')
    with resumed_apart(2,3)[OF awaken(2)] assms poppedD[OF P, of _ t] np(1)[of t] show ?thesis
      using poppedD[OF P] np by (auto simp: wf_popped_def)
  qed (use poppedD[OF P] np in \<open>auto simp: wf_popped_def elim: popped.elims\<close>)
qed

lemma step_wf_once:
  assumes "mstep code n s t s'" "wf_once s" "wf_apart s"
  shows "wf_once s'"
  using assms(1)
proof (cases rule: mstep_queues)
  case (pop q m k)
  have "x \<notin> set (popped (ctl s u))" if "x \<in> set (take m (m_waiters s q))" for u x
    using apartD2[OF assms(3), of x q] that by (auto dest: in_set_takeD)
  then show ?thesis
    using pop onceD[OF assms(2)] by (auto simp: wf_once_def split: if_splits)
next
  case (awaken w ws k k')
  have "x \<notin> set (popped (ctl s u))" if "x \<in> set ws" "u \<noteq> t" for u x
    using onceD[OF assms(2), of x u t] awaken that by auto
  then show ?thesis
    using awaken onceD[OF assms(2)] by (auto simp: wf_once_def split: if_splits)
qed (use onceD[OF assms(2)] in \<open>auto simp: wf_once_def split: if_splits elim: popped.elims\<close>)

lemma step_wf_apart:
  assumes st: "mstep code n s t s'" and A: "wf_apart s" and D: "wf_distinct s" and P: "wf_popped code s"
    and Q: "wf_queued code s"
  shows "wf_apart s'"
  using st
proof (cases rule: mstep_queues)
  case (push q pc)
  with awake_not_popped[OF P mstep_mover_awake[OF st]] show ?thesis
    using apartD[OF A] by (auto simp: wf_apart_def)
next
  case (pop q m k)
  have "x \<notin> set (drop m (m_waiters s q))" if "x \<in> set (take m (m_waiters s q))" for x
    using distinct_take_drop_disjoint[of "m_waiters s q"] D that by (auto simp: wf_distinct_def)
  moreover have "x \<notin> set (m_waiters s q')" if "x \<in> set (take m (m_waiters s q))" "q' \<noteq> q" for x q'
    using queuedD[OF Q in_set_takeD[OF that(1)]] queuedD[OF Q, of x q'] that(2) by auto
  ultimately show ?thesis
    using pop apartD[OF A] by (auto simp: wf_apart_def split: if_splits dest: in_set_dropD)
next
  case (awaken w ws k k')
  have "x \<notin> set (m_waiters s q')" if "x \<in> set ws" for x q'
    using apartD[OF A, of x t] awaken that by simp
  then show ?thesis
    using awaken apartD[OF A] by (auto simp: wf_apart_def split: if_splits)
qed (use apartD[OF A] in \<open>auto simp: wf_apart_def split: if_splits elim: popped.elims\<close>)

lemma step_wf_tracked:
  assumes st: "mstep code n s t s'" and T: "wf_tracked code s"
  shows "wf_tracked code s'"
  unfolding wf_tracked_def
proof (intro allI impI)
  fix x q
  assume x: "sleeps_on code (ctl s' x) = Some q"
  show "x \<in> set (m_waiters s' q) \<or> (\<exists>u. x \<in> set (popped (ctl s' u)))"
  proof (cases "sleeps_on code (ctl s x) = Some q")
    case True
    then consider "x \<in> set (m_waiters s q)" | u where "x \<in> set (popped (ctl s u))"
      using T unfolding wf_tracked_def by blast
    then show ?thesis
    proof cases
      case 1
      then have "x \<in> set (take m (m_waiters s q)) \<or> x \<in> set (drop m (m_waiters s q))" for m
        by (metis Un_iff append_take_drop_id set_append)
      with st 1 show ?thesis by (cases rule: mstep_queues) (auto intro: exI[of _ t])
    next
      case (2 u)
      show ?thesis
      proof (cases "u = t")
        case True
        from st show ?thesis by (cases rule: mstep_queues) (use x 2 True in \<open>auto intro: exI[of _ t] split: if_splits\<close>)
      next
        case False
        with mstep_popped[OF st] 2 have "x \<in> set (popped (ctl s' u))" by simp
        then show ?thesis by blast
      qed
    qed
  next
    case False
    from st show ?thesis by (cases rule: mstep_queues) (use x False in \<open>auto split: if_splits\<close>)
  qed
qed

lemma step_wf_resuming:
  assumes st: "mstep code n s t s'" and R: "wf_resuming code s" and Q: "wf_queued code s"
    and A: "wf_apart s" and O: "wf_once s" and D: "wf_distinct s"
  shows "wf_resuming code s'"
  unfolding wf_resuming_def
proof (intro allI impI)
  fix u ws k
  assume u: "ctl s' u = Resuming ws k"
  note still = mstep_sleeper[OF st]
  show "\<exists>q. continues code q k \<and> (\<forall>w\<in>set ws. sleeps_on code (ctl s' w) = Some q)"
  proof (cases "u = t")
    case False
    have us: "ctl s u = Resuming ws k"
      using st by (cases rule: mstep_queues) (use u False in \<open>auto split: if_splits\<close>)
    then obtain q where q: "continues code q k" "\<And>w. w \<in> set ws \<Longrightarrow> sleeps_on code (ctl s w) = Some q"
      using resumingD[OF R] by blast
    have "ctl s' w = ctl s w" if "w \<in> set ws" for w
      using still[of w] q(2)[OF that] resumed_apart(2)[OF _ A O D, of t w _ _ u] us that False by auto
    with q show ?thesis by auto
  next
    case True
    from st show ?thesis
    proof (cases rule: mstep_queues)
      case (pop q m k')
      have "sleeps_on code (ctl s' w) = Some q" if "w \<in> set (m_waiters s q)" for w
        using queuedD[OF Q that] still[of w] mstep_mover_awake[OF st] pop by (cases "w = t") auto
      then have "\<forall>w\<in>set (take m (m_waiters s q)). sleeps_on code (ctl s' w) = Some q"
        by (blast dest: in_set_takeD)
      moreover have "ws = take m (m_waiters s q)" "k = k'" using pop(1) u True by simp_all
      ultimately show ?thesis using pop(2) by blast
    next
      case (awaken w ws' k' k'')
      have e: "ws' = ws" "k' = k" using awaken(1) u True by simp_all
      obtain q where q: "continues code q k" "\<And>x. x \<in> set (w # ws) \<Longrightarrow> sleeps_on code (ctl s x) = Some q"
        using resumingD[OF R awaken(2)] e by metis
      have "w \<notin> set ws" using resumed_apart(3)[OF awaken(2) A O D] e by simp
      then have "ctl s' x = ctl s x" if "x \<in> set ws" for x
        using still[of x] q(2)[of x] that awaken(2) by auto
      with q show ?thesis by auto
    qed (use u True in auto)
  qed
qed

lemma wf_resumingD:
  assumes "wf code n s" "ctl s t = Resuming ws k"
  shows "\<exists>q. continues code q k \<and> (\<forall>w\<in>set ws. sleeps_on code (ctl s w) = Some q)"
  using assms by (simp add: wf_def wf_resuming_def)

lemma step_wf:
  assumes "mstep code n s t s'" "wf code n s"
  shows "wf code n s'"
  using assms unfolding wf_def
  by (blast intro: step_wf_distinct step_wf_queued step_wf_popped step_wf_once step_wf_apart
      step_wf_tracked step_wf_stage step_wf_mutex step_wf_resuming step_wf_outside)

lemma reach_wf:
  assumes "reach code n (init_sys v pc) s"
  shows "wf code n s"
  using assms by (induction rule: reach.induct) (auto intro: wf_init step_wf)

end
