(* ===== verification/Machine_Run.thy ===== *)
theory Machine_Run
  imports Machine_Inv
begin

text \<open>
  What clients of the task machine use: the invariant rule (a locale whose \<open>assumes\<close> are
  the two obligations of a primitive), the safety of \<open>tbb::task::resume\<close>, progress, and an
  executable scheduler with which concrete interleavings are replayed inside the kernel.
\<close>

section \<open>Invariants of a primitive\<close>

text \<open>
  A primitive instantiates this locale with its instruction table and its own invariant;
  the queue facts \<open>wf\<close> are available in the step obligation.
\<close>

locale invariant =
  fixes code :: "'pc \<Rightarrow> ('v, 'q, 'pc) instr"
    and n :: nat
    and v0 :: 'v
    and pc0 :: 'pc
    and I :: "('v, 'q, 'pc) sys \<Rightarrow> bool"
  assumes inv_init: "I (init_sys v0 pc0)"
    and inv_step: "wf code n s \<Longrightarrow> I s \<Longrightarrow> mstep code n s t s' \<Longrightarrow> I s'"
begin

lemma reach_inv: "reach code n (init_sys v0 pc0) s \<Longrightarrow> I s"
proof (induction rule: reach.induct)
  case reach_init
  show ?case by (rule inv_init)
next
  case (reach_step s t s')
  then show ?case by (blast intro: inv_step reach_wf)
qed

end

text \<open>
  A second invariant whose step needs the first.
\<close>

locale dependent_invariant = invariant +
  fixes J :: "('b, 'c, 'a) sys \<Rightarrow> bool"
  assumes dep_init: "J (init_sys v0 pc0)"
    and dep_step: "wf code n s \<Longrightarrow> I s \<Longrightarrow> J s \<Longrightarrow> mstep code n s t s' \<Longrightarrow> J s'"
begin

lemma reach_both: "reach code n (init_sys v0 pc0) s \<Longrightarrow> I s \<and> J s"
proof (induction rule: reach.induct)
  case reach_init
  show ?case by (simp add: inv_init dep_init)
next
  case (reach_step s t s')
  then show ?case by (blast intro: inv_step dep_step reach_wf)
qed

lemma reach_dep: "reach code n (init_sys v0 pc0) s \<Longrightarrow> J s"
  using reach_both by blast

end

section \<open>Outcomes of an atomic instruction\<close>

fun outcomes :: "('v, 'q, 'pc) instr \<Rightarrow> 'v \<Rightarrow> ('v \<times> 'pc) list" where
  "outcomes (Atomic f) v = f v"
| "outcomes _ v = []"

lemma outcomesI: "i = Atomic f \<Longrightarrow> x \<in> set (f v) \<Longrightarrow> x \<in> set (outcomes i v)"
  by simp

section \<open>Resumption is safe\<close>

lemma resume_target:
  assumes "wf code n s" "ctl s t = Resuming (w # ws) k"
  shows "\<exists>pc q pred k'. ctl s w = Suspended pc \<and> code pc = Wait_if q pred k'"
proof -
  have "sleeps_on code (ctl s w) \<noteq> None"
    using assms poppedD[of code s w t] by (auto simp: wf_def)
  then obtain pc where "ctl s w = Suspended pc" "wait_queue_of (code pc) \<noteq> None"
    by (cases "ctl s w") auto
  then show ?thesis by (auto simp: wait_queue_of_neq_None wait_queue_of_Some)
qed

lemma resume_target_unique:
  assumes "wf code n s" "ctl s t = Resuming (w # ws) k"
  shows "w \<notin> set ws" "w \<notin> set (m_waiters s q)" "u \<noteq> t \<Longrightarrow> w \<notin> set (popped (ctl s u))"
proof -
  from assms(1) have d: "wf_distinct s" and o: "wf_once s" and a: "wf_apart s"
    by (auto simp: wf_def)
  from d assms(2) show "w \<notin> set ws"
    by (metis distinct.simps(2) popped.simps(1) wf_distinct_def)
  from apartD[OF a, of w t] assms(2) show "w \<notin> set (m_waiters s q)" by simp
  from onceD[OF o, of w u t] assms(2) show "u \<noteq> t \<Longrightarrow> w \<notin> set (popped (ctl s u))" by auto
qed

section \<open>Progress\<close>

definition enabled :: "('pc \<Rightarrow> ('v, 'q, 'pc) instr) \<Rightarrow> nat \<Rightarrow> ('v, 'q, 'pc) sys \<Rightarrow> tid \<Rightarrow> bool" where
  "enabled code n s t \<longleftrightarrow> (\<exists>s'. mstep code n s t s')"

lemma holder_enabled:
  assumes "wf code n s" "m_waiters_mutex s q = Some t"
  shows "t < n \<and> locks code (ctl s t) = Some q \<and> enabled code n s t"
proof -
  have l: "locks code (ctl s t) = Some q"
    using assms by (auto simp: wf_def dest: mutexD2)
  have "t < n"
  proof (rule ccontr)
    assume "\<not> t < n"
    then have "\<exists>pc. ctl s t = At pc" using assms(1) by (simp add: wf_def wf_outside_def)
    then obtain pc where "ctl s t = At pc" ..
    with l show False by simp
  qed
  moreover have "enabled code n s t"
    using l
  proof (cases "ctl s t")
    case (Checking pc)
    with l obtain pred k where c: "code pc = Wait_if q pred k"
      by (auto simp: wait_queue_of_Some)
    obtain v b where "pred (vars s) = (v, b)" by (cases "pred (vars s)") auto
    then show ?thesis
      using \<open>t < n\<close> Checking c
      by (cases b) (auto simp: enabled_def intro: wait_recheck_wait wait_recheck_go)
  next
    case (Pushing pc)
    with l obtain pred k where c: "code pc = Wait_if q pred k"
      by (auto simp: wait_queue_of_Some)
    then show ?thesis
      using \<open>t < n\<close> Pushing by (auto simp: enabled_def intro: wait_push)
  qed auto
  ultimately show ?thesis using l by simp
qed

text \<open>
  A task that is not asleep and has not stopped either can move or is waiting for the
  spin mutex, whose holder can move.
\<close>

definition ready_or_blocked ::
  "('pc \<Rightarrow> ('v, 'q, 'pc) instr) \<Rightarrow> nat \<Rightarrow> ('v, 'q, 'pc) sys \<Rightarrow> tid \<Rightarrow> bool"
where
  "ready_or_blocked code n s t \<longleftrightarrow> (\<exists>q. m_waiters_mutex s q = None \<longrightarrow> enabled code n s t)"

lemma ready_or_blocked_at:
  assumes "t < n" "ctl s t = At pc" and going: "\<And>f. code pc = Atomic f \<Longrightarrow> f (vars s) \<noteq> []"
  shows "ready_or_blocked code n s t"
  unfolding ready_or_blocked_def enabled_def
proof (cases "code pc")
  case (Atomic f)
  with going obtain v pc' where "(v, pc') \<in> set (f (vars s))"
    by (metis list.set_intros(1) neq_Nil_conv surj_pair)
  then show "\<exists>q. m_waiters_mutex s q = None \<longrightarrow> (\<exists>s'. mstep code n s t s')"
    using assms(1,2) Atomic by (blast intro: atomic)
next
  case (Wait_if q pred k)
  then show "\<exists>q. m_waiters_mutex s q = None \<longrightarrow> (\<exists>s'. mstep code n s t s')"
    using assms(1,2) by (cases "pred (vars s)"; cases "snd (pred (vars s))") (auto intro: wait_return wait_suspend)
next
  case (Resume_one q k)
  then show "\<exists>q. m_waiters_mutex s q = None \<longrightarrow> (\<exists>s'. mstep code n s t s')"
    using assms(1,2) by (cases "m_waiters s q") (blast intro: resume_one_none resume_one_some)+
next
  case (Resume_n q m k)
  then show "\<exists>q. m_waiters_mutex s q = None \<longrightarrow> (\<exists>s'. mstep code n s t s')"
    using assms(1,2) by (cases "m = 0") (blast intro: resume_n_zero resume_n_pop)+
next
  case (Resume_all q k)
  then show "\<exists>q. m_waiters_mutex s q = None \<longrightarrow> (\<exists>s'. mstep code n s t s')"
    using assms(1,2) by (blast intro: resume_all_pop)
qed

lemma progress:
  assumes wf: "wf code n s" and t: "t < n"
    and awake: "\<And>pc. ctl s t \<noteq> Suspended pc"
    and going: "\<And>pc f. ctl s t = At pc \<Longrightarrow> code pc = Atomic f \<Longrightarrow> f (vars s) \<noteq> []"
  shows "\<exists>u<n. enabled code n s u \<and> (u = t \<or> locks code (ctl s u) \<noteq> None)"
proof -
  have stage: "\<exists>q pred k. code pc = Wait_if q pred k" if "stage_pc (ctl s t) = Some pc" for pc
  proof -
    from wf that have "wait_queue_of (code pc) \<noteq> None" by (auto simp: wf_def wf_stage_def)
    then show ?thesis by (auto simp: wait_queue_of_neq_None wait_queue_of_Some)
  qed
  have holds: "ready_or_blocked code n s t" if "locks code (ctl s t) = Some q" for q
    using wf holder_enabled[OF wf, of q t] that by (auto simp: ready_or_blocked_def wf_def dest: mutexD)
  have "ready_or_blocked code n s t"
  proof (cases "ctl s t")
    case (At pc)
    with ready_or_blocked_at[OF t At] going show ?thesis by blast
  next
    case (Suspending pc)
    then obtain q pred k where "code pc = Wait_if q pred k" using stage by fastforce
    then show ?thesis using Suspending t by (auto simp: ready_or_blocked_def enabled_def intro: wait_lock)
  next
    case (Self_resume pc)
    then obtain q pred k where "code pc = Wait_if q pred k" using stage by fastforce
    then show ?thesis using Self_resume t by (auto simp: ready_or_blocked_def enabled_def intro: wait_self_resume)
  next
    case (Resuming ws k)
    then show ?thesis using resume_target[OF wf] t
      by (cases ws) (fastforce simp: ready_or_blocked_def enabled_def intro: resume_done resume_next)+
  qed (use stage holds awake in fastforce)+
  then obtain q where q: "m_waiters_mutex s q = None \<longrightarrow> enabled code n s t" by (auto simp: ready_or_blocked_def)
  show ?thesis
  proof (cases "m_waiters_mutex s q")
    case None
    with q t show ?thesis by blast
  next
    case (Some u)
    with holder_enabled[OF wf this] show ?thesis by auto
  qed
qed

text \<open>
  Nobody is forgotten: when every task is asleep or stopped at a plain program point, the
  sleepers are exactly the queued tasks.
\<close>

lemma quiescent_sleepers_queued:
  assumes "wf code n s" "\<And>u. popped (ctl s u) = []" "sleeps_on code (ctl s t) = Some q"
  shows "t \<in> set (m_waiters s q)"
  using assms unfolding wf_def wf_tracked_def by fastforce

text \<open>
  A state in which every task is either asleep or at a plain program point that satisfies
  \<open>P\<close>. Nobody is inside a wake-up any more, so whoever sleeps is in a queue.
\<close>

definition settled :: "nat \<Rightarrow> ('v, 'q, 'pc) sys \<Rightarrow> ('pc \<Rightarrow> bool) \<Rightarrow> bool" where
  "settled n s P \<longleftrightarrow> (\<forall>t<n. (\<exists>pc. ctl s t = At pc \<and> P pc) \<or> (\<exists>pc. ctl s t = Suspended pc))"

lemma settledD:
  assumes "settled n s P" "t < n"
  obtains pc where "ctl s t = At pc" "P pc" | pc where "ctl s t = Suspended pc"
  using assms by (auto simp: settled_def)

lemma settled_popped: "wf code n s \<Longrightarrow> settled n s P \<Longrightarrow> popped (ctl s u) = []"
proof (cases "u < n")
  case False
  assume "wf code n s"
  with False have "\<exists>pc. ctl s u = At pc" by (simp add: wf_def wf_outside_def)
  then show ?thesis by auto
qed (auto elim: settledD)

lemma settled_total:
  assumes "settled n s P" "\<And>pc. P pc \<Longrightarrow> f (At pc) = 0" "\<And>pc. f (Suspended pc) = 0"
  shows "total f n (ctl s) = 0"
  using assms by (intro total_eq_0) (auto simp: settled_def dest!: spec)

lemma settled_asleep_queued:
  assumes "wf code n s" "settled n s P" "ctl s t = Suspended pc"
  shows "\<exists>q. wait_queue_of (code pc) = Some q \<and> t \<in> set (m_waiters s q)"
proof -
  have "wait_queue_of (code pc) \<noteq> None"
    using assms(1,3) by (auto simp: wf_def wf_stage_def dest!: spec[of _ t])
  then obtain q where q: "wait_queue_of (code pc) = Some q" by auto
  then have "sleeps_on code (ctl s t) = Some q" using assms(3) by simp
  with quiescent_sleepers_queued[OF assms(1) settled_popped[OF assms(1,2)]] q
  show ?thesis by blast
qed

section \<open>Tasks about to join a queue\<close>

text \<open>
  \<open>pushing_on code q c\<close> is 1 for a task that decided to wait and holds the spin mutex of
  \<open>q\<close> to push its node; \<open>sought code n s q\<close> says that some task sleeps in queue \<open>q\<close> or is
  about to. Whenever a wake-up pops from \<open>q\<close>, no task is about to push.
\<close>

fun pushing_on :: "('pc \<Rightarrow> ('v, 'q, 'pc) instr) \<Rightarrow> 'q \<Rightarrow> 'pc control \<Rightarrow> int" where
  "pushing_on code q (Pushing pc) = of_bool (wait_queue_of (code pc) = Some q)"
| "pushing_on code q _ = 0"

definition sought :: "('pc \<Rightarrow> ('v, 'q, 'pc) instr) \<Rightarrow> nat \<Rightarrow> ('v, 'q, 'pc) sys \<Rightarrow> 'q \<Rightarrow> bool" where
  "sought code n s q \<longleftrightarrow> m_waiters s q \<noteq> [] \<or> total (pushing_on code q) n (ctl s) \<noteq> 0"

lemma pushing_on_nonneg: "0 \<le> pushing_on code q c"
  by (cases c) auto

lemma no_pushing:
  assumes "wf code n s" "m_waiters_mutex s q = None"
  shows "total (pushing_on code q) n (ctl s) = 0"
proof (rule total_eq_0)
  fix t
  have "locks code (ctl s t) \<noteq> Some q"
    using assms by (auto simp: wf_def dest: mutexD)
  then show "pushing_on code q (ctl s t) = 0" by (cases "ctl s t") auto
qed

lemma pushing_total:
  assumes "wf code n s" "ctl s t = Pushing pc" "t < n" "wait_queue_of (code pc) = Some q"
  shows "total (pushing_on code q) n (ctl s) \<noteq> 0"
  using total_0D[of "pushing_on code q" n "ctl s" t] assms pushing_on_nonneg[of code q]
  by fastforce

lemma mstep_inside: "mstep code n s t s' \<Longrightarrow> t < n"
  by (cases rule: mstep.cases) auto

lemma asleep_inside:
  assumes "wf code n s" "ctl s w = Suspended pc"
  shows "w < n"
  using assms by (force simp: wf_def wf_outside_def not_less[symmetric])

section \<open>An executable scheduler\<close>

text \<open>
  \<open>exec_step code n c t s\<close> lets task \<open>t\<close> make its next step; \<open>c\<close> picks one of the
  outcomes of an \<open>Atomic\<close> instruction. \<open>None\<close> means that the task cannot move.
\<close>

definition exec_at ::
  "('v, 'q, 'pc) instr \<Rightarrow> nat \<Rightarrow> tid \<Rightarrow> 'pc \<Rightarrow> ('v, 'q, 'pc) sys \<Rightarrow> ('v, 'q, 'pc) sys option"
where
  "exec_at i c t pc s = (case i of
     Atomic f \<Rightarrow>
       (let os = f (vars s) in
        if c < length os then Some (goto (s\<lparr>vars := fst (os ! c)\<rparr>) t (At (snd (os ! c)))) else None)
   | Wait_if q pred k \<Rightarrow>
       (let r = pred (vars s) in
        Some (goto (s\<lparr>vars := fst r\<rparr>) t (if snd r then Suspending pc else At k)))
   | Resume_one q k \<Rightarrow>
       (if m_waiters_mutex s q = None
        then (case m_waiters s q of
                [] \<Rightarrow> Some (goto s t (At (k False)))
              | w # ws \<Rightarrow> Some (goto (s\<lparr>m_waiters := (m_waiters s)(q := ws)\<rparr>) t (Resuming [w] (k True))))
        else None)
   | Resume_n q m k \<Rightarrow>
       (if m = 0 then Some (goto s t (At k))
        else if m_waiters_mutex s q = None
        then Some (goto (s\<lparr>m_waiters := (m_waiters s)(q := drop m (m_waiters s q))\<rparr>) t
                        (Resuming (take m (m_waiters s q)) k))
        else None)
   | Resume_all q k \<Rightarrow>
       (if m_waiters_mutex s q = None
        then Some (goto (s\<lparr>m_waiters := (m_waiters s)(q := [])\<rparr>) t (Resuming (m_waiters s q) k))
        else None))"

definition exec_stage ::
  "('v, 'q, 'pc) instr \<Rightarrow> tid \<Rightarrow> ('v, 'q, 'pc) sys \<Rightarrow> ('v, 'q, 'pc) sys option"
where
  "exec_stage i t s = (case i of
     Wait_if q pred k \<Rightarrow>
       (case ctl s t of
          Suspending pc \<Rightarrow>
            (if m_waiters_mutex s q = None
             then Some (goto (s\<lparr>m_waiters_mutex := (m_waiters_mutex s)(q := Some t)\<rparr>) t (Checking pc))
             else None)
        | Checking pc \<Rightarrow>
            (let r = pred (vars s) in
             if snd r then Some (goto (s\<lparr>vars := fst r\<rparr>) t (Pushing pc))
             else Some (goto (s\<lparr>vars := fst r,
                                m_waiters_mutex := (m_waiters_mutex s)(q := None)\<rparr>) t (Self_resume pc)))
        | Pushing pc \<Rightarrow>
            Some (goto (s\<lparr>m_waiters := (m_waiters s)(q := m_waiters s q @ [t]),
                          m_waiters_mutex := (m_waiters_mutex s)(q := None)\<rparr>) t (Suspended pc))
        | Self_resume pc \<Rightarrow> Some (goto s t (At k))
        | _ \<Rightarrow> None)
   | _ \<Rightarrow> None)"

definition exec_resume ::
  "('pc \<Rightarrow> ('v, 'q, 'pc) instr) \<Rightarrow> tid \<Rightarrow> tid list \<Rightarrow> 'pc \<Rightarrow> ('v, 'q, 'pc) sys
     \<Rightarrow> ('v, 'q, 'pc) sys option"
where
  "exec_resume code t ws k s = (case ws of
     [] \<Rightarrow> Some (goto s t (At k))
   | w # ws' \<Rightarrow>
       (case ctl s w of
          Suspended pc \<Rightarrow>
            (case code pc of
               Wait_if q pred k' \<Rightarrow> Some (s\<lparr>ctl := (ctl s)(w := At k', t := Resuming ws' k)\<rparr>)
             | _ \<Rightarrow> None)
        | _ \<Rightarrow> None))"

definition exec_step ::
  "('pc \<Rightarrow> ('v, 'q, 'pc) instr) \<Rightarrow> nat \<Rightarrow> nat \<Rightarrow> tid \<Rightarrow> ('v, 'q, 'pc) sys \<Rightarrow> ('v, 'q, 'pc) sys option"
where
  "exec_step code n c t s =
     (if t < n then
        (case ctl s t of
           At pc \<Rightarrow> exec_at (code pc) c t pc s
         | Resuming ws k \<Rightarrow> exec_resume code t ws k s
         | Suspended pc \<Rightarrow> None
         | Suspending pc \<Rightarrow> exec_stage (code pc) t s
         | Checking pc \<Rightarrow> exec_stage (code pc) t s
         | Pushing pc \<Rightarrow> exec_stage (code pc) t s
         | Self_resume pc \<Rightarrow> exec_stage (code pc) t s)
      else None)"

fun run ::
  "('pc \<Rightarrow> ('v, 'q, 'pc) instr) \<Rightarrow> nat \<Rightarrow> (tid \<times> nat) list \<Rightarrow> ('v, 'q, 'pc) sys
     \<Rightarrow> ('v, 'q, 'pc) sys option"
where
  "run code n [] s = Some s"
| "run code n ((t, c) # sched) s =
     (case exec_step code n c t s of None \<Rightarrow> None | Some s' \<Rightarrow> run code n sched s')"

lemma exec_at_sound:
  assumes "exec_at (code pc) c t pc s = Some s'" and t: "t < n" "ctl s t = At pc"
  shows "mstep code n s t s'"
proof (cases "code pc")
  case (Atomic f)
  obtain v pc' where o: "f (vars s) ! c = (v, pc')" by (cases "f (vars s) ! c") auto
  with assms(1) Atomic have "(v, pc') \<in> set (f (vars s))"
    and "s' = goto (s\<lparr>vars := v\<rparr>) t (At pc')"
    by (auto simp: exec_at_def Let_def in_set_conv_nth split: if_splits)
  then show ?thesis using mstep.atomic[of t n s pc code f v pc'] t Atomic by simp
next
  case (Wait_if q pred k)
  with assms show ?thesis
    by (cases "pred (vars s)") (auto simp: exec_at_def Let_def split: if_splits intro: wait_return wait_suspend)
next
  case (Resume_one q k)
  with assms show ?thesis
    by (auto simp: exec_at_def split: if_splits list.splits intro: resume_one_none resume_one_some)
next
  case (Resume_n q m k)
  with assms show ?thesis
    by (auto simp: exec_at_def split: if_splits intro: resume_n_zero resume_n_pop)
next
  case (Resume_all q k)
  with assms show ?thesis by (auto simp: exec_at_def split: if_splits intro: resume_all_pop)
qed

lemma exec_step_sound:
  assumes "exec_step code n c t s = Some s'"
  shows "mstep code n s t s'"
proof -
  have t: "t < n" using assms by (auto simp: exec_step_def split: if_splits)
  note defs = exec_step_def exec_stage_def exec_resume_def Let_def
  show ?thesis
  proof (cases "ctl s t")
    case (At pc)
    with assms t have "exec_at (code pc) c t pc s = Some s'" by (simp add: exec_step_def)
    from exec_at_sound[of code, OF this t At] show ?thesis .
  next
    case (Resuming ws k)
    with assms t show ?thesis
      by (auto simp: defs split: list.splits control.splits instr.splits intro: resume_done resume_next)
  next
    case (Checking pc)
    with assms t obtain q pred k where c: "code pc = Wait_if q pred k"
      by (auto simp: defs split: instr.splits)
    obtain v b where "pred (vars s) = (v, b)" by (cases "pred (vars s)") auto
    with assms t Checking c show ?thesis
      by (cases b) (auto simp: defs intro: wait_recheck_wait wait_recheck_go)
  qed (use assms t in \<open>auto simp: defs split: instr.splits if_splits
      intro: wait_lock wait_push wait_self_resume\<close>)
qed

lemma exec_step_complete:
  assumes "mstep code n s t s'"
  shows "\<exists>c. exec_step code n c t s = Some s'"
  using assms
proof (cases rule: mstep.cases)
  case (atomic pc f v pc')
  then obtain c where "c < length (f (vars s))" "f (vars s) ! c = (v, pc')"
    by (auto simp: in_set_conv_nth)
  with atomic have "exec_step code n c t s = Some s'" by (simp add: exec_step_def exec_at_def)
  then show ?thesis ..
qed (auto simp: exec_step_def exec_at_def exec_stage_def exec_resume_def)

theorem exec_step_iff: "mstep code n s t s' \<longleftrightarrow> (\<exists>c. exec_step code n c t s = Some s')"
  using exec_step_sound exec_step_complete by metis

lemma run_reach: "run code n sched s1 = Some s2 \<Longrightarrow> reach code n s0 s1 \<Longrightarrow> reach code n s0 s2"
  by (induction code n sched s1 rule: run.induct)
    (auto split: option.splits intro: reach_step exec_step_sound)

lemma run_append:
  "run code n (xs @ ys) s = (case run code n xs s of None \<Rightarrow> None | Some s' \<Rightarrow> run code n ys s')"
  by (induction code n xs s rule: run.induct) (auto split: option.splits)

text \<open>A replayed schedule shows that a state with a given property is reachable.\<close>

lemma run_witness:
  assumes "(case run code n sched s0 of None \<Rightarrow> False | Some s \<Rightarrow> P s)"
  shows "\<exists>s. reach code n s0 s \<and> P s"
  using assms by (auto split: option.splits intro: run_reach reach_init)

lemmas run_simps = exec_step_def exec_at_def exec_stage_def exec_resume_def init_sys_def

end
