(* ===== verification/Accounting.thy ===== *)
theory Accounting
  imports Machine_Run
begin

text \<open>
  Two contracts most primitives share, each proved once for every instruction table.

  \<open>accounting\<close>: the state of the atomics equals a sum over the tasks (an owner per set
  flag, a reader per unit of the counter). \<open>wakeups\<close>: as long as somebody sleeps in a
  queue, what the sleepers wait for is already promised to a task that will pass it on.
  A client discharges its obligations one program point at a time, with no mention of
  the other tasks, of the queues or of the spin mutex.
\<close>

section \<open>The moves of one task\<close>

text \<open>
  \<open>moves pc i v c v' c'\<close>: executing instruction \<open>i\<close>, which stands at \<open>pc\<close>, a task may go
  from control state \<open>c\<close> to \<open>c'\<close> while the atomics go from \<open>v\<close> to \<open>v'\<close>.
\<close>

fun moves ::
  "'pc \<Rightarrow> ('v, 'q, 'pc) instr \<Rightarrow> 'v \<Rightarrow> 'pc control \<Rightarrow> 'v \<Rightarrow> 'pc control \<Rightarrow> bool"
where
  "moves pc (Atomic f) v c v' c' \<longleftrightarrow> c = At pc \<and> (\<exists>pc'. (v', pc') \<in> set (f v) \<and> c' = At pc')"
| "moves pc (Wait_if q pred k) v c v' c' \<longleftrightarrow>
     (c = At pc \<and> pred v = (v', False) \<and> c' = At k)
     \<or> (c = At pc \<and> pred v = (v', True) \<and> c' = Suspending pc)
     \<or> (c = Suspending pc \<and> v' = v \<and> c' = Checking pc)
     \<or> (c = Checking pc \<and> pred v = (v', True) \<and> c' = Pushing pc)
     \<or> (c = Checking pc \<and> pred v = (v', False) \<and> c' = Self_resume pc)
     \<or> (c = Pushing pc \<and> v' = v \<and> c' = Suspended pc)
     \<or> (c = Self_resume pc \<and> v' = v \<and> c' = At k)"
| "moves pc (Resume_one q k) v c v' c' \<longleftrightarrow> v' = v \<and>
     ((c = At pc \<and> c' = At (k False)) \<or> (c = At pc \<and> (\<exists>w. c' = Resuming [w] (k True)))
      \<or> (c = Resuming [] (k True) \<and> c' = At (k True)))"
| "moves pc (Resume_n q m k) v c v' c' \<longleftrightarrow> v' = v \<and>
     ((c = At pc \<and> m = 0 \<and> c' = At k)
      \<or> (c = At pc \<and> m \<noteq> 0 \<and> (\<exists>ws. length ws \<le> m \<and> c' = Resuming ws k))
      \<or> (c = Resuming [] k \<and> c' = At k))"
| "moves pc (Resume_all q k) v c v' c' \<longleftrightarrow> v' = v \<and>
     ((c = At pc \<and> (\<exists>ws. c' = Resuming ws k)) \<or> (c = Resuming [] k \<and> c' = At k))"

text \<open>The move that takes the last waiters out of queue \<open>q\<close>.\<close>

fun drains :: "'q \<Rightarrow> ('v, 'q, 'pc) instr \<Rightarrow> 'pc control \<Rightarrow> 'pc control \<Rightarrow> bool" where
  "drains q (Resume_one q' k) (At pc) c' \<longleftrightarrow> q' = q \<and> popped c' = []"
| "drains q (Resume_n q' m k) (At pc) c' \<longleftrightarrow> q' = q \<and> length (popped c') < m"
| "drains q (Resume_all q' k) (At pc) c' \<longleftrightarrow> q' = q"
| "drains q _ _ _ \<longleftrightarrow> False"

lemma resuming_moves:
  assumes "continues code q k"
  shows "\<exists>pc. (\<forall>v. moves pc (code pc) v (Resuming [] k) v (At k))
    \<and> (\<forall>q'. \<not> drains q' (code pc) (Resuming [] k) (At k))"
proof -
  from assms consider pc k' where "code pc = Resume_one q k'" "k = k' True"
    | pc m where "code pc = Resume_n q m k" | pc where "code pc = Resume_all q k"
    by (auto simp: continues_def)
  then show ?thesis
  proof cases
    case (1 pc k')
    then show ?thesis by (intro exI[of _ pc]) simp
  next
    case (2 pc m)
    then show ?thesis by (intro exI[of _ pc]) simp
  next
    case (3 pc)
    then show ?thesis by (intro exI[of _ pc]) simp
  qed
qed

text \<open>The program point a task is at, sleeps at or goes on at.\<close>

fun pc_of :: "'pc control \<Rightarrow> 'pc" where
  "pc_of (At pc) = pc"
| "pc_of (Suspending pc) = pc"
| "pc_of (Checking pc) = pc"
| "pc_of (Pushing pc) = pc"
| "pc_of (Self_resume pc) = pc"
| "pc_of (Suspended pc) = pc"
| "pc_of (Resuming ws pc) = pc"

text \<open>Every step is a move of one task, or a task calling \<open>resume\<close> on the next popped waiter.\<close>

lemma mstep_own_move:
  assumes "mstep code n s t s'" "\<And>ws k. ctl s t \<noteq> Resuming ws k"
  shows "moves (pc_of (ctl s t)) (code (pc_of (ctl s t))) (vars s) (ctl s t) (vars s') (ctl s' t)
    \<and> ctl s' = (ctl s)(t := ctl s' t)"
  using assms by (cases rule: mstep.cases) auto

lemma mstep_moves:
  assumes "mstep code n s t s'" "wf code n s"
  obtains (move) pc c' where "moves pc (code pc) (vars s) (ctl s t) (vars s') c'"
      "ctl s' = (ctl s)(t := c')" "\<And>ws k q. ctl s t = Resuming ws k \<Longrightarrow> \<not> drains q (code pc) (ctl s t) c'"
  | (handover) w ws k q pc pred k' where "ctl s t = Resuming (w # ws) k"
      "ctl s w = Suspended pc" "code pc = Wait_if q pred k'" "continues code q k" "w \<noteq> t" "w < n"
      "vars s' = vars s" "ctl s' = (ctl s)(w := At k', t := Resuming ws k)"
      "m_waiters s' = m_waiters s"
proof (cases "\<exists>ws k. ctl s t = Resuming ws k")
  case True
  from assms(1) show thesis
  proof (cases rule: mstep.cases)
    case (resume_next w ws k pc q pred k')
    obtain q' where "continues code q' k" "sleeps_on code (ctl s w) = Some q'"
      using wf_resumingD[OF assms(2), of t "w # ws" k] resume_next by auto
    with resume_next have "continues code q k" by auto
    then show thesis using resume_next asleep_inside[OF assms(2), of w pc]
      by (intro handover[of w ws k pc q pred k']) auto
  next
    case (resume_done k)
    obtain q where "continues code q k"
      using wf_resumingD[OF assms(2), of t "[]" k] resume_done by auto
    from resuming_moves[OF this] obtain pc
      where "\<And>v. moves pc (code pc) v (Resuming [] k) v (At k)"
        "\<And>q'. \<not> drains q' (code pc) (Resuming [] k) (At k)" by blast
    with resume_done show thesis by (intro move[of pc "At k"]) auto
  qed (use True in auto)
next
  case False
  with mstep_own_move[OF assms(1)] show thesis by (intro move) auto
qed

text \<open>What a step does to a queue: a move that drains it leaves it empty, and only the second check of
  \<open>wait_if\<close> adds a task to those in it or about to be in it.\<close>

lemma drained:
  assumes "mstep code n s t s'" "moves pc (code pc) (vars s) (ctl s t) (vars s') (ctl s' t)"
    and "drains q (code pc) (ctl s t) (ctl s' t)"
  shows "m_waiters s' q = [] \<and> m_waiters_mutex s' q = None"
proof -
  from assms(2,3) have "ctl s t = At pc" by (auto elim: drains.elims)
  from assms(1) this assms(3) show ?thesis by (cases rule: mstep.cases) auto
qed

lemma newly_sought:
  assumes "mstep code n s t s'" "wf code n s" "sought code n s' q" "\<not> sought code n s q"
  obtains pc pred k where "ctl s t = Checking pc" "code pc = Wait_if q pred k" "pred (vars s) = (vars s', True)"
proof -
  note t = mstep_inside[OF assms(1)]
  from assms(1) show thesis
    by (cases rule: mstep.cases)
      (use assms(3,4) that pushing_total[OF assms(2) _ t, of _ q] asleep_inside[OF assms(2)] in
        \<open>auto simp: sought_def total_upd split: if_splits\<close>)
qed

section \<open>Accounts\<close>

text \<open>
  \<open>fits\<close> is what one task knows: its own weight is part of the account, and where every
  weight is at most one the account leaves room for this task.
\<close>

definition fits ::
  "('i \<Rightarrow> 'pc control \<Rightarrow> int) \<Rightarrow> ('i \<Rightarrow> 'v \<Rightarrow> int) \<Rightarrow> nat \<Rightarrow> 'v \<Rightarrow> 'pc control \<Rightarrow> bool"
where
  "fits f g n v c \<longleftrightarrow> (\<forall>i. f i c \<le> g i v \<and> ((\<forall>c. f i c \<le> 1) \<longrightarrow> g i v + 1 \<le> int n + f i c))"

definition accounts_inv ::
  "(nat \<Rightarrow> bool) \<Rightarrow> ('i \<Rightarrow> 'pc control \<Rightarrow> int) \<Rightarrow> ('i \<Rightarrow> 'v \<Rightarrow> int) \<Rightarrow> nat
    \<Rightarrow> ('v, 'q, 'pc) sys \<Rightarrow> bool"
where
  "accounts_inv small f g n s \<longleftrightarrow> (small n \<longrightarrow> (\<forall>i. total (f i) n (ctl s) = g i (vars s)))"

lemma accounts_fits:
  assumes "small n" "accounts_inv small f g n s" "t < n" "\<And>i c. 0 \<le> f i c"
  shows "fits f g n (vars s) (ctl s t)"
  unfolding fits_def
proof (intro allI conjI impI)
  fix i
  have tot: "total (f i) n (ctl s) = g i (vars s)" using assms by (auto simp: accounts_inv_def)
  show "f i (ctl s t) \<le> g i (vars s)"
    using total_ge[of t n "f i" "ctl s"] assms(3,4) tot by simp
  assume le: "\<forall>c. f i c \<le> 1"
  then have "f i (ctl s t) = 0 \<or> f i (ctl s t) = 1"
    using assms(4)[of i "ctl s t"] by (metis antisym int_one_le_iff_zero_less order_le_less)
  then show "g i (vars s) + 1 \<le> int n + f i (ctl s t)"
    using total_le_except[of t n "f i" "ctl s"] total_le_bound[of "f i" n "ctl s"] le assms(3) tot
    by auto
qed

locale accounting =
  fixes code :: "'pc \<Rightarrow> ('v, 'q, 'pc) instr"
    and small :: "nat \<Rightarrow> bool"
    and v0 :: 'v
    and pc0 :: 'pc
    and f :: "'i \<Rightarrow> 'pc control \<Rightarrow> int"
    and g :: "'i \<Rightarrow> 'v \<Rightarrow> int"
  assumes nonneg: "0 \<le> f i c"
    and open_accounts: "f i (At pc0) = 0" "small n \<Longrightarrow> g i v0 = 0"
    and balance: "small n \<Longrightarrow> moves pc (code pc) v c v' c' \<Longrightarrow> fits f g n v c
      \<Longrightarrow> g i v' - g i v = f i c' - f i c"
    and transfer: "code pc = Wait_if q pred k' \<Longrightarrow> continues code q k
      \<Longrightarrow> f i (Resuming (w # ws) k) + f i (Suspended pc) = f i (Resuming ws k) + f i (At k')"
begin

lemma accounts_step:
  assumes wf: "wf code n s" and I: "accounts_inv small f g n s" and st: "mstep code n s t s'"
  shows "accounts_inv small f g n s'"
  unfolding accounts_inv_def
proof (intro impI allI)
  fix i
  assume n: "small n"
  have t: "t < n" by (rule mstep_inside[OF st])
  have tot: "total (f i) n (ctl s) = g i (vars s)" using I n by (simp add: accounts_inv_def)
  from st wf show "total (f i) n (ctl s') = g i (vars s')"
  proof (cases rule: mstep_moves)
    case (move pc c')
    from balance[OF n move(1) accounts_fits[OF n I t nonneg], of i] tot move(2) t
    show ?thesis by (simp add: total_upd)
  next
    case (handover w ws k q pc pred k')
    from transfer[OF handover(3,4), of i w ws] tot handover t
    show ?thesis by (simp add: total_upd)
  qed
qed

sublocale account: invariant code n v0 pc0 "accounts_inv small f g n" for n
  by unfold_locales
    (simp add: accounts_inv_def init_sys_def open_accounts total_eq_0, rule accounts_step)

lemma accounts_exact:
  "reach code n (init_sys v0 pc0) s \<Longrightarrow> small n \<Longrightarrow> total (f i) n (ctl s) = g i (vars s)"
  using account.reach_inv[of n s] by (simp add: accounts_inv_def)

lemma reach_fits:
  "reach code n (init_sys v0 pc0) s \<Longrightarrow> small n \<Longrightarrow> t < n \<Longrightarrow> fits f g n (vars s) (ctl s t)"
  by (rule accounts_fits[OF _ account.reach_inv _ nonneg])

lemma reach_never:
  "reach code n (init_sys v0 pc0) s \<Longrightarrow> small n \<Longrightarrow> t < n \<Longrightarrow> g i (vars s) < f i c \<Longrightarrow> ctl s t \<noteq> c"
  using reach_fits[of n s t] by (auto simp: fits_def dest: spec[where x = i])

lemma reach_pair:
  assumes "reach code n (init_sys v0 pc0) s" "small n" "t < n" "u < n" "t \<noteq> u"
  shows "f i (ctl s t) + f i (ctl s u) \<le> g i (vars s)"
  using accounts_exact[OF assms(1,2)] total_two[of t n u "f i" "ctl s", OF assms(3-5) nonneg] by simp

end

section \<open>Wake-ups\<close>

text \<open>
  \<open>h v\<close> is how many sleepers of queue \<open>q\<close> could be served in state \<open>v\<close>; \<open>w\<close> is how many
  tasks a task will still wake or serve itself. The predicate of \<open>wait_if\<close> lets a task
  sleep only when there is nothing to serve. \<open>L\<close> is what is known about a running task.
\<close>

definition wake_inv ::
  "('pc \<Rightarrow> ('v, 'q, 'pc) instr) \<Rightarrow> 'q \<Rightarrow> ('v \<Rightarrow> int) \<Rightarrow> ('pc control \<Rightarrow> int) \<Rightarrow> nat
    \<Rightarrow> ('v, 'q, 'pc) sys \<Rightarrow> bool"
where
  "wake_inv code q h w n s \<longleftrightarrow> (sought code n s q \<longrightarrow> h (vars s) \<le> total w n (ctl s))"

locale wakeups =
  fixes code :: "'pc \<Rightarrow> ('v, 'q, 'pc) instr"
    and v0 :: 'v
    and pc0 :: 'pc
    and q :: 'q
    and h :: "'v \<Rightarrow> int"
    and w :: "'pc control \<Rightarrow> int"
    and L :: "nat \<Rightarrow> 'v \<Rightarrow> 'pc control \<Rightarrow> bool"
  assumes known: "reach code n (init_sys v0 pc0) s \<Longrightarrow> t < n \<Longrightarrow> L n (vars s) (ctl s t)"
    and nonneg: "0 \<le> w c"
    and sleep: "code pc = Wait_if q pred k \<Longrightarrow> pred v = (v', True) \<Longrightarrow> L n v (Checking pc)
      \<Longrightarrow> h v' \<le> 0"
    and keep: "moves pc (code pc) v c v' c' \<Longrightarrow> L n v c \<Longrightarrow> \<not> drains q (code pc) c c'
      \<Longrightarrow> h v' \<le> 0 \<or> h v' - h v \<le> w c' - w c"
    and pass: "code pc = Wait_if q' pred k' \<Longrightarrow> continues code q' k
      \<Longrightarrow> w (Resuming (x # ws) k) + w (Suspended pc) \<le> w (Resuming ws k) + w (At k')"
begin

lemma wake_move:
  assumes wf: "wf code n s" and L: "L n (vars s) (ctl s t)" and I: "wake_inv code q h w n s" and t: "t < n"
    and m: "moves pc (code pc) (vars s) (ctl s t) (vars s') c'" "ctl s' = (ctl s)(t := c')"
    and d: "\<not> drains q (code pc) (ctl s t) c'"
    and so: "sought code n s' q \<Longrightarrow> sought code n s q \<or> h (vars s') \<le> 0"
  shows "wake_inv code q h w n s'"
  unfolding wake_inv_def
proof
  assume s': "sought code n s' q"
  have w0: "0 \<le> total w n (ctl s')" by (rule total_nonneg[OF nonneg])
  from so[OF s'] show "h (vars s') \<le> total w n (ctl s')"
  proof
    assume "sought code n s q"
    with I have "h (vars s) \<le> total w n (ctl s)" by (simp add: wake_inv_def)
    with keep[OF m(1) L d] m(2) t w0 show ?thesis by (auto simp: total_upd)
  qed (use w0 in simp)
qed

lemma wake_step:
  assumes wf: "wf code n s" and L: "L n (vars s) (ctl s t)"
    and I: "wake_inv code q h w n s" and st: "mstep code n s t s'"
  shows "wake_inv code q h w n s'"
proof -
  note t = mstep_inside[OF st]
  from st wf show ?thesis
  proof (cases rule: mstep_moves)
    case (move pc c')
    show ?thesis
    proof (cases "drains q (code pc) (ctl s t) c'")
      case True
      with drained[OF st, of pc q] move have "m_waiters s' q = []" "m_waiters_mutex s' q = None" by simp_all
      with no_pushing[OF step_wf[OF st wf]] show ?thesis by (simp add: wake_inv_def sought_def)
    next
      case False
      have "sought code n s q \<or> h (vars s') \<le> 0" if "sought code n s' q"
      proof (rule disjCI)
        assume "\<not> h (vars s') \<le> 0"
        then show "sought code n s q"
          using newly_sought[OF st wf that] sleep L by metis
      qed
      then show ?thesis by (rule wake_move[OF wf L I t move(1,2) False])
    qed
  next
    case (handover x ws k q' pc pred k')
    have "sought code n s' q \<Longrightarrow> sought code n s q"
      using newly_sought[OF st wf] handover(1) by auto
    with pass[OF handover(3,4), of x ws] handover I t show ?thesis by (auto simp: wake_inv_def total_upd)
  qed
qed

lemma wake_ok: "reach code n (init_sys v0 pc0) s \<Longrightarrow> wake_inv code q h w n s"
proof (induction rule: reach.induct)
  case reach_init
  show ?case by (simp add: wake_inv_def sought_def init_sys_def total_eq_0)
next
  case (reach_step s t s')
  from wake_step[OF reach_wf[OF reach_step(1)] known[OF reach_step(1) mstep_inside]] reach_step
  show ?case by blast
qed

lemma queue_served:
  assumes "reach code n (init_sys v0 pc0) s" "m_waiters s q \<noteq> []"
  shows "h (vars s) \<le> total w n (ctl s)"
  using wake_ok[OF assms(1)] assms(2) by (simp add: wake_inv_def sought_def)

text \<open>Once everybody has settled, nobody sleeps in \<open>q\<close> while there is something to serve.\<close>

lemma nobody_left:
  assumes r: "reach code n (init_sys v0 pc0) s" and st: "settled n s P"
    and w0: "\<And>pc. P pc \<Longrightarrow> w (At pc) = 0" "\<And>pc. w (Suspended pc) = 0"
    and h: "0 < h (vars s)"
  shows "m_waiters s q = []" "ctl s t = Suspended pc \<Longrightarrow> wait_queue_of (code pc) \<noteq> Some q"
proof -
  show e: "m_waiters s q = []"
    using queue_served[OF r] settled_total[OF st w0] h by fastforce
  assume "ctl s t = Suspended pc"
  from settled_asleep_queued[OF reach_wf[OF r] st this] e
  show "wait_queue_of (code pc) \<noteq> Some q" by auto
qed

end

section \<open>Local assertions\<close>

text \<open>
  An assertion \<open>A v c\<close> about the atomics and the control state of one task, kept by the moves
  of the task itself and by the moves of the others. \<open>K\<close> is what is already known of
  the task that moves, \<open>E\<close> of the task that moves and another one.
\<close>

locale assertions =
  fixes code :: "'pc \<Rightarrow> ('v, 'q, 'pc) instr"
    and v0 :: 'v
    and pc0 :: 'pc
    and K :: "nat \<Rightarrow> 'v \<Rightarrow> 'pc control \<Rightarrow> bool"
    and E :: "nat \<Rightarrow> 'v \<Rightarrow> 'pc control \<Rightarrow> 'pc control \<Rightarrow> bool"
    and A :: "'v \<Rightarrow> 'pc control \<Rightarrow> bool"
  assumes assertion_known: "reach code n (init_sys v0 pc0) s \<Longrightarrow> t < n \<Longrightarrow> K n (vars s) (ctl s t)"
    and pair_known: "reach code n (init_sys v0 pc0) s \<Longrightarrow> t < n \<Longrightarrow> u < n \<Longrightarrow> t \<noteq> u
      \<Longrightarrow> E n (vars s) (ctl s t) (ctl s u)"
    and assertion_init: "A v0 (At pc0)"
    and own: "moves pc (code pc) v c v' c' \<Longrightarrow> K n v c \<Longrightarrow> A v c \<Longrightarrow> A v' c'"
    and interference_free: "moves pc (code pc) v c v' c' \<Longrightarrow> K n v c \<Longrightarrow> E n v c d
      \<Longrightarrow> A v c \<Longrightarrow> A v d \<Longrightarrow> A v' d"
    and assertion_pass: "code pc = Wait_if q pred k' \<Longrightarrow> continues code q k
      \<Longrightarrow> A v (Resuming (x # ws) k) \<Longrightarrow> A v (Suspended pc) \<Longrightarrow> A v (Resuming ws k) \<and> A v (At k')"
begin

lemma assertion_step:
  assumes "wf code n s" "K n (vars s) (ctl s t)" "\<forall>u<n. A (vars s) (ctl s u)"
    and st: "mstep code n s t s'"
    and E: "\<And>u. u < n \<Longrightarrow> u \<noteq> t \<Longrightarrow> E n (vars s) (ctl s t) (ctl s u)"
  shows "\<forall>u<n. A (vars s') (ctl s' u)"
  using st assms(1)
proof (cases rule: mstep_moves)
  case (move pc c')
  then show ?thesis
    using own[OF move(1) assms(2)] interference_free[OF move(1) assms(2) E] assms(3) mstep_inside[OF st]
    by simp
next
  case (handover w ws k q pc pred k')
  have "A (vars s) (Resuming ws k) \<and> A (vars s) (At k')"
    by (rule assertion_pass[OF handover(3,4), of _ w])
      (use assms(3) handover(1,2,6) mstep_inside[OF st] in metis)+
  with handover assms(3) show ?thesis by simp
qed

lemma assertion_holds:
  "reach code n (init_sys v0 pc0) s \<Longrightarrow> t < n \<Longrightarrow> A (vars s) (ctl s t)"
proof -
  assume "reach code n (init_sys v0 pc0) s" "t < n"
  from this(1) have "\<forall>u<n. A (vars s) (ctl s u)"
  proof (induction rule: reach.induct)
    case reach_init
    show ?case using assertion_init by (simp add: init_sys_def)
  next
    case (reach_step s t s')
    note t = mstep_inside[OF reach_step(2)]
    show ?case
      by (rule assertion_step[OF reach_wf[OF reach_step(1)] assertion_known[OF reach_step(1) t]
            reach_step(3,2) pair_known[OF reach_step(1) t]]) auto
  qed
  with \<open>t < n\<close> show ?thesis by blast
qed

end

section \<open>Notifications\<close>

text \<open>
  For queues that are emptied by \<open>resume_all\<close> only after a change: every sleeper of \<open>q\<close>, and
  every task about to become one, either still has its reason to sleep (\<open>ok\<close>, which depends on the
  program point of its \<open>wait_if\<close>) or some task is about to notify \<open>q\<close>.
\<close>

definition asleep_in :: "('v, 'q, 'pc) sys \<Rightarrow> 'q \<Rightarrow> tid \<Rightarrow> 'pc \<Rightarrow> bool" where
  "asleep_in s q t pc \<longleftrightarrow> ctl s t = Pushing pc \<or> (ctl s t = Suspended pc \<and> t \<in> set (m_waiters s q))"

definition notified_inv ::
  "('pc \<Rightarrow> ('v, 'q, 'pc) instr) \<Rightarrow> 'q \<Rightarrow> ('pc \<Rightarrow> 'v \<Rightarrow> bool) \<Rightarrow> ('pc control \<Rightarrow> int) \<Rightarrow> nat
    \<Rightarrow> ('v, 'q, 'pc) sys \<Rightarrow> bool"
where
  "notified_inv code q ok w n s \<longleftrightarrow>
     (\<forall>t<n. \<forall>pc. asleep_in s q t pc \<longrightarrow> wait_queue_of (code pc) = Some q
        \<longrightarrow> ok pc (vars s) \<or> 0 < total w n (ctl s))"

fun empties :: "'q \<Rightarrow> ('v, 'q, 'pc) instr \<Rightarrow> 'pc control \<Rightarrow> bool" where
  "empties q (Resume_all q' k) (At pc) \<longleftrightarrow> q' = q"
| "empties q _ _ \<longleftrightarrow> False"

lemma nobody_asleep:
  assumes "wf code n s" "m_waiters s q = []" "m_waiters_mutex s q = None" "wait_queue_of (code pc) = Some q"
  shows "\<not> asleep_in s q t pc"
proof -
  have "locks code (ctl s t) \<noteq> Some q" using assms(1,3) by (auto simp: wf_def dest: mutexD)
  with assms(2,4) show ?thesis by (auto simp: asleep_in_def)
qed

lemma newly_asleep:
  assumes "mstep code n s t s'" "asleep_in s' q u pc" "wait_queue_of (code pc) = Some q" "\<not> asleep_in s q u pc"
  obtains pred k where "u = t" "ctl s t = Checking pc" "code pc = Wait_if q pred k" "pred (vars s) = (vars s', True)"
  using assms(1)
  by (cases rule: mstep.cases)
    (use assms(2-4) that in \<open>auto simp: asleep_in_def dest: in_set_dropD split: if_splits\<close>)

locale notifications =
  fixes code :: "'pc \<Rightarrow> ('v, 'q, 'pc) instr"
    and v0 :: 'v
    and pc0 :: 'pc
    and q :: 'q
    and ok :: "'pc \<Rightarrow> 'v \<Rightarrow> bool"
    and w :: "'pc control \<Rightarrow> int"
    and A :: "'v \<Rightarrow> 'pc control \<Rightarrow> bool"
  assumes established: "reach code n (init_sys v0 pc0) s \<Longrightarrow> t < n \<Longrightarrow> A (vars s) (ctl s t)"
    and weight_nonneg: "0 \<le> w c"
    and reason: "code pc = Wait_if q pred k \<Longrightarrow> pred v = (v', True) \<Longrightarrow> ok pc v'"
    and announce: "moves pc (code pc) v c v' c' \<Longrightarrow> wait_queue_of (code pc') = Some q
      \<Longrightarrow> A v d \<Longrightarrow> d = Pushing pc' \<or> d = Suspended pc' \<Longrightarrow> ok pc' v \<Longrightarrow> ok pc' v' \<or> 0 < w c'"
    and persist: "moves pc (code pc) v c v' c' \<Longrightarrow> \<not> empties q (code pc) c \<Longrightarrow> 0 < w c \<Longrightarrow> 0 < w c'"
    and relay: "code pc = Wait_if q' pred k' \<Longrightarrow> continues code q' k
      \<Longrightarrow> w (Resuming (x # ws) k) + w (Suspended pc) \<le> w (Resuming ws k) + w (At k')"
begin

lemma notified_move:
  assumes t: "t < n" and I: "notified_inv code q ok w n s" and K: "\<forall>u<n. A (vars s) (ctl s u)"
    and m: "moves pc (code pc) (vars s) (ctl s t) (vars s') c'" "ctl s' = (ctl s)(t := c')"
    and e: "\<not> empties q (code pc) (ctl s t)"
    and sl: "\<And>u pc. asleep_in s' q u pc \<Longrightarrow> wait_queue_of (code pc) = Some q
      \<Longrightarrow> asleep_in s q u pc \<or> (u = t \<and> ok pc (vars s'))"
  shows "notified_inv code q ok w n s'"
  unfolding notified_inv_def
proof (intro allI impI)
  fix u pc'
  assume u: "u < n" and a: "asleep_in s' q u pc'" and wq: "wait_queue_of (code pc') = Some q"
  have w0: "0 \<le> total w n (ctl s')" by (rule total_nonneg[OF weight_nonneg])
  have fired: "0 < total w n (ctl s')" if "0 < w c'"
    using total_ge[of t n w "ctl s'", OF t weight_nonneg] m(2) that by simp
  from sl[OF a wq] show "ok pc' (vars s') \<or> 0 < total w n (ctl s')"
  proof
    assume b: "asleep_in s q u pc'"
    with I u wq have "ok pc' (vars s) \<or> 0 < total w n (ctl s)" by (auto simp: notified_inv_def)
    then show ?thesis
    proof
      assume "ok pc' (vars s)"
      with announce[OF m(1) wq K[rule_format, OF u]] b fired show ?thesis by (auto simp: asleep_in_def)
    next
      assume pos: "0 < total w n (ctl s)"
      show ?thesis
      proof (cases "0 < w (ctl s t)")
        case True
        with persist[OF m(1) e] fired show ?thesis by blast
      next
        case False
        with weight_nonneg[of "ctl s t"] have "w (ctl s t) = 0" by simp
        then show ?thesis using pos m(2) t weight_nonneg[of c'] by (auto simp: total_upd)
      qed
    qed
  qed blast
qed

lemma notified_step:
  assumes wf: "wf code n s" and I: "notified_inv code q ok w n s" and K: "\<forall>u<n. A (vars s) (ctl s u)"
    and st: "mstep code n s t s'"
  shows "notified_inv code q ok w n s'"
proof -
  note t = mstep_inside[OF st]
  from st wf show ?thesis
  proof (cases rule: mstep_moves)
    case (move pc c')
    show ?thesis
    proof (cases "empties q (code pc) (ctl s t)")
      case True
      with drained[OF st, of pc q] move have "m_waiters s' q = []" "m_waiters_mutex s' q = None"
        by (auto elim!: empties.elims)
      with nobody_asleep[OF step_wf[OF st wf]] show ?thesis by (auto simp: notified_inv_def)
    next
      case False
      show ?thesis
      proof (rule notified_move[OF t I K move(1,2) False])
        fix u pc'
        assume "asleep_in s' q u pc'" "wait_queue_of (code pc') = Some q"
        with newly_asleep[OF st this] reason show "asleep_in s q u pc' \<or> (u = t \<and> ok pc' (vars s'))" by metis
      qed
    qed
  next
    case (handover x ws k q' pc pred k')
    have "total w n (ctl s) \<le> total w n (ctl s')"
      using relay[OF handover(3,4), of x ws] handover t by (auto simp: total_upd)
    moreover have "asleep_in s q u pc'" if "asleep_in s' q u pc'" "wait_queue_of (code pc') = Some q" for u pc'
      using newly_asleep[OF st that] handover(1) by auto
    ultimately show ?thesis using I handover(7) by (fastforce simp: notified_inv_def)
  qed
qed

lemma notified_holds: "reach code n (init_sys v0 pc0) s \<Longrightarrow> notified_inv code q ok w n s"
proof (induction rule: reach.induct)
  case reach_init
  show ?case by (simp add: notified_inv_def asleep_in_def init_sys_def)
next
  case (reach_step s t s')
  from notified_step[OF reach_wf[OF reach_step(1)] reach_step(3) _ reach_step(2)] established[OF reach_step(1)]
  show ?case by blast
qed

text \<open>Once everybody has settled, whoever sleeps in \<open>q\<close> still has its reason.\<close>

lemma sleepers_have_reason:
  assumes r: "reach code n (init_sys v0 pc0) s" and st: "settled n s P"
    and w0: "\<And>pc. P pc \<Longrightarrow> w (At pc) = 0" "\<And>pc. w (Suspended pc) = 0"
    and t: "t < n" "ctl s t = Suspended pc" "wait_queue_of (code pc) = Some q"
  shows "ok pc (vars s)"
proof -
  from settled_asleep_queued[OF reach_wf[OF r] st t(2)] t have "asleep_in s q t pc"
    by (auto simp: asleep_in_def)
  moreover have "total w n (ctl s) = 0" using settled_total[OF st w0] .
  ultimately show ?thesis using notified_holds[OF r] t by (auto simp: notified_inv_def)
qed

end

end
