(* ===== verification/Mutex.thy ===== *)
theory Mutex
  imports Accounting
begin

text \<open>
  \<open>coopsync_tbb::mutex\<close> (\<open>include/coopsync_tbb/mutex.hpp\<close>, \<open>src/mutex.cpp\<close>): one
  atomic flag and one wait queue. The instruction table follows \<open>try_lock\<close>, \<open>lock\<close> and
  \<open>unlock\<close> statement by statement; the theorems are mutual exclusion, the assertion of
  \<open>unlock\<close>, the absence of lost wake-ups and freedom from deadlock inside the primitive.
\<close>

section \<open>State and operations\<close>

record mutex =
  m_locked :: bool

definition mutex_init :: mutex where
  "mutex_init = \<lparr>m_locked = False\<rparr>"

definition mutex_try_lock :: "mutex \<Rightarrow> bool \<times> mutex" where
  "mutex_try_lock m =
     (let r = compare_exchange_strong False True (m_locked m)
      in (fst r, m\<lparr>m_locked := snd r\<rparr>))"

text \<open>
  Program points. \<open>Idle\<close> and \<open>Held\<close> are the caller's: a task outside the critical section
  may call \<open>try_lock\<close> or \<open>lock\<close>, the task inside it calls \<open>unlock\<close>
  (the contract of BasicLockable). \<open>Aborted\<close> is a failed \<open>assert\<close>.
\<close>

datatype mutex_pc =
    Idle | Try_lock | Lock | Lock_wait | Held | Unlock | Unlock_store | Unlock_resume | Aborted

fun mutex_code :: "mutex_pc \<Rightarrow> (mutex, unit, mutex_pc) instr" where
  "mutex_code Idle = Goto [Try_lock, Lock]"
| "mutex_code Try_lock =
     Do (\<lambda>m. let r = mutex_try_lock m in (snd r, if fst r then Held else Idle))"
| "mutex_code Lock =
     Do (\<lambda>m. let r = mutex_try_lock m in (snd r, if fst r then Held else Lock_wait))"
| "mutex_code Lock_wait = Wait_if () (\<lambda>m. (m, m_locked m)) Lock"
| "mutex_code Held = Goto [Unlock]"
| "mutex_code Unlock = Do (\<lambda>m. (m, if m_locked m then Unlock_store else Aborted))"
| "mutex_code Unlock_store = Do (\<lambda>m. (m\<lparr>m_locked := False\<rparr>, Unlock_resume))"
| "mutex_code Unlock_resume = Resume_one () (\<lambda>_. Idle)"
| "mutex_code Aborted = Halt"

fun_cases mutex_code_cases:
  "mutex_code pc = Atomic f" "mutex_code pc = Wait_if q pred k"
  "mutex_code pc = Resume_one q k'" "mutex_code pc = Resume_n q m k" "mutex_code pc = Resume_all q k"

abbreviation mutex_start :: "(mutex, unit, mutex_pc) sys" where
  "mutex_start \<equiv> init_sys mutex_init Idle"

section \<open>The invariant\<close>

text \<open>The owner: from the successful \<open>try_lock\<close> to the store in \<open>unlock\<close>.\<close>

fun owner :: "mutex_pc control \<Rightarrow> int" where
  "owner (At Held) = 1"
| "owner (At Unlock) = 1"
| "owner (At Unlock_store) = 1"
| "owner _ = 0"

text \<open>
  The tasks that will retry \<open>try_lock\<close> or wake a sleeper without help from anyone else.
\<close>

fun waker :: "mutex_pc control \<Rightarrow> int" where
  "waker (At Lock) = 1"
| "waker (At Lock_wait) = 1"
| "waker (At Unlock_resume) = 1"
| "waker (Suspending _) = 1"
| "waker (Checking _) = 1"
| "waker (Self_resume _) = 1"
| "waker (Resuming ws _) = of_bool (ws \<noteq> [])"
| "waker _ = 0"

fun aborted :: "mutex_pc control \<Rightarrow> int" where
  "aborted (At Aborted) = 1"
| "aborted _ = 0"

text \<open>
  The books of the mutex: the flag counts the owners, and no task has failed an assertion.
\<close>

datatype mutex_account = Owners | Failures

fun mutex_weight :: "mutex_account \<Rightarrow> mutex_pc control \<Rightarrow> int" where
  "mutex_weight Owners = owner"
| "mutex_weight Failures = aborted"

fun mutex_balance :: "mutex_account \<Rightarrow> mutex \<Rightarrow> int" where
  "mutex_balance Owners m = of_bool (m_locked m)"
| "mutex_balance Failures m = 0"

lemma mutex_accounts: "(\<forall>i. P i) \<longleftrightarrow> P Owners \<and> P Failures"
  using mutex_account.exhaust by metis

lemma waker_nonneg: "0 \<le> waker c" and owner_nonneg: "0 \<le> owner c" and aborted_nonneg: "0 \<le> aborted c"
  subgoal by (cases c rule: waker.cases) simp_all
  subgoal by (cases c rule: owner.cases) simp_all
  subgoal by (cases c rule: aborted.cases) simp_all
  done

lemma mutex_continues: "continues mutex_code q k \<longleftrightarrow> k = Idle"
  by (auto simp: continues_def elim!: mutex_code_cases intro!: exI[of _ Unlock_resume])

lemma mutex_try_lock_iff:
  "mutex_try_lock m = (if m_locked m then (False, m) else (True, m\<lparr>m_locked := True\<rparr>))"
  by (simp add: mutex_try_lock_def compare_exchange_strong_def)

interpretation mtx: accounting mutex_code "\<lambda>_. True" mutex_init Idle mutex_weight mutex_balance
proof unfold_locales
  show "0 \<le> mutex_weight i c" for i c
    by (cases i) (simp_all add: owner_nonneg aborted_nonneg)
  show "mutex_weight i (At Idle) = 0" "mutex_balance i mutex_init = 0" for i
    by (cases i; simp add: mutex_init_def)+
  show "mutex_balance i v' - mutex_balance i v = mutex_weight i c' - mutex_weight i c"
    if "moves pc (mutex_code pc) v c v' c'" "fits mutex_weight mutex_balance n v c"
    for n pc v c v' c' i
    using that
    by (cases i; cases pc) (auto simp: mutex_try_lock_iff fits_def mutex_accounts split: if_splits)
  show "mutex_weight i (Resuming (w # ws) k) + mutex_weight i (Suspended pc)
      = mutex_weight i (Resuming ws k) + mutex_weight i (At k')"
    if "mutex_code pc = Wait_if q pred k'" "continues mutex_code q k" for pc q pred k' k i w ws
    using that by (cases i) (auto simp: mutex_continues elim!: mutex_code_cases)
qed

interpretation mtx_wake: wakeups mutex_code mutex_init Idle "()" "\<lambda>m. of_bool (\<not> m_locked m)"
  waker "\<lambda>_ _ _. True"
proof unfold_locales
  show "0 \<le> waker c" for c by (rule waker_nonneg)
  show "of_bool (\<not> m_locked v') \<le> (0::int)"
    if "mutex_code pc = Wait_if () pred k" "pred v = (v', True)" for pc pred k v v'
    using that by (auto elim!: mutex_code_cases)
  show "of_bool (\<not> m_locked v') \<le> (0::int)
      \<or> of_bool (\<not> m_locked v') - of_bool (\<not> m_locked v) \<le> waker c' - waker c"
    if "moves pc (mutex_code pc) v c v' c'" "\<not> drains () (mutex_code pc) c c'" for pc v c v' c'
    using that by (cases pc) (auto simp: mutex_try_lock_iff split: if_splits)
  show "waker (Resuming (x # ws) k) + waker (Suspended pc) \<le> waker (Resuming ws k) + waker (At k')"
    if "mutex_code pc = Wait_if q' pred k'" for pc q' pred k' k x ws
    using that by (auto elim!: mutex_code_cases)
qed simp

lemma mutex_owners:
  "reach mutex_code n mutex_start s \<Longrightarrow> total owner n (ctl s) = of_bool (m_locked (vars s))"
  using mtx.accounts_exact[of n s Owners] by simp

lemma mutex_not_aborted:
  "reach mutex_code n mutex_start s \<Longrightarrow> t < n \<Longrightarrow> ctl s t \<noteq> At Aborted"
  using mtx.reach_never[of n s t Failures "At Aborted"] by simp

lemma mutex_settled_idle:
  assumes r: "reach mutex_code n mutex_start s" and st: "settled n s (\<lambda>pc. pc = Idle)"
    and t: "t < n"
  shows "ctl s t = At Idle"
proof -
  have "\<not> m_locked (vars s)"
    using mutex_owners[OF r] settled_total[OF st, of owner] by (auto simp: of_bool_def split: if_splits)
  then have "wait_queue_of (mutex_code pc) \<noteq> Some ()" if "ctl s t = Suspended pc" for pc
    using mtx_wake.nobody_left(2)[OF r st _ _ _ that] by simp
  then show ?thesis using settledD[OF st t] settled_asleep_queued[OF reach_wf[OF r] st, of t]
    by (metis old.unit.exhaust)
qed

section \<open>Properties\<close>

text \<open>C3. Mutual exclusion: in every interleaving of any number of tasks that call \<open>try_lock\<close>,
  \<open>lock\<close> and \<open>unlock\<close>, at most one task is between a successful acquisition and the store of its
  \<open>unlock\<close>.\<close>

theorem mutex_mutual_exclusion:
  assumes "reach mutex_code n mutex_start s" "t < n" "u < n"
    and "owner (ctl s t) = 1" "owner (ctl s u) = 1"
  shows "t = u"
proof (rule ccontr)
  assume "t \<noteq> u"
  with mtx.reach_pair[of n s t u Owners] assms show False
    by (simp add: of_bool_def split: if_splits)
qed

text \<open>Task 0 holds the mutex, task 1 sleeps in the queue.\<close>

theorem mutex_mutual_exclusion_witness:
  "\<exists>s. reach mutex_code 2 mutex_start s \<and> owner (ctl s 0) = 1 \<and> m_waiters s () = [1]
     \<and> (\<forall>u<2. owner (ctl s u) = 1 \<longrightarrow> 0 = u)"
proof -
  have "\<exists>s. reach mutex_code 2 mutex_start s \<and> (owner (ctl s 0) = 1 \<and> m_waiters s () = [1])"
    by (rule run_witness[where sched = "[(0,1),(0,0),(1,1),(1,0),(1,0),(1,0),(1,0),(1,0)]"])
      (simp add: run_simps mutex_init_def mutex_try_lock_def compare_exchange_strong_def)
  then obtain s where "reach mutex_code 2 mutex_start s" "owner (ctl s 0) = 1" "m_waiters s () = [1]"
    by blast
  with mutex_mutual_exclusion[of 2 s 0] show ?thesis by auto
qed

text \<open>The assertion of \<open>unlock\<close> never fails for a caller that holds the mutex, and the flag
  is set exactly while some task owns the mutex.\<close>

theorem mutex_unlock_assertion:
  assumes "reach mutex_code n mutex_start s"
  shows "(\<forall>t<n. ctl s t \<noteq> At Aborted) \<and> (m_locked (vars s) \<longleftrightarrow> (\<exists>t<n. owner (ctl s t) = 1))"
proof -
  have "owner c = 1 \<or> owner c = 0" for c by (cases c rule: owner.cases) simp_all
  then have "m_locked (vars s) \<longleftrightarrow> (\<exists>t<n. owner (ctl s t) = 1)"
    using mutex_owners[OF assms] total_pos_ex[of owner n "ctl s"] total_0D[of owner n "ctl s", OF _ owner_nonneg]
    by (metis of_bool_eq_0_iff zero_neq_one)
  with mutex_not_aborted[OF assms] show ?thesis by blast
qed

theorem mutex_unlock_assertion_witness:
  "\<exists>s. reach mutex_code 1 mutex_start s \<and> ctl s 0 = At Unlock
     \<and> (\<exists>t<1. owner (ctl s t) = 1) \<and> m_locked (vars s)"
proof -
  have "\<exists>s. reach mutex_code 1 mutex_start s \<and> ctl s 0 = At Unlock"
    by (rule run_witness[where sched = "[(0,1),(0,0),(0,0)]"])
      (simp add: run_simps mutex_init_def mutex_try_lock_def compare_exchange_strong_def)
  then obtain s where "reach mutex_code 1 mutex_start s" "ctl s 0 = At Unlock" by blast
  with mutex_unlock_assertion[of 1 s] show ?thesis by (metis less_one owner.simps(2))
qed

text \<open>C5. No lost wake-up: when every task is either outside the mutex or asleep in \<open>lock\<close>, nobody
  is asleep, so no \<open>unlock\<close> can leave a waiter behind.\<close>

theorem mutex_no_lost_wakeup:
  assumes "reach mutex_code n mutex_start s" "settled n s (\<lambda>pc. pc = Idle)" "t < n"
  shows "ctl s t = At Idle"
  using assms by (rule mutex_settled_idle)

text \<open>Task 1 went to sleep behind task 0, was woken by its \<open>unlock\<close> and has left the mutex too.\<close>

theorem mutex_no_lost_wakeup_witness:
  "\<exists>s. reach mutex_code 2 mutex_start s \<and> settled 2 s (\<lambda>pc. pc = Idle) \<and> ctl s 1 = At Idle"
proof -
  have "\<exists>s. reach mutex_code 2 mutex_start s \<and> settled 2 s (\<lambda>pc. pc = Idle)"
    by (rule run_witness[where sched = "[(0,1),(0,0),(1,1),(1,0),(1,0),(1,0),(1,0),(1,0),
          (0,0),(0,0),(0,0),(0,0),(0,0),(0,0),(1,0),(1,0),(1,0),(1,0),(1,0)]"])
      (simp add: run_simps mutex_init_def mutex_try_lock_def compare_exchange_strong_def
        settled_def all_less_small)
  then show ?thesis using mutex_no_lost_wakeup[of 2 _ 1] by auto
qed

text \<open>Deadlock freedom: while some task is inside the mutex, some such task can make a step.\<close>

theorem mutex_deadlock_free:
  assumes r: "reach mutex_code n mutex_start s" and t: "t < n" "ctl s t \<noteq> At Idle"
  shows "\<exists>u<n. ctl s u \<noteq> At Idle \<and> enabled mutex_code n s u"
proof (cases "settled n s (\<lambda>pc. pc = Idle)")
  case True
  with mutex_settled_idle[OF r] t show ?thesis by blast
next
  case False
  then obtain u where u: "u < n" "ctl s u \<noteq> At Idle" "\<And>pc. ctl s u \<noteq> Suspended pc"
    by (auto simp: settled_def)
  have "f (vars s) \<noteq> []" if "ctl s u = At pc" "mutex_code pc = Atomic f" for pc f
    using that mutex_not_aborted[OF r u(1)] by (cases pc) auto
  with progress[OF reach_wf[OF r] u(1,3)]
  obtain x where "x < n" "enabled mutex_code n s x" "x = u \<or> locks mutex_code (ctl s x) \<noteq> None"
    by blast
  with u(2) show ?thesis by (metis locks.simps(3))
qed

theorem mutex_deadlock_free_witness:
  "\<exists>s. reach mutex_code 2 mutex_start s \<and> (\<exists>pc. ctl s 1 = Suspended pc)
     \<and> (\<exists>u<2. ctl s u \<noteq> At Idle \<and> enabled mutex_code 2 s u)"
proof -
  have "\<exists>s. reach mutex_code 2 mutex_start s \<and> (\<exists>pc. ctl s 1 = Suspended pc)"
    by (rule run_witness[where sched = "[(0,1),(0,0),(1,1),(1,0),(1,0),(1,0),(1,0),(1,0)]"])
      (simp add: run_simps mutex_init_def mutex_try_lock_def compare_exchange_strong_def)
  then obtain s pc where "reach mutex_code 2 mutex_start s" "ctl s 1 = Suspended pc" by blast
  with mutex_deadlock_free[of 2 s 1] show ?thesis by auto
qed

end
