(* ===== verification/Shared_Mutex.thy ===== *)
theory Shared_Mutex
  imports Accounting
begin

text \<open>
  \<open>coopsync_tbb::shared_mutex\<close> (\<open>include/coopsync_tbb/shared_mutex.hpp\<close>,
  \<open>src/shared_mutex.cpp\<close>): an atomic int that counts readers, or holds \<open>k_writer_locked\<close>
  or \<open>k_transition\<close>, and two wait queues. Proved: writers exclude everybody, readers are
  counted, every assertion on the handoff path holds, readers are never left asleep.
  A writer can be left asleep: \<open>smx_writer_lost_wakeup\<close> replays the interleaving.
\<close>

section \<open>State and operations\<close>

record shared_mutex =
  smx_state :: int

definition smx_init :: shared_mutex where
  "smx_init = \<lparr>smx_state = 0\<rparr>"

definition k_transition :: int where "k_transition = -2"

definition k_writer_locked :: int where "k_writer_locked = -1"

datatype smx_queue = Writers | Readers

definition smx_try_lock :: "shared_mutex \<Rightarrow> bool \<times> shared_mutex" where
  "smx_try_lock m =
     (let r = compare_exchange_strong 0 k_writer_locked (smx_state m)
      in (fst r, m\<lparr>smx_state := snd r\<rparr>))"

text \<open>Who runs the loop of \<open>try_lock_shared\<close>: a direct call, or \<open>lock_shared\<close>.\<close>

datatype smx_caller = By_try | By_lock

datatype smx_pc =
    Idle
  | Try_lock | Lock | Lock_wait | Lock_assert | W_held
  | Unlock | Unlock_handoff | Unlock_store
  | Shared_load smx_caller | Shared_cas smx_caller int | Shared_wait | R_held
  | Unlock_shared | Us_loop int | Us_store | Us_handoff | Us_unlock
  | Wake_readers | Handed_off | Aborted

text \<open>The body of the loop of \<open>try_lock_shared\<close>, with the local \<open>state\<close> as argument.\<close>

definition smx_try_shared_step ::
  "smx_caller \<Rightarrow> int \<Rightarrow> shared_mutex \<Rightarrow> (shared_mutex \<times> smx_pc) list"
where
  "smx_try_shared_step c st m =
     (if 0 \<le> st
      then map (\<lambda>(ok, x). (m\<lparr>smx_state := x\<rparr>, if ok then R_held else Shared_cas c x))
             (compare_exchange_weak st (swrap 32 (st + 1)) (smx_state m))
      else [(m, case c of By_try \<Rightarrow> Idle | By_lock \<Rightarrow> Shared_wait)])"

text \<open>One round of the loop of \<open>unlock_shared\<close>.\<close>

definition smx_unlock_shared_step :: "int \<Rightarrow> shared_mutex \<Rightarrow> (shared_mutex \<times> smx_pc) list" where
  "smx_unlock_shared_step st m =
     (if \<not> 1 \<le> st then [(m, Aborted)]
      else if 1 < st
      then map (\<lambda>(ok, x). (m\<lparr>smx_state := x\<rparr>, if ok then Idle else Us_loop x))
             (compare_exchange_weak st (swrap 32 (st - 1)) (smx_state m))
      else map (\<lambda>(ok, x). (m\<lparr>smx_state := x\<rparr>, if ok then Us_store else Us_loop x))
             (compare_exchange_weak st k_transition (smx_state m)))"

fun smx_code :: "smx_pc \<Rightarrow> (shared_mutex, smx_queue, smx_pc) instr" where
  "smx_code Idle = Goto [Try_lock, Lock, Shared_load By_try, Shared_load By_lock]"
| "smx_code Try_lock = Do (\<lambda>m. let r = smx_try_lock m in (snd r, if fst r then W_held else Idle))"
| "smx_code Lock = Do (\<lambda>m. let r = smx_try_lock m in (snd r, if fst r then W_held else Lock_wait))"
| "smx_code Lock_wait =
     Wait_if Writers (\<lambda>m. let r = smx_try_lock m in (snd r, \<not> fst r)) Lock_assert"
| "smx_code Lock_assert =
     Do (\<lambda>m. (m, if smx_state m = k_writer_locked then W_held else Aborted))"
| "smx_code W_held = Goto [Unlock]"
| "smx_code Unlock =
     Do (\<lambda>m. (m, if smx_state m = k_writer_locked then Unlock_handoff else Aborted))"
| "smx_code Unlock_handoff = Resume_one Writers (\<lambda>b. if b then Handed_off else Unlock_store)"
| "smx_code Unlock_store = Do (\<lambda>m. (m\<lparr>smx_state := 0\<rparr>, Wake_readers))"
| "smx_code (Shared_load c) = Do (\<lambda>m. (m, Shared_cas c (smx_state m)))"
| "smx_code (Shared_cas c st) = Atomic (smx_try_shared_step c st)"
| "smx_code Shared_wait = Wait_if Readers (\<lambda>m. (m, smx_state m < 0)) (Shared_load By_lock)"
| "smx_code R_held = Goto [Unlock_shared]"
| "smx_code Unlock_shared = Do (\<lambda>m. (m, Us_loop (smx_state m)))"
| "smx_code (Us_loop st) = Atomic (smx_unlock_shared_step st)"
| "smx_code Us_store = Do (\<lambda>m. (m\<lparr>smx_state := k_writer_locked\<rparr>, Us_handoff))"
| "smx_code Us_handoff = Resume_one Writers (\<lambda>b. if b then Handed_off else Us_unlock)"
| "smx_code Us_unlock = Do (\<lambda>m. (m\<lparr>smx_state := 0\<rparr>, Wake_readers))"
| "smx_code Wake_readers = Resume_all Readers Idle"
| "smx_code Handed_off = Goto [Idle]"
| "smx_code Aborted = Halt"

fun_cases smx_code_cases:
  "smx_code pc = Atomic f" "smx_code pc = Wait_if q pred k"
  "smx_code pc = Resume_one q k'" "smx_code pc = Resume_n q m k" "smx_code pc = Resume_all q k"

abbreviation smx_start :: "(shared_mutex, smx_queue, smx_pc) sys" where
  "smx_start \<equiv> init_sys smx_init Idle"

section \<open>Ownership\<close>

text \<open>
  The exclusive owner. Ownership is handed over through the queue: between \<open>resume_one\<close>
  and the resumption of the writer it travels with the popped waiter. \<open>Us_store\<close> is the
  last reader inside the transition state.
\<close>

fun writer :: "smx_pc control \<Rightarrow> int" where
  "writer (At Lock_assert) = 1"
| "writer (At W_held) = 1"
| "writer (At Unlock) = 1"
| "writer (At Unlock_handoff) = 1"
| "writer (At Unlock_store) = 1"
| "writer (At Us_handoff) = 1"
| "writer (At Us_unlock) = 1"
| "writer (Self_resume Lock_wait) = 1"
| "writer (Resuming ws Handed_off) = int (length ws)"
| "writer _ = 0"

fun transit :: "smx_pc control \<Rightarrow> int" where
  "transit (At Us_store) = 1"
| "transit _ = 0"

fun reader :: "smx_pc control \<Rightarrow> int" where
  "reader (At R_held) = 1"
| "reader (At Unlock_shared) = 1"
| "reader (At (Us_loop st)) = 1"
| "reader _ = 0"

fun stale :: "smx_pc control \<Rightarrow> int" where
  "stale (At (Us_loop st)) = of_bool (st < 1)"
| "stale (At Aborted) = 1"
| "stale _ = 0"

lemma smx_weights_nonneg: "0 \<le> writer c" "0 \<le> transit c" "0 \<le> reader c" "0 \<le> stale c"
  subgoal by (cases c rule: writer.cases) simp_all
  subgoal by (cases c rule: transit.cases) simp_all
  subgoal by (cases c rule: reader.cases) simp_all
  subgoal by (cases c rule: stale.cases) simp_all
  done

datatype smx_account = Exclusive | Transitions | Shared | Failures | Below

fun smx_weight :: "smx_account \<Rightarrow> smx_pc control \<Rightarrow> int" where
  "smx_weight Exclusive = writer"
| "smx_weight Transitions = transit"
| "smx_weight Shared = reader"
| "smx_weight Failures = stale"
| "smx_weight Below = (\<lambda>_. 0)"

fun smx_balance :: "smx_account \<Rightarrow> shared_mutex \<Rightarrow> int" where
  "smx_balance Exclusive m = of_bool (smx_state m = k_writer_locked)"
| "smx_balance Transitions m = of_bool (smx_state m = k_transition)"
| "smx_balance Shared m = max 0 (smx_state m)"
| "smx_balance Failures m = 0"
| "smx_balance Below m = - of_bool (smx_state m < k_transition)"

lemma smx_accounts: "(\<forall>i. P i) \<longleftrightarrow> P Exclusive \<and> P Transitions \<and> P Shared \<and> P Failures \<and> P Below"
  using smx_account.exhaust by metis

lemma reader_le_1: "reader c \<le> 1"
  by (cases c rule: reader.cases) simp_all

lemma smx_continues:
  "continues smx_code q k \<longleftrightarrow> (q = Writers \<and> k = Handed_off) \<or> (q = Readers \<and> k = Idle)"
proof
  assume "(q = Writers \<and> k = Handed_off) \<or> (q = Readers \<and> k = Idle)"
  moreover have "continues smx_code Writers Handed_off"
    unfolding continues_def by (intro exI[of _ Unlock_handoff]) simp
  moreover have "continues smx_code Readers Idle"
    unfolding continues_def by (intro exI[of _ Wake_readers]) simp
  ultimately show "continues smx_code q k" by blast
qed (auto simp: continues_def elim!: smx_code_cases)

text \<open>The outcomes of the atomic operations, written out.\<close>

lemma smx_try_lock_iff:
  "smx_try_lock m = (if smx_state m = 0 then (True, m\<lparr>smx_state := -1\<rparr>) else (False, m))"
  by (simp add: smx_try_lock_def compare_exchange_strong_def k_writer_locked_def)

lemma smx_try_shared_step_iff:
  "(v, pc') \<in> set (smx_try_shared_step c st m) \<longleftrightarrow>
     (0 \<le> st \<and> st = smx_state m \<and> v = m\<lparr>smx_state := swrap 32 (st + 1)\<rparr> \<and> pc' = R_held)
     \<or> (0 \<le> st \<and> v = m \<and> pc' = Shared_cas c (smx_state m))
     \<or> (st < 0 \<and> v = m \<and> pc' = (case c of By_try \<Rightarrow> Idle | By_lock \<Rightarrow> Shared_wait))"
  by (auto simp: smx_try_shared_step_def compare_exchange_weak_def)

lemma smx_unlock_shared_step_iff:
  "(v, pc') \<in> set (smx_unlock_shared_step st m) \<longleftrightarrow>
     (st < 1 \<and> v = m \<and> pc' = Aborted)
     \<or> (1 < st \<and> st = smx_state m \<and> v = m\<lparr>smx_state := swrap 32 (st - 1)\<rparr> \<and> pc' = Idle)
     \<or> (st = 1 \<and> smx_state m = 1 \<and> v = m\<lparr>smx_state := -2\<rparr> \<and> pc' = Us_store)
     \<or> (1 \<le> st \<and> v = m \<and> pc' = Us_loop (smx_state m))"
  by (auto simp: smx_unlock_shared_step_def compare_exchange_weak_def k_transition_def)

lemmas smx_atomic = smx_try_lock_iff smx_try_shared_step_iff smx_unlock_shared_step_iff
  k_writer_locked_def

interpretation smx: accounting smx_code "\<lambda>n. int n \<le> smax 32" smx_init Idle
  smx_weight smx_balance
proof unfold_locales
  show "0 \<le> smx_weight i c" for i c
    by (cases i) (simp_all add: smx_weights_nonneg)
  show "smx_weight i (At Idle) = 0" "smx_balance i smx_init = 0" for i
    by (cases i; simp add: smx_init_def k_writer_locked_def k_transition_def)+
  show "smx_weight i (Resuming (w # ws) k) + smx_weight i (Suspended pc)
      = smx_weight i (Resuming ws k) + smx_weight i (At k')"
    if "smx_code pc = Wait_if q pred k'" "continues smx_code q k" for pc q pred k' k i w ws
    using that by (cases i) (auto simp: smx_continues elim!: smx_code_cases)
  show "smx_balance i v' - smx_balance i v = smx_weight i c' - smx_weight i c"
    if n: "int n \<le> smax 32" and m: "moves pc (smx_code pc) v c v' c'"
      and f: "fits smx_weight smx_balance n v c"
    for n pc v c v' c' i
  proof -
    have f': "writer c \<le> of_bool (smx_state v = -1)" "transit c \<le> of_bool (smx_state v = -2)"
      "reader c \<le> max 0 (smx_state v)" "stale c \<le> 0" "\<not> smx_state v < -2"
      "max 0 (smx_state v) + 1 \<le> int n + reader c"
      using f reader_le_1 by (auto simp: fits_def smx_accounts k_writer_locked_def k_transition_def)
    have up: "0 \<le> smx_state v \<Longrightarrow> reader c = 0 \<Longrightarrow> swrap 32 (smx_state v + 1) = smx_state v + 1"
      using f'(6) n by (intro swrap_nonneg) auto
    have down: "1 < smx_state v \<Longrightarrow> reader c \<le> 1 \<Longrightarrow> swrap 32 (smx_state v - 1) = smx_state v - 1"
      using f'(6) n by (intro swrap_nonneg) auto
    show ?thesis using m f' up down
      by (cases pc; cases i) (auto simp: smx_atomic k_transition_def split: if_splits smx_caller.splits)
  qed
qed

section \<open>Waking the readers\<close>

fun reader_waker :: "smx_pc control \<Rightarrow> int" where
  "reader_waker (At Wake_readers) = 1"
| "reader_waker _ = 0"

interpretation smx_readers: wakeups smx_code smx_init Idle Readers "\<lambda>m. of_bool (0 \<le> smx_state m)"
  reader_waker "\<lambda>_ _ _. True"
proof unfold_locales
  show "0 \<le> reader_waker c" for c by (cases c rule: reader_waker.cases) simp_all
  show "of_bool (0 \<le> smx_state v') \<le> (0::int)"
    if "smx_code pc = Wait_if Readers pred k" "pred v = (v', True)" for pc pred k v v'
    using that by (auto elim!: smx_code_cases)
  show "of_bool (0 \<le> smx_state v') \<le> (0::int)
      \<or> of_bool (0 \<le> smx_state v') - of_bool (0 \<le> smx_state v) \<le> reader_waker c' - reader_waker c"
    if "moves pc (smx_code pc) v c v' c'" "\<not> drains Readers (smx_code pc) c c'" for pc v c v' c'
    using that by (cases pc) (auto simp: smx_atomic split: if_splits smx_caller.splits)
  show "reader_waker (Resuming (x # ws) k) + reader_waker (Suspended pc)
      \<le> reader_waker (Resuming ws k) + reader_waker (At k')"
    if "smx_code pc = Wait_if q' pred k'" for pc q' pred k' k x ws
    using that by (auto elim!: smx_code_cases)
qed simp

lemma smx_not_aborted:
  "reach smx_code n smx_start s \<Longrightarrow> int n \<le> smax 32 \<Longrightarrow> t < n \<Longrightarrow> ctl s t \<noteq> At Aborted"
  using smx.reach_never[of n s t Failures "At Aborted"] by simp

lemma smx_range:
  assumes "reach smx_code n smx_start s" "int n \<le> smax 32"
  shows "k_transition \<le> smx_state (vars s)"
proof -
  have "total (\<lambda>_. 0) n (ctl s) = 0" by (simp add: total_def)
  with smx.accounts_exact[OF assms, of Below] show ?thesis by (simp split: if_splits)
qed

lemma smx_wait_queue_of:
  "wait_queue_of (smx_code pc) = Some Readers \<longleftrightarrow> pc = Shared_wait"
  "wait_queue_of (smx_code pc) = Some Writers \<longleftrightarrow> pc = Lock_wait"
  by (cases pc; simp)+

section \<open>Properties\<close>

text \<open>C6. Exclusion: while one task owns the lock exclusively (from its acquisition, over the
  handoff through the queue, to its \<open>unlock\<close>), no other task owns it in either mode.\<close>

theorem smx_exclusion:
  assumes "reach smx_code n smx_start s" "int n \<le> smax 32" "t < n" "u < n" "t \<noteq> u"
    and "writer (ctl s t) \<noteq> 0"
  shows "writer (ctl s u) = 0 \<and> reader (ctl s u) = 0"
proof -
  note pos = smx_weights_nonneg(1)[of "ctl s t"] smx_weights_nonneg(1)[of "ctl s u"]
    smx_weights_nonneg(3)[of "ctl s u"]
  from smx.reach_pair[OF assms(1-5), of Exclusive] assms(6) pos
  have "writer (ctl s u) = 0" "smx_state (vars s) = k_writer_locked"
    by (auto simp: of_bool_def split: if_splits)
  moreover have "reader (ctl s u) \<le> max 0 (smx_state (vars s))"
    using smx.reach_fits[OF assms(1,2,4)] by (auto simp: fits_def smx_accounts)
  ultimately show ?thesis using pos by (simp add: k_writer_locked_def)
qed

text \<open>Task 0 has handed the lock over to task 1, which has not run yet; task 2 is about to try.\<close>

theorem smx_exclusion_witness:
  "\<exists>s. reach smx_code 3 smx_start s \<and> writer (ctl s 1) = 1 \<and> ctl s 0 = At Handed_off
     \<and> writer (ctl s 0) = 0 \<and> reader (ctl s 2) = 0"
proof -
  have "\<exists>s. reach smx_code 3 smx_start s \<and> (writer (ctl s 1) = 1 \<and> ctl s 0 = At Handed_off)"
    by (rule run_witness[where sched = "[(0,1),(0,0),(1,1),(1,0),(1,0),(1,0),(1,0),(1,0),
        (0,0),(0,0),(0,0),(0,0),(0,0),(2,3)]"])
      (simp add: run_simps smx_init_def smx_atomic)
  then obtain s where "reach smx_code 3 smx_start s" "writer (ctl s 1) = 1" "ctl s 0 = At Handed_off"
    by blast
  with smx_exclusion[of 3 s 1 0] smx_exclusion[of 3 s 1 2] show ?thesis
    by (auto simp: smax_values)
qed

text \<open>C9. The reader count is exact and never wraps: outside the two negative marker values the
  atomic is the number of tasks that hold the lock in shared mode, and it stays between
  \<open>k_transition\<close> and the number of tasks.\<close>

theorem smx_reader_count:
  assumes "reach smx_code n smx_start s" "int n \<le> smax 32"
  shows "k_transition \<le> smx_state (vars s) \<and> smx_state (vars s) \<le> int n
     \<and> total reader n (ctl s) = max 0 (smx_state (vars s))"
  using smx_range[OF assms] smx.accounts_exact[OF assms, of Shared]
    total_le_bound[of reader n "ctl s", OF reader_le_1]
  by auto

text \<open>Two readers hold the lock, a third task failed a spurious exchange.\<close>

theorem smx_reader_count_witness:
  "\<exists>s. reach smx_code 3 smx_start s \<and> smx_state (vars s) = 2 \<and> total reader 3 (ctl s) = 2
     \<and> ctl s 2 = At (Shared_cas By_try 2)"
proof -
  have "\<exists>s. reach smx_code 3 smx_start s \<and> (smx_state (vars s) = 2 \<and> ctl s 2 = At (Shared_cas By_try 2))"
    by (rule run_witness[where sched = "[(0,2),(0,0),(0,0),(1,3),(1,0),(1,0),(2,2),(2,0),(2,1)]"])
      (simp add: run_simps smx_init_def smx_try_shared_step_def compare_exchange_weak_def swrap_def)
  with smx_reader_count[of 3] show ?thesis by (force simp: smax_values)
qed

text \<open>No assertion fails: \<open>unlock\<close> and \<open>unlock_shared\<close> find the state they expect, and a writer
  that returns from its wait finds the lock already taken on its behalf.\<close>

theorem smx_assertions:
  assumes "reach smx_code n smx_start s" "int n \<le> smax 32" "t < n"
  shows "ctl s t \<noteq> At Aborted
     \<and> (ctl s t \<in> {At Lock_assert, At Unlock} \<longrightarrow> smx_state (vars s) = k_writer_locked)
     \<and> (\<forall>st. ctl s t = At (Us_loop st) \<longrightarrow> 1 \<le> st)"
proof -
  note F = smx.reach_fits[OF assms]
  have "writer (ctl s t) \<le> smx_balance Exclusive (vars s)" "stale (ctl s t) \<le> 0"
    using F by (auto simp: fits_def smx_accounts)
  then show ?thesis using smx_not_aborted[OF assms] by (auto simp: of_bool_def split: if_splits)
qed

theorem smx_assertions_witness:
  "\<exists>s. reach smx_code 2 smx_start s \<and> ctl s 1 = At Lock_assert \<and> smx_state (vars s) = k_writer_locked"
proof -
  have "\<exists>s. reach smx_code 2 smx_start s \<and> ctl s 1 = At Lock_assert"
    by (rule run_witness[where sched = "[(0,1),(0,0),(1,1),(1,0),(1,0),(1,0),(1,0),(1,0),
        (0,0),(0,0),(0,0),(0,0)]"])
      (simp add: run_simps smx_init_def smx_atomic)
  with smx_assertions[of 2 _ 1] show ?thesis by (force simp: smax_values)
qed

text \<open>C10. Readers are never left asleep: once everybody is outside, holds the lock or sleeps, and
  no writer holds it, no task is asleep in \<open>lock_shared\<close>.\<close>

theorem smx_readers_not_lost:
  assumes "reach smx_code n smx_start s" "int n \<le> smax 32"
    and "settled n s (\<lambda>pc. pc \<in> {Idle, R_held, W_held})" "\<forall>t<n. ctl s t \<noteq> At W_held" "u < n"
  shows "ctl s u \<noteq> Suspended Shared_wait"
proof
  assume a: "ctl s u = Suspended Shared_wait"
  have "writer (ctl s t) = 0 \<and> transit (ctl s t) = 0" if "t < n" for t
    using that by (rule settledD[OF assms(3)]) (use assms(4) that in auto)
  then have "total writer n (ctl s) = 0" "total transit n (ctl s) = 0"
    by (auto intro: total_eq_0)
  with smx.accounts_exact[OF assms(1,2), of Exclusive] smx.accounts_exact[OF assms(1,2), of Transitions]
    smx_range[OF assms(1,2)]
  have "0 \<le> smx_state (vars s)"
    by (auto simp: k_writer_locked_def k_transition_def of_bool_def split: if_splits)
  moreover have "reader_waker (At pc) = 0" if "pc \<in> {Idle, R_held, W_held}" for pc
    using that by auto
  ultimately show False
    using smx_readers.nobody_left(2)[OF assms(1,3) _ _ _ a] by (simp add: smx_wait_queue_of)
qed

theorem smx_readers_not_lost_witness:
  "\<exists>s. reach smx_code 2 smx_start s \<and> ctl s 1 = At R_held \<and> ctl s 1 \<noteq> Suspended Shared_wait"
proof -
  have "\<exists>s. reach smx_code 2 smx_start s \<and> (settled 2 s (\<lambda>pc. pc \<in> {Idle, R_held, W_held})
      \<and> (\<forall>t<2. ctl s t \<noteq> At W_held) \<and> ctl s 1 = At R_held)"
    by (rule run_witness[where sched = "[(0,1),(0,0),(1,3),(1,0),(1,0),(1,0),(1,0),(1,0),(1,0),
        (0,0),(0,0),(0,0),(0,0),(0,0),(0,0),(0,0),(1,0),(1,0)]"])
      (simp add: run_simps smx_init_def smx_atomic smx_try_shared_step_def compare_exchange_weak_def
        swrap_def settled_def all_less_small)
  with smx_readers_not_lost[of 2 _ 1] show ?thesis by (force simp: smax_values)
qed

text \<open>C11. A writer can be left asleep for good. \<open>unlock\<close> finds no waiting writer; before its store
  of 0 another writer fails \<open>try_lock\<close>, re-evaluates it inside \<open>wait_if\<close>, and sleeps; the store
  wakes readers only. Nobody is left to wake the writer although the lock is free.\<close>

theorem smx_writer_lost_wakeup:
  "\<exists>s. reach smx_code 2 smx_start s \<and> settled 2 s (\<lambda>pc. pc = Idle)
     \<and> smx_state (vars s) = 0 \<and> ctl s 1 = Suspended Lock_wait"
  by (rule run_witness[where sched = "[(0,1),(0,0),(0,0),(0,0),(0,0),
      (1,1),(1,0),(1,0),(1,0),(1,0),(1,0),(0,0),(0,0),(0,0)]"])
    (simp add: run_simps smx_init_def smx_atomic settled_def all_less_small)

end
