(* ===== verification/Intrusive_List.thy ===== *)
theory Intrusive_List
  imports Prelude
begin

text \<open>
  \<open>detail::intrusive_list\<close> (\<open>include/coopsync_tbb/detail/intrusive_list.hpp\<close>): a singly
  linked list of nodes that live elsewhere, with head and tail pointers. Nodes are cells of
  an explicit heap; reading or writing through a pointer to a cell that is not
  there is the error \<open>Dangling\<close>, a failed \<open>assert\<close> the error \<open>Assertion\<close>. The list refines
  a HOL list of node addresses; the contract its client \<open>wait_queue\<close> uses is the locale
  \<open>fifo\<close>, interpreted here on the model of the code.
\<close>

section \<open>Nodes, heaps, errors\<close>

type_synonym addr = nat

record 'a node =
  node_value :: 'a
  node_next :: "addr option"

type_synonym 'a heap = "addr \<Rightarrow> 'a node option"

datatype fault = Dangling addr | Assertion string

record intrusive_list =
  m_head :: "addr option"
  m_tail :: "addr option"

definition new_node :: "'a \<Rightarrow> 'a node" where
  "new_node v = \<lparr>node_value = v, node_next = None\<rparr>"

definition deref :: "'a heap \<Rightarrow> addr \<Rightarrow> fault + 'a node" where
  "deref h a = (case h a of None \<Rightarrow> Inl (Dangling a) | Some nd \<Rightarrow> Inr nd)"

text \<open>The assignment \<open>a->next = p\<close>.\<close>

definition set_next :: "addr \<Rightarrow> addr option \<Rightarrow> 'a heap \<Rightarrow> fault + 'a heap" where
  "set_next a p h = and_then (deref h a) (\<lambda>nd. Inr (h(a \<mapsto> nd\<lparr>node_next := p\<rparr>)))"

section \<open>Operations\<close>

definition il_empty :: intrusive_list where
  "il_empty = \<lparr>m_head = None, m_tail = None\<rparr>"

definition assert_invariants :: "'a heap \<Rightarrow> intrusive_list \<Rightarrow> fault + unit" where
  "assert_invariants h l =
     and_then (require ((m_head l = None) = (m_tail l = None)) (Assertion ''head and tail''))
       (\<lambda>_. case m_tail l of
           None \<Rightarrow> Inr ()
         | Some a \<Rightarrow> and_then (deref h a)
             (\<lambda>nd. require (node_next nd = None) (Assertion ''tail->next'')))"

definition push_back :: "addr \<Rightarrow> 'a heap \<Rightarrow> intrusive_list \<Rightarrow> fault + 'a heap \<times> intrusive_list" where
  "push_back a h l =
     and_then (assert_invariants h l) (\<lambda>_.
     and_then (deref h a) (\<lambda>nd.
     and_then (require (node_next nd = None) (Assertion ''node.next'')) (\<lambda>_.
     and_then (case m_tail l of
                 Some t \<Rightarrow> and_then (set_next t (Some a) h) (\<lambda>h'. Inr (h', l))
               | None \<Rightarrow> Inr (h, l\<lparr>m_head := Some a\<rparr>)) (\<lambda>(h', l').
     let l'' = l'\<lparr>m_tail := Some a\<rparr> in
     and_then (assert_invariants h' l'') (\<lambda>_. Inr (h', l''))))))"

definition pop_front :: "'a heap \<Rightarrow> intrusive_list \<Rightarrow> fault + 'a heap \<times> intrusive_list \<times> addr option" where
  "pop_front h l =
     and_then (assert_invariants h l) (\<lambda>_.
     case m_head l of
       None \<Rightarrow> Inr (h, l, None)
     | Some a \<Rightarrow>
         and_then (deref h a) (\<lambda>nd.
         let l1 = l\<lparr>m_head := node_next nd\<rparr>;
             l2 = (if m_head l1 = None then l1\<lparr>m_tail := None\<rparr> else l1) in
         and_then (set_next a None h) (\<lambda>h'.
         and_then (assert_invariants h' l2) (\<lambda>_. Inr (h', l2, Some a)))))"

definition il_is_empty :: "'a heap \<Rightarrow> intrusive_list \<Rightarrow> fault + bool" where
  "il_is_empty h l = and_then (assert_invariants h l) (\<lambda>_. Inr (m_head l = None))"

text \<open>\<open>swap\<close>: the pair of lists afterwards. The move constructor returns the new list and what
  is left in the source.\<close>

definition il_swap :: "intrusive_list \<Rightarrow> intrusive_list \<Rightarrow> intrusive_list \<times> intrusive_list" where
  "il_swap l r = (l\<lparr>m_head := m_head r, m_tail := m_tail r\<rparr>, r\<lparr>m_head := m_head l, m_tail := m_tail l\<rparr>)"

definition il_move :: "'a heap \<Rightarrow> intrusive_list \<Rightarrow> fault + intrusive_list \<times> intrusive_list" where
  "il_move h other =
     (let new = \<lparr>m_head = m_head other, m_tail = m_tail other\<rparr> in
      and_then (assert_invariants h new) (\<lambda>_.
      Inr (new, other\<lparr>m_head := None, m_tail := None\<rparr>)))"

section \<open>Chains of nodes\<close>

fun chain :: "'a heap \<Rightarrow> addr option \<Rightarrow> addr list \<Rightarrow> bool" where
  "chain h p [] \<longleftrightarrow> p = None"
| "chain h p (a # as) \<longleftrightarrow> p = Some a \<and> (\<exists>nd. h a = Some nd \<and> chain h (node_next nd) as)"

lemma chain_frame: "(\<And>a. a \<in> set as \<Longrightarrow> h' a = h a) \<Longrightarrow> chain h' p as \<longleftrightarrow> chain h p as"
  by (induction as arbitrary: p) auto

lemma chain_None: "chain h None as \<longleftrightarrow> as = []"
  by (cases as) auto

lemma chain_unique: "chain h p as \<Longrightarrow> chain h p bs \<Longrightarrow> as = bs"
proof (induction as arbitrary: p bs)
  case Nil
  then show ?case by (simp add: chain_None)
next
  case (Cons a as)
  then show ?case by (cases bs) auto
qed

lemma chain_suffix: "chain h p (as @ a # bs) \<Longrightarrow> chain h (Some a) (a # bs)"
  by (induction as arbitrary: p) auto

lemma chain_distinct: "chain h p as \<Longrightarrow> distinct as"
proof (induction as arbitrary: p)
  case (Cons a as)
  have "a \<notin> set as"
  proof
    assume "a \<in> set as"
    then obtain us vs where as: "as = us @ a # vs" by (auto dest: split_list)
    from Cons.prems have "chain h (Some a) (a # as)" by auto
    moreover from Cons.prems as have "chain h (Some a) (a # vs)"
      using chain_suffix[of h p "a # us" a vs] by simp
    ultimately have "a # as = a # vs" by (rule chain_unique)
    with as show False by simp
  qed
  with Cons show ?case by auto
qed simp

lemma chain_alloc: "chain h p as \<Longrightarrow> a \<in> set as \<Longrightarrow> \<exists>nd. h a = Some nd"
  by (induction as arbitrary: p) auto

lemma chain_last: "chain h p as \<Longrightarrow> as \<noteq> [] \<Longrightarrow> \<exists>nd. h (last as) = Some nd \<and> node_next nd = None"
  by (induction as arbitrary: p) (auto simp: chain_None)

lemma chain_head: "chain h p as \<Longrightarrow> p = (if as = [] then None else Some (hd as))"
  by (cases as) auto

lemma chain_snoc:
  assumes "chain h p as" "as \<noteq> []" "a \<notin> set as" "h a = Some na" "node_next na = None"
    and "h (last as) = Some nl"
  shows "chain (h(last as \<mapsto> nl\<lparr>node_next := Some a\<rparr>)) p (as @ [a])"
  using assms
proof (induction as arbitrary: p)
  case (Cons b bs)
  show ?case
  proof (cases "bs = []")
    case True
    with Cons.prems show ?thesis by auto
  next
    case False
    from chain_distinct[OF Cons.prems(1)] False have "b \<noteq> last bs" by auto
    with Cons False show ?thesis by auto
  qed
qed simp

section \<open>The refinement relation\<close>

definition represents :: "'a heap \<Rightarrow> intrusive_list \<Rightarrow> addr list \<Rightarrow> bool" where
  "represents h l as \<longleftrightarrow> chain h (m_head l) as
     \<and> m_tail l = (if as = [] then None else Some (last as))"

definition detached :: "'a heap \<Rightarrow> addr \<Rightarrow> bool" where
  "detached h a \<longleftrightarrow> (\<exists>nd. h a = Some nd \<and> node_next nd = None)"

definition same_values :: "'a heap \<Rightarrow> 'a heap \<Rightarrow> bool" where
  "same_values h h' \<longleftrightarrow> (\<forall>a. map_option node_value (h' a) = map_option node_value (h a))"

lemma same_values_refl: "same_values h h"
  and same_values_trans: "same_values h h1 \<Longrightarrow> same_values h1 h2 \<Longrightarrow> same_values h h2"
  by (simp_all add: same_values_def)

lemma represents_frame:
  "represents h l as \<Longrightarrow> (\<And>a. a \<in> set as \<Longrightarrow> h' a = h a) \<Longrightarrow> represents h' l as"
  unfolding represents_def using chain_frame[of as h' h] by auto

lemma represents_distinct: "represents h l as \<Longrightarrow> distinct as"
  by (auto simp: represents_def dest: chain_distinct)

lemma represents_alloc: "represents h l as \<Longrightarrow> a \<in> set as \<Longrightarrow> h a \<noteq> None"
  by (auto simp: represents_def dest: chain_alloc)

lemma represents_unique: "represents h l as \<Longrightarrow> represents h l bs \<Longrightarrow> as = bs"
  by (auto simp: represents_def intro: chain_unique)

lemma represents_empty: "represents h il_empty []"
  by (simp add: represents_def il_empty_def)

lemma assert_invariants_ok:
  assumes "represents h l as"
  shows "assert_invariants h l = Inr ()"
proof (cases "as = []")
  case True
  with assms show ?thesis by (simp add: represents_def assert_invariants_def)
next
  case False
  with assms have c: "chain h (m_head l) as" and "m_tail l = Some (last as)"
    by (simp_all add: represents_def)
  moreover from chain_last[OF c False] obtain nd where "h (last as) = Some nd" "node_next nd = None"
    by blast
  moreover from chain_head[OF c] False have "m_head l \<noteq> None" by simp
  ultimately show ?thesis by (simp add: assert_invariants_def deref_def)
qed

lemma push_back_spec:
  assumes r: "represents h l as" and a: "detached h a" "a \<notin> set as"
  shows "\<exists>h' l'. push_back a h l = Inr (h', l') \<and> represents h' l' (as @ [a])
    \<and> same_values h h' \<and> (\<forall>b. b \<notin> set as \<longrightarrow> h' b = h b)"
proof -
  from a obtain na where na: "h a = Some na" "node_next na = None" by (auto simp: detached_def)
  show ?thesis
  proof (cases "as = []")
    case True
    let ?l = "l\<lparr>m_head := Some a, m_tail := Some a\<rparr>"
    have r': "represents h ?l [a]" using na by (simp add: represents_def)
    from r True have "m_tail l = None" by (simp add: represents_def)
    then have "push_back a h l = Inr (h, ?l)"
      using assert_invariants_ok[OF r] assert_invariants_ok[OF r'] na
      by (simp add: push_back_def deref_def)
    with r' True show ?thesis by (auto simp: same_values_refl)
  next
    case False
    with r obtain nl where nl: "h (last as) = Some nl" "m_tail l = Some (last as)"
      by (auto simp: represents_def dest: chain_last)
    let ?h = "h(last as \<mapsto> nl\<lparr>node_next := Some a\<rparr>)" and ?l = "l\<lparr>m_tail := Some a\<rparr>"
    have r': "represents ?h ?l (as @ [a])"
      using chain_snoc[of h "m_head l" as a na nl] r False a(2) na nl
      by (simp add: represents_def)
    have "push_back a h l = Inr (?h, ?l)"
      using assert_invariants_ok[OF r] assert_invariants_ok[OF r'] na nl
      by (simp add: push_back_def deref_def set_next_def)
    moreover have "same_values h ?h" using nl by (simp add: same_values_def)
    ultimately show ?thesis using r' False by auto
  qed
qed

lemma pop_front_nil: "represents h l [] \<Longrightarrow> pop_front h l = Inr (h, l, None)"
  by (simp add: pop_front_def assert_invariants_ok) (simp add: represents_def)

lemma pop_front_cons:
  assumes r: "represents h l (a # as)"
  shows "\<exists>h' l'. pop_front h l = Inr (h', l', Some a) \<and> represents h' l' as \<and> detached h' a
    \<and> same_values h h' \<and> (\<forall>b. b \<noteq> a \<longrightarrow> h' b = h b)"
proof -
  from r obtain nd where nd: "m_head l = Some a" "h a = Some nd" "chain h (node_next nd) as"
    and tl: "m_tail l = Some (last (a # as))"
    by (auto simp: represents_def)
  let ?h = "h(a \<mapsto> nd\<lparr>node_next := None\<rparr>)"
  let ?l = "\<lparr>m_head = node_next nd, m_tail = (if node_next nd = None then None else m_tail l)\<rparr>"
  from represents_distinct[OF r] have "a \<notin> set as" by simp
  then have c: "chain ?h (node_next nd) as"
    using nd(3) by (subst chain_frame[of as _ h]) auto
  have r': "represents ?h ?l as"
    using c tl chain_head[OF nd(3)] by (auto simp: represents_def)
  have "pop_front h l = Inr (?h, ?l, Some a)"
    using assert_invariants_ok[OF r] assert_invariants_ok[OF r'] nd
    by (cases l) (auto simp: pop_front_def deref_def set_next_def Let_def)
  then show ?thesis using r' nd by (auto simp: detached_def same_values_def)
qed

lemma il_is_empty_spec: "represents h l as \<Longrightarrow> il_is_empty h l = Inr (as = [])"
  by (auto simp: il_is_empty_def assert_invariants_ok)
    (auto simp: represents_def chain_None dest: chain_head)

lemma il_swap_spec:
  "represents h l as \<Longrightarrow> represents h r bs \<Longrightarrow> il_swap l r = (l', r')
    \<Longrightarrow> represents h l' bs \<and> represents h r' as"
  by (auto simp: il_swap_def represents_def)

lemma il_move_spec:
  assumes "represents h l as"
  shows "\<exists>new old. il_move h l = Inr (new, old) \<and> represents h new as \<and> represents h old []"
proof -
  have "represents h \<lparr>m_head = m_head l, m_tail = m_tail l\<rparr> as"
    using assms by (simp add: represents_def)
  from assert_invariants_ok[OF this] this show ?thesis
    by (auto simp: il_move_def represents_def)
qed

section \<open>The contract\<close>

text \<open>
  What \<open>wait_queue\<close> relies on: first in, first out; pushing needs a node that is in no list;
  popping detaches the node and writes to no other node, so lists over other nodes
  are untouched.
\<close>

locale fifo =
  fixes nil :: 'l
    and push :: "addr \<Rightarrow> 'a heap \<Rightarrow> 'l \<Rightarrow> fault + 'a heap \<times> 'l"
    and pop :: "'a heap \<Rightarrow> 'l \<Rightarrow> fault + 'a heap \<times> 'l \<times> addr option"
    and rep :: "'a heap \<Rightarrow> 'l \<Rightarrow> addr list \<Rightarrow> bool"
  assumes rep_nil: "rep h nil []"
    and rep_frame: "rep h l as \<Longrightarrow> (\<And>a. a \<in> set as \<Longrightarrow> h' a = h a) \<Longrightarrow> rep h' l as"
    and rep_distinct: "rep h l as \<Longrightarrow> distinct as"
    and rep_alloc: "rep h l as \<Longrightarrow> a \<in> set as \<Longrightarrow> h a \<noteq> None"
    and push_ok: "rep h l as \<Longrightarrow> detached h a \<Longrightarrow> a \<notin> set as
      \<Longrightarrow> \<exists>h' l'. push a h l = Inr (h', l') \<and> rep h' l' (as @ [a])
        \<and> same_values h h' \<and> (\<forall>b. b \<notin> set as \<longrightarrow> h' b = h b)"
    and pop_nil: "rep h l [] \<Longrightarrow> pop h l = Inr (h, l, None)"
    and pop_cons: "rep h l (a # as)
      \<Longrightarrow> \<exists>h' l'. pop h l = Inr (h', l', Some a) \<and> rep h' l' as \<and> detached h' a
        \<and> same_values h h' \<and> (\<forall>b. b \<noteq> a \<longrightarrow> h' b = h b)"

interpretation il: fifo il_empty push_back pop_front represents
proof unfold_locales
  show "represents h l as \<Longrightarrow> (\<And>a. a \<in> set as \<Longrightarrow> h' a = h a) \<Longrightarrow> represents h' l as"
    for h h' :: "'a heap" and l as by (rule represents_frame)
qed (fact represents_empty represents_distinct represents_alloc push_back_spec pop_front_nil
    pop_front_cons)+

section \<open>Sequences of operations\<close>

datatype il_op = Push addr | Pop

fun il_run :: "il_op list \<Rightarrow> 'a heap \<Rightarrow> intrusive_list
    \<Rightarrow> fault + 'a heap \<times> intrusive_list \<times> addr option list" where
  "il_run [] h l = Inr (h, l, [])"
| "il_run (Push a # ops) h l = and_then (push_back a h l) (\<lambda>(h', l'). il_run ops h' l')"
| "il_run (Pop # ops) h l =
     and_then (pop_front h l) (\<lambda>(h1, l1, r).
     and_then (il_run ops h1 l1) (\<lambda>(h', l', rs). Inr (h', l', r # rs)))"

text \<open>The specification: a list of addresses. \<open>None\<close> is a push of a node that is queued already.\<close>

fun fifo_run :: "il_op list \<Rightarrow> addr list \<Rightarrow> (addr list \<times> addr option list) option" where
  "fifo_run [] as = Some (as, [])"
| "fifo_run (Push a # ops) as = (if a \<in> set as then None else fifo_run ops (as @ [a]))"
| "fifo_run (Pop # ops) as =
     (case fifo_run ops (tl as) of
        None \<Rightarrow> None
      | Some (as', rs) \<Rightarrow> Some (as', (if as = [] then None else Some (hd as)) # rs))"

definition pushable :: "il_op list \<Rightarrow> 'a heap \<Rightarrow> addr list \<Rightarrow> bool" where
  "pushable ops h as \<longleftrightarrow> (\<forall>a. Push a \<in> set ops \<longrightarrow> a \<notin> set as \<longrightarrow> detached h a)"

lemma pushable_step:
  assumes "pushable (op # ops) h as" "\<forall>b. b \<notin> set as \<longrightarrow> h' b = h b" "set as \<subseteq> insert a (set bs)" "a \<in> set bs \<or> detached h' a"
  shows "pushable ops h' bs"
  unfolding pushable_def
proof (intro allI impI)
  fix b
  assume "Push b \<in> set ops" "b \<notin> set bs"
  show "detached h' b"
  proof (cases "b = a")
    case True
    with assms(4) \<open>b \<notin> set bs\<close> show ?thesis by blast
  next
    case False
    with assms(3) \<open>b \<notin> set bs\<close> have "b \<notin> set as" by blast
    with assms(1,2) \<open>Push b \<in> set ops\<close> show ?thesis by (simp add: pushable_def detached_def)
  qed
qed

lemma il_run_fifo:
  assumes "represents h l as" "fifo_run ops as = Some (as', rs)" "pushable ops h as"
  shows "\<exists>h' l'. il_run ops h l = Inr (h', l', rs) \<and> represents h' l' as'"
  using assms
proof (induction ops arbitrary: h l as rs)
  case Nil
  then show ?case by simp
next
  case (Cons op ops)
  show ?case
  proof (cases op)
    case (Push a)
    with Cons.prems have a: "a \<notin> set as" "detached h a" by (auto simp: pushable_def split: if_splits)
    from push_back_spec[OF Cons.prems(1) a(2,1)] obtain h1 l1 where
      p: "push_back a h l = Inr (h1, l1)" "represents h1 l1 (as @ [a])"
      and fr: "\<forall>b. b \<notin> set as \<longrightarrow> h1 b = h b" by blast
    have "pushable ops h1 (as @ [a])" by (rule pushable_step[OF Cons.prems(3) fr, of a]) auto
    from Cons.IH[OF p(2) _ this] Cons.prems(2) Push a p(1) show ?thesis by simp
  next
    case Pop
    with Cons.prems(2) obtain rs' where r: "fifo_run ops (tl as) = Some (as', rs')"
      "rs = (if as = [] then None else Some (hd as)) # rs'"
      by (auto split: option.splits)
    show ?thesis
    proof (cases as)
      case Nil
      have "pushable ops h []" using Cons.prems(3) Nil by (simp add: pushable_def)
      from Cons.IH[OF _ _ this, of l rs'] Cons.prems(1) Nil Pop r pop_front_nil[of h l]
      show ?thesis by auto
    next
      case (Cons a as1)
      from pop_front_cons[of h l a as1] Cons.prems(1) Cons obtain h1 l1 where
        p: "pop_front h l = Inr (h1, l1, Some a)" "represents h1 l1 as1" "detached h1 a"
        and fr: "\<forall>b. b \<noteq> a \<longrightarrow> h1 b = h b" by blast
      have "pushable ops h1 as1"
        by (rule pushable_step[OF Cons.prems(3), of _ a]) (use fr p(3) Cons in auto)
      from Cons.IH[OF p(2) _ this, of rs'] Pop p(1) r Cons show ?thesis by auto
    qed
  qed
qed

text \<open>C12. The pointer list is a first-in first-out queue: on every sequence of pushes (of
  nodes that are not queued) and pops it never fails an assertion nor follows a
  dangling pointer, returns the nodes the specification returns and ends as its list.\<close>

theorem il_refines_fifo:
  assumes "represents h l as" "fifo_run ops as = Some (as', rs)"
    and "\<forall>a. Push a \<in> set ops \<longrightarrow> a \<notin> set as \<longrightarrow> detached h a"
  shows "\<exists>h' l'. il_run ops h l = Inr (h', l', rs) \<and> represents h' l' as'"
  using il_run_fifo[OF assms(1,2)] assms(3) by (simp add: pushable_def)

text \<open>A node that was popped is pushed again.\<close>

theorem il_refines_fifo_witness:
  "\<exists>h' l'. il_run [Push 3, Push 5, Pop, Push 3, Pop, Pop, Pop] (\<lambda>a. Some (new_node a)) il_empty
     = Inr (h', l', [Some 3, Some 5, Some 3, None]) \<and> represents h' l' []"
  by (rule il_refines_fifo[OF represents_empty]) (simp_all add: detached_def new_node_def)

end
