(* ===== verification/Wait_Queue.thy ===== *)
theory Wait_Queue
  imports Intrusive_List Machine_Run
begin

text \<open>
  \<open>detail::wait_queue\<close> (\<open>include/coopsync_tbb/detail/wait_queue.hpp\<close>, \<open>src/wait_queue.cpp\<close>) on
  the heap: the critical sections under \<open>m_waiters_mutex\<close> over an intrusive list whose nodes
  live on the stacks of the suspended tasks, so a node is gone the moment its task
  is resumed. Proved: the operations resume in order of arrival, exactly once, never touch a
  node after its task was resumed, and end; they implement the steps of the task machine,
  so everything proved of the machine rests on this code.
\<close>

section \<open>State and operations\<close>

text \<open>\<open>waiter_t\<close> is \<open>tbb::task::suspend_point\<close>, a nullable handle of a suspended task.\<close>

type_synonym waiter_t = "tid option"

record wait_queue =
  wq_waiters :: intrusive_list

definition wq_init :: wait_queue where
  "wq_init = \<lparr>wq_waiters = il_empty\<rparr>"

text \<open>
  The stack frame of a resumed task, and the node in it, may be gone at once:
  the worst case is that it always is.
\<close>

definition release :: "addr \<Rightarrow> 'a heap \<Rightarrow> 'a heap" where
  "release a h = h(a := None)"

text \<open>
  \<open>do_resume_all\<close>: the list of values on which \<open>tbb::task::resume\<close> is called. The loop pops
  until the list is empty; \<open>None\<close> would mean that it runs forever.
\<close>

partial_function (option) do_resume_all ::
  "('a heap \<Rightarrow> 'l \<Rightarrow> fault + 'a heap \<times> 'l \<times> addr option) \<Rightarrow> 'a heap \<Rightarrow> 'l
    \<Rightarrow> (fault + 'a heap \<times> 'l \<times> 'a list) option"
where
  "do_resume_all pop h l =
     (case pop h l of
        Inl e \<Rightarrow> Some (Inl e)
      | Inr r \<Rightarrow>
         (case snd (snd r) of
            None \<Rightarrow> Some (Inr (fst r, fst (snd r), []))
          | Some a \<Rightarrow>
             (case deref (fst r) a of
                Inl e \<Rightarrow> Some (Inl e)
              | Inr nd \<Rightarrow>
                 Option.bind (do_resume_all pop (release a (fst r)) (fst (snd r)))
                   (\<lambda>x. Some (and_then x (\<lambda>(h', l', vs). Inr (h', l', node_value nd # vs)))))))"

text \<open>The loop of \<open>resume_n\<close>: moves up to \<open>n\<close> nodes from \<open>src\<close> to \<open>dst\<close> and counts them.\<close>

fun take_waiters ::
  "('a heap \<Rightarrow> 'l \<Rightarrow> fault + 'a heap \<times> 'l \<times> addr option) \<Rightarrow> (addr \<Rightarrow> 'a heap \<Rightarrow> 'l \<Rightarrow> fault + 'a heap \<times> 'l)
    \<Rightarrow> nat \<Rightarrow> 'a heap \<Rightarrow> 'l \<Rightarrow> 'l \<Rightarrow> fault + 'a heap \<times> 'l \<times> 'l \<times> int"
where
  "take_waiters pop push 0 h src dst = Inr (h, src, dst, 0)"
| "take_waiters pop push (Suc n) h src dst =
     and_then (pop h src) (\<lambda>(h1, src1, w).
       case w of
         None \<Rightarrow> Inr (h1, src1, dst, 0)
       | Some a \<Rightarrow>
           and_then (push a h1 dst) (\<lambda>(h2, dst1).
           and_then (take_waiters pop push n h2 src1 dst1) (\<lambda>(h3, src2, dst2, r).
           Inr (h3, src2, dst2, r + 1))))"

definition wq_resume_one ::
  "waiter_t heap \<Rightarrow> wait_queue \<Rightarrow> fault + waiter_t heap \<times> wait_queue \<times> bool \<times> waiter_t list"
where
  "wq_resume_one h q =
     and_then (pop_front h (wq_waiters q)) (\<lambda>(h1, l1, w).
       case w of
         None \<Rightarrow> Inr (h1, q\<lparr>wq_waiters := l1\<rparr>, False, [])
       | Some a \<Rightarrow> and_then (deref h1 a) (\<lambda>nd.
           Inr (release a h1, q\<lparr>wq_waiters := l1\<rparr>, True, [node_value nd])))"

definition wq_resume_all ::
  "waiter_t heap \<Rightarrow> wait_queue \<Rightarrow> (fault + waiter_t heap \<times> wait_queue \<times> waiter_t list) option"
where
  "wq_resume_all h q =
     (let (to_resume, l) = il_swap il_empty (wq_waiters q) in
      case and_then (il_is_empty h l) (\<lambda>b. require b (Assertion ''m_waiters.empty()'')) of
        Inl e \<Rightarrow> Some (Inl e)
      | Inr _ \<Rightarrow> Option.bind (do_resume_all pop_front h to_resume)
          (\<lambda>x. Some (and_then x (\<lambda>(h', _, vs). Inr (h', q\<lparr>wq_waiters := l\<rparr>, vs)))))"

definition wq_resume_n ::
  "int \<Rightarrow> waiter_t heap \<Rightarrow> wait_queue
    \<Rightarrow> (fault + waiter_t heap \<times> wait_queue \<times> int \<times> waiter_t list) option"
where
  "wq_resume_n n h q =
     (if \<not> 0 \<le> n then Some (Inl (Assertion ''n >= 0''))
      else if n = 0 then Some (Inr (h, q, 0, []))
      else case take_waiters pop_front push_back (nat n) h (wq_waiters q) il_empty of
        Inl e \<Rightarrow> Some (Inl e)
      | Inr r \<Rightarrow> Option.bind (do_resume_all pop_front (fst r) (fst (snd (snd r))))
          (\<lambda>x. Some (and_then x (\<lambda>(h', _, vs).
             Inr (h', q\<lparr>wq_waiters := fst (snd r)\<rparr>, snd (snd (snd r)), vs)))))"

definition wq_is_empty :: "waiter_t heap \<Rightarrow> wait_queue \<Rightarrow> fault + bool" where
  "wq_is_empty h q = il_is_empty h (wq_waiters q)"

text \<open>\<open>node.value = sp; m_waiters.push_back(node);\<close>\<close>

definition wq_enqueue ::
  "waiter_t \<Rightarrow> addr \<Rightarrow> waiter_t heap \<Rightarrow> wait_queue \<Rightarrow> fault + waiter_t heap \<times> wait_queue"
where
  "wq_enqueue sp a h q =
     and_then (deref h a) (\<lambda>nd.
     and_then (push_back a (h(a \<mapsto> nd\<lparr>node_value := sp\<rparr>)) (wq_waiters q)) (\<lambda>(h', l).
     Inr (h', q\<lparr>wq_waiters := l\<rparr>)))"

text \<open>
  \<open>wait_if\<close> with the two results of the predicate: on the fast path, and inside the lock. The
  node at \<open>a\<close> is a local variable: it exists from the slow path until the task returns.
\<close>

datatype wait_outcome = Returned | Resumed_itself | Queued

definition wq_wait_if ::
  "bool \<Rightarrow> bool \<Rightarrow> waiter_t \<Rightarrow> addr \<Rightarrow> waiter_t heap \<Rightarrow> wait_queue
    \<Rightarrow> fault + waiter_t heap \<times> wait_queue \<times> wait_outcome"
where
  "wq_wait_if fast again sp a h q =
     (if \<not> fast then Inr (h, q, Returned)
      else let h0 = h(a \<mapsto> new_node None) in
        if again then and_then (wq_enqueue sp a h0 q) (\<lambda>(h', q'). Inr (h', q', Queued))
        else Inr (release a h0, q, Resumed_itself))"

section \<open>The loops, over any queue that keeps the contract\<close>

definition value_at :: "'a heap \<Rightarrow> addr \<Rightarrow> 'a" where
  "value_at h a = node_value (the (h a))"

lemma same_values_at: "same_values h h' \<Longrightarrow> h a \<noteq> None \<Longrightarrow> value_at h' a = value_at h a"
  by (auto simp: same_values_def value_at_def dest!: spec[of _ a])

lemma values_release: "a \<notin> set as \<Longrightarrow> map (value_at (release a h)) as = map (value_at h) as"
  by (auto simp: value_at_def release_def)

context fifo
begin

lemma do_resume_all_ok:
  "rep h l as \<Longrightarrow> \<exists>h' l'. do_resume_all pop h l = Some (Inr (h', l', map (value_at h) as))
     \<and> rep h' l' [] \<and> (\<forall>b. h' b = (if b \<in> set as then None else h b))"
proof (induction as arbitrary: h l)
  case Nil
  then show ?case by (subst do_resume_all.simps) (auto simp: pop_nil)
next
  case (Cons a as)
  from pop_cons[OF Cons.prems] obtain h1 l1 where p: "pop h l = Inr (h1, l1, Some a)"
    and r1: "rep h1 l1 as" "detached h1 a" "same_values h h1" "\<forall>b. b \<noteq> a \<longrightarrow> h1 b = h b"
    by blast
  from rep_distinct[OF Cons.prems] have a: "a \<notin> set as" by simp
  have "rep (release a h1) l1 as"
    by (rule rep_frame[OF r1(1)]) (use a in \<open>auto simp: release_def\<close>)
  from Cons.IH[OF this] obtain h2 l2
    where r2: "do_resume_all pop (release a h1) l1 = Some (Inr (h2, l2, map (value_at (release a h1)) as))"
      "rep h2 l2 []" "\<forall>b. h2 b = (if b \<in> set as then None else release a h1 b)"
    by blast
  from r1(2) obtain nd where nd: "h1 a = Some nd" by (auto simp: detached_def)
  have v: "node_value nd = value_at h a"
    using r1(3) nd rep_alloc[OF Cons.prems, of a] same_values_at[OF r1(3), of a]
    by (simp add: value_at_def)
  have vs: "map (value_at (release a h1)) as = map (value_at h) as"
    using same_values_at[OF r1(3)] rep_alloc[OF Cons.prems] a by (auto simp: values_release)
  have "do_resume_all pop h l = Some (Inr (h2, l2, map (value_at h) (a # as)))"
    using p nd r2(1) v vs by (subst do_resume_all.simps) (simp add: deref_def)
  then show ?case using r2 r1(4) by (auto simp: release_def)
qed

lemma take_waiters_ok:
  "rep h src as \<Longrightarrow> rep h dst bs \<Longrightarrow> set as \<inter> set bs = {} \<Longrightarrow>
   \<exists>h' src' dst'. take_waiters pop push n h src dst
       = Inr (h', src', dst', int (min n (length as)))
     \<and> rep h' src' (drop n as) \<and> rep h' dst' (bs @ take n as) \<and> same_values h h'
     \<and> (\<forall>b. b \<notin> set as \<union> set bs \<longrightarrow> h' b = h b)"
proof (induction n arbitrary: h src dst as bs)
  case 0
  then show ?case by (auto simp: same_values_refl)
next
  case (Suc n)
  show ?case
  proof (cases as)
    case Nil
    then show ?thesis using Suc.prems pop_nil[of h src] by (auto simp: same_values_refl)
  next
    case (Cons a as')
    from pop_cons[of h src a as'] Suc.prems Cons obtain h1 src1
      where p: "pop h src = Inr (h1, src1, Some a)"
      and r1: "rep h1 src1 as'" "detached h1 a" "same_values h h1" "\<forall>b. b \<noteq> a \<longrightarrow> h1 b = h b"
      by blast
    from Suc.prems Cons have ab: "a \<notin> set bs" "set as' \<inter> set bs = {}" by auto
    from rep_distinct[OF Suc.prems(1)] Cons have aa: "a \<notin> set as'" by simp
    have "rep h1 dst bs" using rep_frame[OF Suc.prems(2), of h1] r1(4) ab by metis
    from push_ok[OF this r1(2) ab(1)] obtain h2 dst1
      where q: "push a h1 dst = Inr (h2, dst1)" and r2: "rep h2 dst1 (bs @ [a])" "same_values h1 h2"
        "\<forall>b. b \<notin> set bs \<longrightarrow> h2 b = h1 b"
      by blast
    have "rep h2 src1 as'" using rep_frame[OF r1(1), of h2] r2(3) ab by blast
    from Suc.IH[OF this r2(1)] ab aa obtain h3 src2 dst2
      where r3: "take_waiters pop push n h2 src1 dst1 = Inr (h3, src2, dst2, int (min n (length as')))"
        "rep h3 src2 (drop n as')" "rep h3 dst2 ((bs @ [a]) @ take n as')" "same_values h2 h3"
        "\<forall>b. b \<notin> set as' \<union> set (bs @ [a]) \<longrightarrow> h3 b = h2 b"
      by force
    have "same_values h h3" using r1(3) r2(2) r3(4) by (blast intro: same_values_trans)
    moreover have "\<forall>b. b \<notin> set as \<union> set bs \<longrightarrow> h3 b = h b" using r1(4) r2(3) r3(5) Cons by auto
    ultimately show ?thesis using p q r3 Cons by auto
  qed
qed

end

section \<open>The queue as a list of waiters\<close>

definition queue_of :: "waiter_t heap \<Rightarrow> wait_queue \<Rightarrow> addr list \<Rightarrow> waiter_t list \<Rightarrow> bool" where
  "queue_of h q as ws \<longleftrightarrow> represents h (wq_waiters q) as \<and> ws = map (value_at h) as"

lemma queue_of_init: "queue_of h wq_init [] []"
  by (simp add: queue_of_def wq_init_def represents_empty)

lemma wq_is_empty_spec: "queue_of h q as ws \<Longrightarrow> wq_is_empty h q = Inr (ws = [])"
  using il_is_empty_spec[of h "wq_waiters q" as] by (auto simp: queue_of_def wq_is_empty_def)

lemma wq_resume_one_nil:
  "queue_of h q [] ws \<Longrightarrow> \<exists>q'. wq_resume_one h q = Inr (h, q', False, []) \<and> queue_of h q' [] []"
  by (auto simp: queue_of_def wq_resume_one_def pop_front_nil)

lemma wq_resume_one_cons:
  assumes "queue_of h q (a # as) (w # ws)"
  shows "\<exists>h' q'. wq_resume_one h q = Inr (h', q', True, [w]) \<and> queue_of h' q' as ws
    \<and> (\<forall>b. b \<noteq> a \<longrightarrow> h' b = h b)"
proof -
  from assms have r: "represents h (wq_waiters q) (a # as)" and w: "w = value_at h a"
    and ws: "ws = map (value_at h) as" by (auto simp: queue_of_def)
  from il.pop_cons[OF r] obtain h1 l1 where p: "pop_front h (wq_waiters q) = Inr (h1, l1, Some a)"
    and r1: "represents h1 l1 as" "detached h1 a" "same_values h h1" "\<forall>b. b \<noteq> a \<longrightarrow> h1 b = h b"
    by blast
  from represents_distinct[OF r] have a: "a \<notin> set as" by simp
  from r1(2) obtain nd where nd: "h1 a = Some nd" by (auto simp: detached_def)
  have "value_at h1 a = w" using w same_values_at[OF r1(3), of a] represents_alloc[OF r, of a] by simp
  then have "wq_resume_one h q = Inr (release a h1, q\<lparr>wq_waiters := l1\<rparr>, True, [w])"
    using p nd by (simp add: wq_resume_one_def deref_def value_at_def)
  moreover have "represents (release a h1) l1 as"
    by (rule represents_frame[OF r1(1)]) (use a in \<open>auto simp: release_def\<close>)
  moreover have "ws = map (value_at (release a h1)) as"
    using ws a r1(4) by (auto simp: values_release value_at_def)
  ultimately show ?thesis using r1(4) by (auto simp: queue_of_def release_def)
qed

lemma wq_resume_all_ok:
  assumes "queue_of h q as ws"
  shows "\<exists>h' q'. wq_resume_all h q = Some (Inr (h', q', ws)) \<and> queue_of h' q' [] []
    \<and> (\<forall>b. h' b = (if b \<in> set as then None else h b))"
proof -
  from assms have r: "represents h (wq_waiters q) as" and ws: "ws = map (value_at h) as"
    by (auto simp: queue_of_def)
  obtain x l where sw: "il_swap il_empty (wq_waiters q) = (x, l)" by (cases "il_swap il_empty (wq_waiters q)") auto
  from il_swap_spec[OF represents_empty r sw] have xl: "represents h x as" "represents h l []" by auto
  from il.do_resume_all_ok[OF xl(1)] obtain h' l' where
    d: "do_resume_all pop_front h x = Some (Inr (h', l', ws))"
      "\<forall>b. h' b = (if b \<in> set as then None else h b)"
    unfolding ws by blast
  have "represents h' l []" using represents_frame[OF xl(2)] by simp
  then show ?thesis using d sw il_is_empty_spec[OF xl(2)]
    by (auto simp: wq_resume_all_def queue_of_def)
qed

lemma wq_resume_n_ok:
  assumes "queue_of h q as ws" "0 \<le> n"
  shows "\<exists>h' q'. wq_resume_n n h q = Some (Inr (h', q', min n (int (length ws)), take (nat n) ws))
    \<and> queue_of h' q' (drop (nat n) as) (drop (nat n) ws)
    \<and> (\<forall>b. b \<notin> set as \<longrightarrow> h' b = h b)"
proof (cases "n = 0")
  case True
  then show ?thesis using assms by (auto simp: wq_resume_n_def)
next
  case False
  from assms have r: "represents h (wq_waiters q) as" and ws: "ws = map (value_at h) as"
    by (auto simp: queue_of_def)
  from il.take_waiters_ok[OF r represents_empty, of "nat n"] obtain h1 src dst where
    t: "take_waiters pop_front push_back (nat n) h (wq_waiters q) il_empty
          = Inr (h1, src, dst, int (min (nat n) (length as)))"
      "represents h1 src (drop (nat n) as)" "represents h1 dst (take (nat n) as)" "same_values h h1"
      "\<forall>b. b \<notin> set as \<longrightarrow> h1 b = h b"
    by auto
  from il.do_resume_all_ok[OF t(3)] obtain h' l' where
    d: "do_resume_all pop_front h1 dst = Some (Inr (h', l', map (value_at h1) (take (nat n) as)))"
      "\<forall>b. h' b = (if b \<in> set (take (nat n) as) then None else h1 b)" by blast
  have v: "map (value_at h1) as = ws"
    using same_values_at[OF t(4)] represents_alloc[OF r] ws by auto
  have dj: "set (take (nat n) as) \<inter> set (drop (nat n) as) = {}"
    by (rule distinct_take_drop_disjoint[OF represents_distinct[OF r]])
  have "represents h' src (drop (nat n) as)"
    by (rule represents_frame[OF t(2)]) (use d(2) dj in auto)
  moreover have "drop (nat n) ws = map (value_at h') (drop (nat n) as)"
  proof -
    have "map (value_at h') (drop (nat n) as) = map (value_at h1) (drop (nat n) as)"
      using d(2) dj by (auto simp: value_at_def)
    then show ?thesis using v by (metis drop_map)
  qed
  moreover have "map (value_at h1) (take (nat n) as) = take (nat n) ws" using v by (metis take_map)
  moreover have "int (min (nat n) (length as)) = min n (int (length ws))"
    using assms(2) ws by (simp add: min_def nat_le_iff)
  moreover have "\<forall>b. b \<notin> set as \<longrightarrow> h' b = h b" using d(2) t(5) by (auto dest: in_set_takeD)
  ultimately show ?thesis using False assms(2) t(1) d(1)
    by (auto simp: wq_resume_n_def queue_of_def)
qed

lemma wq_enqueue_ok:
  assumes q: "queue_of h q as ws" and a: "detached h a" "a \<notin> set as"
  shows "\<exists>h' q'. wq_enqueue sp a h q = Inr (h', q') \<and> queue_of h' q' (as @ [a]) (ws @ [sp])
    \<and> (\<forall>b. b \<notin> insert a (set as) \<longrightarrow> h' b = h b)"
proof -
  from a obtain nd where nd: "h a = Some nd" "node_next nd = None" by (auto simp: detached_def)
  let ?h = "h(a \<mapsto> nd\<lparr>node_value := sp\<rparr>)"
  from q have r: "represents h (wq_waiters q) as" and ws: "ws = map (value_at h) as"
    by (auto simp: queue_of_def)
  have "represents ?h (wq_waiters q) as"
    by (rule represents_frame[OF r]) (use a(2) in auto)
  moreover have "detached ?h a" using nd by (simp add: detached_def)
  ultimately obtain h' l where p: "push_back a ?h (wq_waiters q) = Inr (h', l)"
    "represents h' l (as @ [a])" "same_values ?h h'" "\<forall>b. b \<notin> set as \<longrightarrow> h' b = ?h b"
    using push_back_spec[of ?h "wq_waiters q" as a] a(2) by blast
  have "map (value_at h') (as @ [a]) = ws @ [sp]"
    using same_values_at[OF p(3)] represents_alloc[OF r] a(2) ws by (auto simp: value_at_def)
  then show ?thesis using p nd by (auto simp: wq_enqueue_def deref_def queue_of_def)
qed

section \<open>The steps of the task machine\<close>

fun resumes_from :: "('v, 'q, 'pc) instr \<Rightarrow> 'q option" where
  "resumes_from (Resume_one q k) = Some q"
| "resumes_from (Resume_n q m k) = Some q"
| "resumes_from (Resume_all q k) = Some q"
| "resumes_from _ = None"

text \<open>The code that a machine instruction stands for, with the waiters it resumes.\<close>

fun wq_execute ::
  "('v, 'q, 'pc) instr \<Rightarrow> waiter_t heap \<Rightarrow> wait_queue
    \<Rightarrow> (fault + waiter_t heap \<times> wait_queue \<times> waiter_t list) option"
where
  "wq_execute (Resume_one _ k) h q =
     Some (and_then (wq_resume_one h q) (\<lambda>(h', q', b, ws). Inr (h', q', ws)))"
| "wq_execute (Resume_n _ m k) h q =
     Option.bind (wq_resume_n (int m) h q)
       (\<lambda>r. Some (and_then r (\<lambda>(h', q', i, ws). Inr (h', q', ws))))"
| "wq_execute (Resume_all _ k) h q = wq_resume_all h q"
| "wq_execute _ h q = Some (Inr (h, q, []))"

lemma wq_execute_one:
  assumes "queue_of h q as (map Some ts)"
  shows "\<exists>h' q'. wq_execute (Resume_one k c) h q = Some (Inr (h', q', map Some (take 1 ts)))
    \<and> queue_of h' q' (drop 1 as) (map Some (drop 1 ts)) \<and> (\<forall>b. b \<notin> set as \<longrightarrow> h' b = h b)"
proof (cases as)
  case Nil
  with assms have "ts = []" by (simp add: queue_of_def)
  with wq_resume_one_nil[of h q "[]"] assms Nil show ?thesis by auto
next
  case (Cons a as')
  with assms obtain t' ts' where "ts = t' # ts'" by (cases ts) (auto simp: queue_of_def)
  with wq_resume_one_cons[of h q a as' "Some t'" "map Some ts'"] assms Cons show ?thesis by auto
qed

lemma wq_execute_n:
  assumes "queue_of h q as (map Some ts)"
  shows "\<exists>h' q'. wq_execute (Resume_n k m c) h q = Some (Inr (h', q', map Some (take m ts)))
    \<and> queue_of h' q' (drop m as) (map Some (drop m ts)) \<and> (\<forall>b. b \<notin> set as \<longrightarrow> h' b = h b)"
proof -
  from wq_resume_n_ok[OF assms, of "int m"] obtain h' q' where
    "wq_resume_n (int m) h q = Some (Inr (h', q', min (int m) (int (length (map Some ts))),
       take m (map Some ts)))"
    "queue_of h' q' (drop m as) (drop m (map Some ts))" "\<forall>b. b \<notin> set as \<longrightarrow> h' b = h b"
    by auto
  then show ?thesis by (simp add: take_map drop_map)
qed

lemma wq_execute_all:
  assumes "queue_of h q as (map Some ts)"
  shows "\<exists>h' q'. wq_execute (Resume_all k c) h q = Some (Inr (h', q', map Some ts))
    \<and> queue_of h' q' [] [] \<and> (\<forall>b. b \<notin> set as \<longrightarrow> h' b = h b)"
  using wq_resume_all_ok[OF assms] by auto

section \<open>Properties\<close>

text \<open>A queue of two waiters, for the examples: the node at 4 is the head.\<close>

definition two_nodes :: "waiter_t heap" where
  "two_nodes = [4 \<mapsto> \<lparr>node_value = Some 7, node_next = Some 2\<rparr>,
    2 \<mapsto> \<lparr>node_value = Some 9, node_next = None\<rparr>]"

definition two_waiters :: wait_queue where
  "two_waiters = \<lparr>wq_waiters = \<lparr>m_head = Some 4, m_tail = Some 2\<rparr>\<rparr>"

lemma two_queued: "queue_of two_nodes two_waiters [4, 2] [Some 7, Some 9]"
  by (simp add: queue_of_def represents_def value_at_def two_nodes_def two_waiters_def)

text \<open>C1. For every client of the wait queues and every interleaving: a task is suspended exactly while its node
  is in a queue or some task that popped it is about to resume it, never both; no node is
  queued twice, in two queues or popped by two tasks. So \<open>tbb::task::resume\<close> is called on suspended tasks
  only, once for each suspension, and no sleeper is forgotten.\<close>

theorem wait_queue_tracks_sleepers:
  assumes "reach code n (init_sys v pc0) s"
  shows "((\<exists>pc. ctl s t = Suspended pc) \<longleftrightarrow>
        (\<exists>q. t \<in> set (m_waiters s q)) \<or> (\<exists>u. t \<in> set (popped (ctl s u))))
    \<and> (\<nexists>q u. t \<in> set (m_waiters s q) \<and> t \<in> set (popped (ctl s u)))
    \<and> (\<nexists>q q'. q \<noteq> q' \<and> t \<in> set (m_waiters s q) \<and> t \<in> set (m_waiters s q'))
    \<and> (\<nexists>u u'. u \<noteq> u' \<and> t \<in> set (popped (ctl s u)) \<and> t \<in> set (popped (ctl s u')))
    \<and> distinct (m_waiters s q) \<and> distinct (popped (ctl s u))"
proof -
  have wf: "wf code n s" by (rule reach_wf[OF assms])
  have sus: "\<exists>pc. ctl s t = Suspended pc" if "sleeps_on code (ctl s t) \<noteq> None"
    using that by (cases "ctl s t") auto
  have slept: "sleeps_on code (ctl s t) \<noteq> None" if "ctl s t = Suspended pc" for pc
    using wf that by (auto simp: wf_def wf_stage_def dest!: spec[of _ t])
  have q: "sleeps_on code (ctl s t) = Some q" if "t \<in> set (m_waiters s q)" for q
    using wf that by (simp add: wf_def wf_queued_def)
  have p: "sleeps_on code (ctl s t) \<noteq> None" if "t \<in> set (popped (ctl s u))" for u
    using wf that by (auto simp: wf_def wf_popped_def)
  have "(\<exists>q. t \<in> set (m_waiters s q)) \<or> (\<exists>u. t \<in> set (popped (ctl s u)))"
    if "sleeps_on code (ctl s t) = Some q" for q
    using wf that unfolding wf_def wf_tracked_def by blast
  then have "(\<exists>pc. ctl s t = Suspended pc) \<longleftrightarrow>
      (\<exists>q. t \<in> set (m_waiters s q)) \<or> (\<exists>u. t \<in> set (popped (ctl s u)))"
    using sus slept q p by blast
  moreover have "\<nexists>q q'. q \<noteq> q' \<and> t \<in> set (m_waiters s q) \<and> t \<in> set (m_waiters s q')"
    using q by (metis option.inject)
  ultimately show ?thesis
    using wf unfolding wf_def wf_apart_def wf_once_def wf_distinct_def by blast
qed

text \<open>Task 1 has popped task 0 and is about to resume it.\<close>

theorem wait_queue_tracks_sleepers_witness:
  "\<exists>s. reach (\<lambda>pc::nat. if pc = 0 then Goto [1, 2] else if pc = 1 then Wait_if () (\<lambda>v. (v, True)) 0
       else Resume_all () 0) 2 (init_sys () 0) s
     \<and> ctl s 1 = Resuming [0] 0 \<and> (\<exists>pc. ctl s 0 = Suspended pc) \<and> 0 \<notin> set (m_waiters s ())"
proof -
  let ?code = "\<lambda>pc::nat. if pc = 0 then Goto [1, 2] else if pc = 1 then Wait_if () (\<lambda>v. (v, True)) 0
    else Resume_all () 0"
  have "\<exists>s. reach ?code 2 (init_sys () 0) s \<and> ctl s 1 = Resuming [0] 0"
    by (rule run_witness[where sched = "[(0,0),(0,0),(0,0),(0,0),(0,0),(1,1),(1,0)]"]) (simp add: run_simps)
  then obtain s where s: "reach ?code 2 (init_sys () 0) s" "ctl s 1 = Resuming [0] 0" by blast
  have "0 \<in> set (popped (ctl s 1))" using s(2) by simp
  with wait_queue_tracks_sleepers[OF s(1), of 0] s show ?thesis by blast
qed

text \<open>C16. \<open>resume_all\<close> ends, resumes every waiter exactly once in order of arrival, leaves the queue
  empty, and never reads a node again after resuming its task, although the node is gone
  at that moment; no other memory changes.\<close>

theorem wq_resume_all_safe:
  assumes "queue_of h q as ws"
  shows "\<exists>h' q'. wq_resume_all h q = Some (Inr (h', q', ws)) \<and> wq_is_empty h' q' = Inr True
    \<and> (\<forall>b. h' b = (if b \<in> set as then None else h b))"
  using wq_resume_all_ok[OF assms] by (auto dest: wq_is_empty_spec)

theorem wq_resume_all_safe_witness:
  "\<exists>h' q'. wq_resume_all two_nodes two_waiters = Some (Inr (h', q', [Some 7, Some 9]))
     \<and> wq_is_empty h' q' = Inr True \<and> h' 4 = None \<and> h' 2 = None"
  using wq_resume_all_safe[OF two_queued] by auto

text \<open>\<open>resume_n n\<close> ends, resumes the \<open>n\<close> oldest waiters (all of them when there are fewer) in
  order of arrival, returns their number and leaves the others queued in their order;
  a negative count fails its assertion.\<close>

theorem wq_resume_n_counts:
  assumes "queue_of h q as ws"
  shows "if n < 0 then wq_resume_n n h q = Some (Inl (Assertion ''n >= 0''))
    else \<exists>h' q'. wq_resume_n n h q
        = Some (Inr (h', q', min n (int (length ws)), take (nat n) ws))
      \<and> queue_of h' q' (drop (nat n) as) (drop (nat n) ws)"
proof (cases "n < 0")
  case True
  then show ?thesis by (simp add: wq_resume_n_def)
next
  case False
  with wq_resume_n_ok[OF assms, of n] show ?thesis by auto
qed

theorem wq_resume_n_counts_witness:
  "\<exists>h' q'. wq_resume_n 1 two_nodes two_waiters = Some (Inr (h', q', 1, [Some 7]))
     \<and> queue_of h' q' [2] [Some 9]"
  using wq_resume_n_counts[OF two_queued, of 1] by simp

text \<open>The pops of the task machine are what the code does: whenever a task steps through a
  \<open>resume_one\<close>, \<open>resume_n\<close> or \<open>resume_all\<close>, the code run on any heap that holds the
  queue succeeds, resumes the same tasks in the same order and leaves a heap that holds
  the queue of the next state; memory outside the queue's nodes is not touched.\<close>

theorem wq_refines_pop:
  assumes "mstep code n s t s'" "ctl s t = At pc" "resumes_from (code pc) = Some k"
    and "queue_of h q as (map Some (m_waiters s k))"
  shows "\<exists>h' q' as'. wq_execute (code pc) h q = Some (Inr (h', q', map Some (popped (ctl s' t))))
    \<and> queue_of h' q' as' (map Some (m_waiters s' k)) \<and> (\<forall>b. b \<notin> set as \<longrightarrow> h' b = h b)"
  using assms(1)
proof (cases rule: mstep.cases)
  case (resume_one_none pc' k' c)
  with wq_execute_one[OF assms(4), of k' c] assms show ?thesis by auto
next
  case (resume_one_some pc' k' c w ws)
  with wq_execute_one[OF assms(4), of k' c] assms show ?thesis by auto
next
  case (resume_n_zero pc' k' c)
  with wq_execute_n[OF assms(4), of k' 0 c] assms show ?thesis by auto
next
  case (resume_n_pop pc' k' m c)
  with wq_execute_n[OF assms(4), of k' m c] assms show ?thesis by auto
next
  case (resume_all_pop pc' k' c)
  with wq_execute_all[OF assms(4), of k' c] assms show ?thesis by auto
qed (use assms in auto)

theorem wq_refines_pop_witness:
  "\<exists>h' q' as'. wq_execute (Resume_one () (\<lambda>_. False)) two_nodes two_waiters
       = Some (Inr (h', q', [Some 7]))
     \<and> queue_of h' q' as' [Some 9] \<and> h' 8 = None"
proof -
  let ?code = "\<lambda>pc. if pc then Resume_one () (\<lambda>_. False) else Halt"
  let ?s = "(init_sys () True)\<lparr>m_waiters := (\<lambda>_::unit. [7, 9])\<rparr>"
  have q: "queue_of two_nodes two_waiters [4, 2] (map Some (m_waiters ?s ()))"
    using two_queued by simp
  have st: "mstep ?code 1 ?s 0 (?s\<lparr>m_waiters := (m_waiters ?s)(() := [9]),
      ctl := (ctl ?s)(0 := Resuming [7] False)\<rparr>)"
    by (rule resume_one_some[where pc = True and k = "\<lambda>_. False"]) (simp_all add: init_sys_def)
  have "two_nodes 8 = None" by (simp add: two_nodes_def)
  with wq_refines_pop[OF st _ _ q, of True] show ?thesis by (auto simp: init_sys_def)
qed

text \<open>The push of the task machine is what the code does: a task that decided to wait twice
  stores its suspend point in the node on its stack and appends the node; the code succeeds on
  any heap that holds the queue, and afterwards the heap holds the longer queue.\<close>

theorem wq_refines_push:
  assumes "mstep code n s t s'" "ctl s t = Pushing pc" "code pc = Wait_if k pred c"
    and "queue_of h q as (map Some (m_waiters s k))" "a \<notin> set as"
  shows "\<exists>h' q'. wq_wait_if True True (Some t) a h q = Inr (h', q', Queued)
    \<and> ctl s' t = Suspended pc \<and> queue_of h' q' (as @ [a]) (map Some (m_waiters s' k))
    \<and> (\<forall>b. b \<notin> insert a (set as) \<longrightarrow> h' b = h b)"
proof -
  let ?h = "h(a \<mapsto> new_node None)"
  from assms(4) have "represents h (wq_waiters q) as" by (simp add: queue_of_def)
  then have "represents ?h (wq_waiters q) as"
    by (rule represents_frame) (use assms(5) in auto)
  moreover have "map (value_at ?h) as = map (value_at h) as"
    using assms(5) by (auto simp: value_at_def)
  ultimately have "queue_of ?h q as (map Some (m_waiters s k))"
    using assms(4) by (simp add: queue_of_def)
  from wq_enqueue_ok[OF this _ assms(5), of "Some t"] obtain h' q'
    where "wq_enqueue (Some t) a ?h q = Inr (h', q')"
      "queue_of h' q' (as @ [a]) (map Some (m_waiters s k) @ [Some t])"
      "\<forall>b. b \<notin> insert a (set as) \<longrightarrow> h' b = ?h b"
    by (auto simp: detached_def new_node_def)
  moreover from assms(1) have "m_waiters s' k = m_waiters s k @ [t] \<and> ctl s' t = Suspended pc"
    using assms(2,3) by (cases rule: mstep.cases) auto
  ultimately show ?thesis by (auto simp: wq_wait_if_def)
qed

theorem wq_refines_push_witness:
  "\<exists>h' q'. wq_wait_if True True (Some 0) 5 two_nodes two_waiters = Inr (h', q', Queued)
     \<and> queue_of h' q' [4, 2, 5] [Some 7, Some 9, Some 0]"
proof -
  let ?code = "\<lambda>_::unit. Wait_if () (\<lambda>v. (v, True)) ()"
  let ?s = "(init_sys () ())\<lparr>m_waiters := (\<lambda>_::unit. [7, 9]), ctl := (\<lambda>_. Pushing ())\<rparr>"
  have q: "queue_of two_nodes two_waiters [4, 2] (map Some (m_waiters ?s ()))"
    using two_queued by simp
  have st: "mstep ?code 1 ?s 0 (?s\<lparr>m_waiters := (m_waiters ?s)(() := m_waiters ?s () @ [0]),
      m_waiters_mutex := (m_waiters_mutex ?s)(() := None), ctl := (ctl ?s)(0 := Suspended ())\<rparr>)"
    by (rule wait_push) simp_all
  from wq_refines_push[OF st _ refl q, where a = 5] show ?thesis by auto
qed

end
