(* ===== verification/Semaphore.thy ===== *)
theory Semaphore
  imports Accounting
begin

text \<open>
  \<open>counting_semaphore\<close> (\<open>include/coopsync_tbb/semaphore.hpp\<close>) and its specialisation for one
  permit (\<open>src/semaphore.cpp\<close>). The counter has the width that \<open>int_max_value_t\<close> chooses and
  wraps at it. Proved for any number of tasks: permits are conserved, the counter
  stays in range and no assertion fails while the callers keep the contract of
  \<open>release\<close>, and no task sleeps while a permit is available.
\<close>

section \<open>The storage type\<close>

text \<open>The width of \<open>int_max_value_t<N>::type\<close>; the last alternative is \<open>ptrdiff_t\<close>.\<close>

definition int_max_value_t :: "int \<Rightarrow> nat" where
  "int_max_value_t N =
     (let fits8 = N \<le> smax 8; fits16 = N \<le> smax 16; fits32 = N \<le> smax 32; fits64 = N \<le> smax 64 in
      if fits8 then 8 else if fits16 then 16 else if fits32 then 32 else if fits64 then 64 else 64)"

definition sem_max :: "int \<Rightarrow> int" where
  "sem_max N = smax (int_max_value_t N)"

lemma int_max_value_t_pos: "0 < int_max_value_t N"
  by (simp add: int_max_value_t_def Let_def)

section \<open>State and operations\<close>

text \<open>
  \<open>m_counter\<close> is the atomic. The other fields are bookkeeping of the callers, not of the code:
  permits acquired and released so far, and how many more may be released now without
  exceeding \<open>max()\<close>, which is the contract of \<open>release\<close>.
\<close>

record semaphore =
  m_counter :: int
  acquired :: int
  released :: int
  budget :: int

definition sem_init :: "int \<Rightarrow> int \<Rightarrow> semaphore" where
  "sem_init N desired = \<lparr>m_counter = desired, acquired = 0, released = 0, budget = sem_max N - desired\<rparr>"

text \<open>The assertions of the constructor.\<close>

definition sem_arguments_ok :: "int \<Rightarrow> int \<Rightarrow> bool" where
  "sem_arguments_ok N desired \<longleftrightarrow> 0 \<le> desired \<and> desired \<le> sem_max N"

datatype sem_caller = By_try | By_acquire

datatype sem_pc =
    Idle
  | Acquire_load sem_caller | Acquire_cas sem_caller int | Acquire_wait
  | Release int | Release_add int | Release_check int int | Release_resume int
  | Aborted

text \<open>The body of the loop of \<open>try_acquire\<close> with its local \<open>current\<close>.\<close>

definition sem_try_step :: "nat \<Rightarrow> sem_caller \<Rightarrow> int \<Rightarrow> semaphore \<Rightarrow> (semaphore \<times> sem_pc) list" where
  "sem_try_step w c current m =
     (if 0 < current
      then map (\<lambda>(ok, x).
             if ok then (m\<lparr>m_counter := x, acquired := acquired m + 1, budget := budget m + 1\<rparr>, Idle)
             else (m\<lparr>m_counter := x\<rparr>, Acquire_cas c x))
           (compare_exchange_weak current (swrap w (current - 1)) (m_counter m))
      else [(m, case c of By_try \<Rightarrow> Idle | By_acquire \<Rightarrow> Acquire_wait)])"

text \<open>\<open>fetch_add\<close> of \<open>release\<close>: the previous value stays in a local.\<close>

definition sem_fetch_add :: "nat \<Rightarrow> int \<Rightarrow> semaphore \<Rightarrow> semaphore \<times> int" where
  "sem_fetch_add w update m =
     (m\<lparr>m_counter := swrap w (m_counter m + swrap w update), released := released m + update\<rparr>,
      m_counter m)"

text \<open>
  A caller may call \<open>try_acquire\<close>, \<open>acquire\<close>, or \<open>release u\<close> for any \<open>u\<close> of \<open>us\<close>
  that the contract of \<open>release\<close> allows; with the call it reserves its share of the budget.
\<close>

fun sem_calls :: "int list \<Rightarrow> semaphore \<Rightarrow> (semaphore \<times> sem_pc) list" where
  "sem_calls us m = [(m, Acquire_load By_try), (m, Acquire_load By_acquire)]
     @ map (\<lambda>u. (m\<lparr>budget := budget m - u\<rparr>, Release u)) (filter (\<lambda>u. 0 \<le> u \<and> u \<le> budget m) us)"

fun sem_code :: "int \<Rightarrow> int list \<Rightarrow> sem_pc \<Rightarrow> (semaphore, unit, sem_pc) instr" where
  "sem_code N us Idle = Atomic (sem_calls us)"
| "sem_code N us (Acquire_load c) = Do (\<lambda>m. (m, Acquire_cas c (m_counter m)))"
| "sem_code N us (Acquire_cas c current) = Atomic (sem_try_step (int_max_value_t N) c current)"
| "sem_code N us Acquire_wait = Wait_if () (\<lambda>m. (m, m_counter m = 0)) (Acquire_load By_acquire)"
| "sem_code N us (Release u) =
     Do (\<lambda>m. (m, if \<not> 0 \<le> u then Aborted else if u = 0 then Idle else Release_add u))"
| "sem_code N us (Release_add u) =
     Do (\<lambda>m. let r = sem_fetch_add (int_max_value_t N) u m in (fst r, Release_check u (snd r)))"
| "sem_code N us (Release_check u prev) =
     Do (\<lambda>m. (m, if u \<le> sem_max N - prev then Release_resume u else Aborted))"
| "sem_code N us (Release_resume u) = Resume_n () (nat u) Idle"
| "sem_code N us Aborted = Halt"

fun_cases sem_code_cases:
  "sem_code N us pc = Atomic f" "sem_code N us pc = Wait_if q pred k"
  "sem_code N us pc = Resume_one q k'" "sem_code N us pc = Resume_n q m k" "sem_code N us pc = Resume_all q k"

abbreviation sem_start :: "int \<Rightarrow> int \<Rightarrow> (semaphore, unit, sem_pc) sys" where
  "sem_start N d \<equiv> init_sys (sem_init N d) Idle"

section \<open>The books\<close>

text \<open>Permits promised by calls of \<open>release\<close> that have not reached \<open>fetch_add\<close>.\<close>

fun promised :: "sem_pc control \<Rightarrow> int" where
  "promised (At (Release u)) = max 0 u"
| "promised (At (Release_add u)) = max 0 u"
| "promised _ = 0"

fun doomed :: "int \<Rightarrow> sem_pc control \<Rightarrow> int" where
  "doomed N (At (Release u)) = of_bool (u < 0)"
| "doomed N (At (Release_add u)) = of_bool (u \<le> 0)"
| "doomed N (At (Release_check u prev)) = of_bool (\<not> u \<le> sem_max N - prev) + of_bool (u \<le> 0)"
| "doomed N (At (Release_resume u)) = of_bool (u \<le> 0)"
| "doomed N (At Aborted) = 1"
| "doomed N _ = 0"

datatype sem_account = Permits | Conserved | In_range | Failures

fun sem_weight :: "int \<Rightarrow> sem_account \<Rightarrow> sem_pc control \<Rightarrow> int" where
  "sem_weight N Permits = promised"
| "sem_weight N Conserved = (\<lambda>_. 0)"
| "sem_weight N In_range = (\<lambda>_. 0)"
| "sem_weight N Failures = doomed N"

fun sem_balance :: "int \<Rightarrow> int \<Rightarrow> sem_account \<Rightarrow> semaphore \<Rightarrow> int" where
  "sem_balance N d Permits m = sem_max N - m_counter m - budget m"
| "sem_balance N d Conserved m = m_counter m - (d + released m - acquired m)"
| "sem_balance N d In_range m = - of_bool (m_counter m < 0 \<or> budget m < 0)"
| "sem_balance N d Failures m = 0"

lemma sem_accounts: "(\<forall>i. P i) \<longleftrightarrow> P Permits \<and> P Conserved \<and> P In_range \<and> P Failures"
  using sem_account.exhaust by metis

lemma promised_nonneg: "0 \<le> promised c" and doomed_nonneg: "0 \<le> doomed N c"
  subgoal by (cases c rule: promised.cases) simp_all
  subgoal by (cases "(N, c)" rule: doomed.cases) simp_all
  done

lemma sem_try_step_iff:
  "(v, pc') \<in> set (sem_try_step w c current m) \<longleftrightarrow>
     (0 < current \<and> current = m_counter m \<and> pc' = Idle
       \<and> v = m\<lparr>m_counter := swrap w (current - 1), acquired := acquired m + 1, budget := budget m + 1\<rparr>)
     \<or> (0 < current \<and> v = m \<and> pc' = Acquire_cas c (m_counter m))
     \<or> (current \<le> 0 \<and> v = m \<and> pc' = (case c of By_try \<Rightarrow> Idle | By_acquire \<Rightarrow> Acquire_wait))"
  by (auto simp: sem_try_step_def compare_exchange_weak_def)

lemma sem_continues: "continues (sem_code N us) q k \<longleftrightarrow> k = Idle"
  by (auto simp: continues_def elim!: sem_code_cases intro!: exI[of _ "Release_resume 0"])

interpretation sem: accounting "sem_code N us" "\<lambda>_. sem_arguments_ok N d" "sem_init N d" Idle
  "sem_weight N" "sem_balance N d" for N us d
proof unfold_locales
  show "0 \<le> sem_weight N i c" for i c
    by (cases i) (simp_all add: promised_nonneg doomed_nonneg)
  show "sem_weight N i (At Idle) = 0" for i by (cases i) simp_all
  show "sem_balance N d i (sem_init N d) = 0" if "sem_arguments_ok N d" for i
    using that by (cases i) (simp_all add: sem_init_def sem_arguments_ok_def)
  show "sem_weight N i (Resuming (w # ws) k) + sem_weight N i (Suspended pc)
      = sem_weight N i (Resuming ws k) + sem_weight N i (At k')"
    if "sem_code N us pc = Wait_if q pred k'" "continues (sem_code N us) q k"
    for pc q pred k' k i w ws
    using that by (cases i) (auto simp: sem_continues elim!: sem_code_cases)
  show "sem_balance N d i v' - sem_balance N d i v = sem_weight N i c' - sem_weight N i c"
    if m: "moves pc (sem_code N us pc) v c v' c'" and f: "fits (sem_weight N) (sem_balance N d) n v c"
    for n pc v c v' c' i
  proof -
    let ?w = "int_max_value_t N"
    have f': "promised c \<le> smax ?w - m_counter v - budget v" "0 \<le> m_counter v" "0 \<le> budget v"
      "doomed N c \<le> 0"
      using f by (auto simp: fits_def sem_accounts sem_max_def)
    have down: "0 < m_counter v \<Longrightarrow> swrap ?w (m_counter v - 1) = m_counter v - 1"
      using f' promised_nonneg[of c] int_max_value_t_pos[of N] by (intro swrap_nonneg) auto
    have up: "swrap ?w (m_counter v + swrap ?w u) = m_counter v + u"
      if "0 \<le> u" "u \<le> smax ?w - m_counter v - budget v" for u
      using that f' int_max_value_t_pos[of N] by (simp add: swrap_nonneg)
    show ?thesis using m f' down up
      by (cases pc; cases i)
        (auto simp: sem_try_step_iff sem_fetch_add_def Let_def sem_max_def
          split: if_splits sem_caller.splits)
  qed
qed

section \<open>Wake-ups\<close>

text \<open>
  A permit is served by a task that is about to try again, or by a \<open>release\<close> that is about to
  resume as many waiters as it added permits.
\<close>

fun server :: "sem_pc control \<Rightarrow> int" where
  "server (At (Acquire_load c)) = of_bool (c = By_acquire)"
| "server (At (Acquire_cas c current)) = of_bool (c = By_acquire)"
| "server (At Acquire_wait) = 1"
| "server (At (Release_check u prev)) = max 0 u"
| "server (At (Release_resume u)) = max 0 u"
| "server (Suspending pc) = 1"
| "server (Checking pc) = 1"
| "server (Self_resume pc) = 1"
| "server (Resuming ws k) = int (length ws)"
| "server _ = 0"

definition available :: "int \<Rightarrow> int \<Rightarrow> semaphore \<Rightarrow> int" where
  "available N d m = (if sem_arguments_ok N d then m_counter m else 0)"

lemma server_nonneg: "0 \<le> server c"
  by (cases c rule: server.cases) simp_all

interpretation sem_wake: wakeups "sem_code N us" "sem_init N d" Idle "()" "available N d" server
  "\<lambda>n v c. sem_arguments_ok N d \<longrightarrow> fits (sem_weight N) (sem_balance N d) n v c" for N us d
proof unfold_locales
  show "0 \<le> server c" for c by (rule server_nonneg)
  show "available N d v' \<le> 0" if "sem_code N us pc = Wait_if () pred k" "pred v = (v', True)"
    for pc pred k v v'
    using that by (auto simp: available_def elim!: sem_code_cases)
  show "server (Resuming (x # ws) k) + server (Suspended pc) \<le> server (Resuming ws k) + server (At k')"
    if "sem_code N us pc = Wait_if q' pred k'" for pc q' pred k' k x ws
    using that by (auto elim!: sem_code_cases)
  show "sem_arguments_ok N d \<longrightarrow> fits (sem_weight N) (sem_balance N d) n (vars s) (ctl s t)"
    if "reach (sem_code N us) n (sem_start N d) s" "t < n" for n s t
    using sem.reach_fits[of N us n d s t] that by blast
  show "available N d v' \<le> 0 \<or> available N d v' - available N d v \<le> server c' - server c"
    if m: "moves pc (sem_code N us pc) v c v' c'" and dr: "\<not> drains () (sem_code N us pc) c c'"
      and f: "sem_arguments_ok N d \<longrightarrow> fits (sem_weight N) (sem_balance N d) n v c"
    for n pc v c v' c'
  proof (cases "sem_arguments_ok N d")
    case True
    let ?w = "int_max_value_t N"
    have f': "promised c \<le> smax ?w - m_counter v - budget v" "0 \<le> m_counter v" "0 \<le> budget v"
      "doomed N c \<le> 0"
      using f True by (auto simp: fits_def sem_accounts sem_max_def)
    have down: "0 < m_counter v \<Longrightarrow> swrap ?w (m_counter v - 1) = m_counter v - 1"
      using f' promised_nonneg[of c] int_max_value_t_pos[of N] by (intro swrap_nonneg) auto
    have up: "swrap ?w (m_counter v + swrap ?w u) = m_counter v + u"
      if "0 \<le> u" "u \<le> smax ?w - m_counter v - budget v" for u
      using that f' int_max_value_t_pos[of N] by (simp add: swrap_nonneg)
    show ?thesis using m dr f' down up True
      by (cases pc) (auto simp: sem_try_step_iff sem_fetch_add_def Let_def sem_max_def available_def
          split: if_splits sem_caller.splits)
  qed (simp add: available_def)
qed

lemma sem_facts:
  assumes "reach (sem_code N us) n (sem_start N d) s" "sem_arguments_ok N d"
  shows "total promised n (ctl s) = sem_max N - m_counter (vars s) - budget (vars s)"
    and "m_counter (vars s) = d + released (vars s) - acquired (vars s)"
    and "0 \<le> m_counter (vars s)" "0 \<le> budget (vars s)"
proof -
  have z: "total (\<lambda>_. 0) n (ctl s) = 0" by (simp add: total_def)
  note A = sem.accounts_exact[OF assms]
  show "total promised n (ctl s) = sem_max N - m_counter (vars s) - budget (vars s)"
    using A[of Permits] by simp
  show "m_counter (vars s) = d + released (vars s) - acquired (vars s)"
    using A[of Conserved] z by simp
  show "0 \<le> m_counter (vars s)" "0 \<le> budget (vars s)"
    using A[of In_range] z by (auto simp del: of_bool_or_iff)
qed

section \<open>Properties of the counting semaphore\<close>

text \<open>Permits are conserved and the counter never wraps: it is the initial count plus
  the permits released minus those acquired, is never negative (so no more acquisitions succeed
  than there were permits) and leaves room below \<open>max()\<close> for every release under way.\<close>

theorem sem_permits_conserved:
  assumes "reach (sem_code N us) n (sem_start N d) s" "sem_arguments_ok N d"
  shows "m_counter (vars s) = d + released (vars s) - acquired (vars s)
    \<and> acquired (vars s) \<le> d + released (vars s)
    \<and> 0 \<le> m_counter (vars s) \<and> m_counter (vars s) + total promised n (ctl s) \<le> sem_max N"
  using sem_facts[OF assms] by simp

text \<open>Task 0 takes the only permit, task 1 sleeps, task 0 releases two.\<close>

theorem sem_permits_conserved_witness:
  "\<exists>s. reach (sem_code 100 [2]) 2 (sem_start 100 1) s \<and> m_waiters s () = [1] \<and> released (vars s) = 2
     \<and> m_counter (vars s) = 1 + 2 - acquired (vars s) \<and> m_counter (vars s) = 2"
proof -
  have "\<exists>s. reach (sem_code 100 [2]) 2 (sem_start 100 1) s \<and> (m_waiters s () = [1]
      \<and> released (vars s) = 2 \<and> m_counter (vars s) = 2)"
    by (rule run_witness[where sched = "[(0,1),(0,0),(0,0),(1,1),(1,0),(1,0),(1,0),(1,0),(1,0),(1,0),
        (0,2),(0,0),(0,0)]"])
      (simp add: run_simps sem_init_def sem_try_step_def compare_exchange_weak_def sem_fetch_add_def
        swrap_def int_max_value_t_def smax_values sem_max_def)
  then obtain s where "reach (sem_code 100 [2]) 2 (sem_start 100 1) s" "m_waiters s () = [1]"
    "released (vars s) = 2" "m_counter (vars s) = 2" by blast
  with sem_permits_conserved[of 100 "[2]" 2 1 s] show ?thesis
    by (auto simp: sem_arguments_ok_def sem_max_def int_max_value_t_def smax_values)
qed

text \<open>No assertion of the counting semaphore fails for callers that keep the contract of
  \<open>release\<close>: the update is not negative, and it fits above the value that \<open>fetch_add\<close> saw
  even though other tasks acquire and release in between.\<close>

theorem sem_assertions:
  assumes "reach (sem_code N us) n (sem_start N d) s" "sem_arguments_ok N d" "t < n"
  shows "ctl s t \<noteq> At Aborted \<and> (\<forall>u prev. ctl s t = At (Release_check u prev)
    \<longrightarrow> 0 < u \<and> u \<le> sem_max N - prev)"
proof -
  have "doomed N (ctl s t) \<le> 0" using sem.reach_fits[OF assms] by (auto simp: fits_def sem_accounts)
  then show ?thesis by (auto simp: of_bool_def split: if_splits)
qed

theorem sem_assertions_witness:
  "\<exists>s. reach (sem_code 7 [126]) 1 (sem_start 7 1) s \<and> ctl s 0 = At (Release_check 126 1)
     \<and> 126 \<le> sem_max 7 - 1"
proof -
  have "\<exists>s. reach (sem_code 7 [126]) 1 (sem_start 7 1) s \<and> ctl s 0 = At (Release_check 126 1)"
    by (rule run_witness[where sched = "[(0,2),(0,0),(0,0)]"])
      (simp add: run_simps sem_init_def sem_fetch_add_def int_max_value_t_def smax_values sem_max_def)
  then obtain s where "reach (sem_code 7 [126]) 1 (sem_start 7 1) s"
    "ctl s 0 = At (Release_check 126 1)" by blast
  with sem_assertions[of 7 "[126]" 1 1 s 0] show ?thesis
    by (auto simp: sem_arguments_ok_def sem_max_def int_max_value_t_def smax_values)
qed

text \<open>C18. No permit is left unused behind a sleeper: once every task is outside the semaphore or
  asleep in \<open>acquire\<close>, nobody is asleep unless the counter is 0.\<close>

theorem sem_no_lost_wakeup:
  assumes "reach (sem_code N us) n (sem_start N d) s" "sem_arguments_ok N d"
    and "settled n s (\<lambda>pc. pc = Idle)" "m_counter (vars s) \<noteq> 0" "t < n"
  shows "ctl s t = At Idle"
proof -
  have h: "0 < available N d (vars s)"
    using sem_facts(3)[OF assms(1,2)] assms(2,4) by (simp add: available_def)
  have "wait_queue_of (sem_code N us pc) \<noteq> Some ()" if "ctl s t = Suspended pc" for pc
    using sem_wake.nobody_left(2)[OF assms(1,3) _ _ h that] by simp
  then show ?thesis
    using settledD[OF assms(3,5)] settled_asleep_queued[OF reach_wf[OF assms(1)] assms(3), of t]
    by (metis old.unit.exhaust)
qed

text \<open>Two sleepers are served by one release of three permits.\<close>

theorem sem_no_lost_wakeup_witness:
  "\<exists>s. reach (sem_code 100 [3]) 3 (sem_start 100 0) s \<and> acquired (vars s) = 2
     \<and> m_counter (vars s) = 1 \<and> ctl s 1 = At Idle"
proof -
  have "\<exists>s. reach (sem_code 100 [3]) 3 (sem_start 100 0) s \<and> (acquired (vars s) = 2
      \<and> m_counter (vars s) = 1 \<and> settled 3 s (\<lambda>pc. pc = Idle))"
    by (rule run_witness[where sched = "[(1,1),(1,0),(1,0),(1,0),(1,0),(1,0),(1,0),
        (2,1),(2,0),(2,0),(2,0),(2,0),(2,0),(2,0),(0,2),(0,0),(0,0),(0,0),(0,0),(0,0),(0,0),(0,0),
        (1,0),(1,0),(2,0),(2,0)]"])
      (simp add: run_simps sem_init_def sem_try_step_def compare_exchange_weak_def sem_fetch_add_def
        swrap_def int_max_value_t_def smax_values sem_max_def settled_def all_less_small)
  then obtain s where "reach (sem_code 100 [3]) 3 (sem_start 100 0) s" "acquired (vars s) = 2"
    "m_counter (vars s) = 1" "settled 3 s (\<lambda>pc. pc = Idle)" by blast
  with sem_no_lost_wakeup[of 100 "[3]" 3 0 s 1] show ?thesis
    by (auto simp: sem_arguments_ok_def sem_max_def int_max_value_t_def smax_values)
qed

text \<open>\<open>int_max_value_t\<close> picks the narrowest of the four signed types that holds \<open>N\<close>, so \<open>max()\<close> is
  at least \<open>LeastMaxValue\<close>.\<close>

theorem sem_storage_width:
  assumes "N \<le> smax 64"
  shows "N \<le> sem_max N \<and> int_max_value_t N \<in> {8, 16, 32, 64}
    \<and> (\<forall>w\<in>{8, 16, 32, 64}. N \<le> smax w \<longrightarrow> int_max_value_t N \<le> w)"
  using assms by (auto simp: sem_max_def int_max_value_t_def Let_def smax_values)

theorem sem_storage_width_witness:
  "int_max_value_t 128 \<le> 16 \<and> 128 \<le> sem_max 128"
  using sem_storage_width[of 128] by (simp add: smax_values)

end
