(* ===== verification/Binary_Semaphore.thy ===== *)
theory Binary_Semaphore
  imports Accounting
begin

text \<open>
  \<open>binary_semaphore = counting_semaphore<1>\<close> (\<open>include/coopsync_tbb/semaphore.hpp\<close>,
  \<open>src/semaphore.cpp\<close>): the specialisation keeps a single atomic flag. Proved: the flag is
  the number of permits left, the assertion of \<open>release\<close> holds for callers that keep its
  contract, and no task sleeps while the permit is available.
\<close>

section \<open>State and operations\<close>

text \<open>
  \<open>m_available\<close> is the atomic; the counters of acquisitions and releases and \<open>bsem_budget\<close>, the
  number of calls of \<open>release\<close> the contract still allows, are bookkeeping of the callers.
\<close>

record binary_semaphore =
  m_available :: bool
  bsem_acquired :: int
  bsem_released :: int
  bsem_budget :: int

definition bsem_init :: "int \<Rightarrow> binary_semaphore" where
  "bsem_init desired = \<lparr>m_available = (desired \<noteq> 0), bsem_acquired = 0, bsem_released = 0, bsem_budget = 1 - desired\<rparr>"

text \<open>The assertion of the constructor, and \<open>max()\<close>.\<close>

definition bsem_arguments_ok :: "int \<Rightarrow> bool" where
  "bsem_arguments_ok desired \<longleftrightarrow> desired = 0 \<or> desired = 1"

definition bsem_max :: int where
  "bsem_max = 1"

definition bsem_try_acquire :: "binary_semaphore \<Rightarrow> bool \<times> binary_semaphore" where
  "bsem_try_acquire m =
     (let r = compare_exchange_strong True False (m_available m) in
      (fst r, if fst r then m\<lparr>m_available := snd r, bsem_acquired := bsem_acquired m + 1, bsem_budget := bsem_budget m + 1\<rparr>
              else m\<lparr>m_available := snd r\<rparr>))"

datatype bsem_pc =
  Idle | Try_acquire | Acquire | Acquire_wait | Release int | Release_assert | Release_store
  | Release_resume | Aborted

text \<open>
  A caller may call \<open>release u\<close> with a positive \<open>u\<close> of \<open>us\<close> only while the permit is
  neither available nor on its way; \<open>release 0\<close> is always allowed and does nothing.
\<close>

fun bsem_calls :: "int list \<Rightarrow> binary_semaphore \<Rightarrow> (binary_semaphore \<times> bsem_pc) list" where
  "bsem_calls us m = [(m, Try_acquire), (m, Acquire), (m, Release 0)]
     @ (if 1 \<le> bsem_budget m
        then map (\<lambda>u. (m\<lparr>bsem_budget := bsem_budget m - 1\<rparr>, Release u)) (filter (\<lambda>u. 0 < u) us) else [])"

fun bsem_code :: "int list \<Rightarrow> bsem_pc \<Rightarrow> (binary_semaphore, unit, bsem_pc) instr" where
  "bsem_code us Idle = Atomic (bsem_calls us)"
| "bsem_code us Try_acquire = Do (\<lambda>m. (snd (bsem_try_acquire m), Idle))"
| "bsem_code us Acquire =
     Do (\<lambda>m. let r = bsem_try_acquire m in (snd r, if fst r then Idle else Acquire_wait))"
| "bsem_code us Acquire_wait = Wait_if () (\<lambda>m. (m, \<not> m_available m)) Acquire"
| "bsem_code us (Release u) =
     Do (\<lambda>m. (m, if \<not> 0 \<le> u then Aborted else if u = 0 then Idle else Release_assert))"
| "bsem_code us Release_assert = Do (\<lambda>m. (m, if \<not> m_available m then Release_store else Aborted))"
| "bsem_code us Release_store =
     Do (\<lambda>m. (m\<lparr>m_available := True, bsem_released := bsem_released m + 1\<rparr>, Release_resume))"
| "bsem_code us Release_resume = Resume_one () (\<lambda>_. Idle)"
| "bsem_code us Aborted = Halt"

fun_cases bsem_code_cases:
  "bsem_code us pc = Atomic f" "bsem_code us pc = Wait_if q pred k"
  "bsem_code us pc = Resume_one q k'" "bsem_code us pc = Resume_n q m k" "bsem_code us pc = Resume_all q k"

abbreviation bsem_start :: "int \<Rightarrow> (binary_semaphore, unit, bsem_pc) sys" where
  "bsem_start d \<equiv> init_sys (bsem_init d) Idle"

section \<open>The books\<close>

fun bsem_promised :: "bsem_pc control \<Rightarrow> int" where
  "bsem_promised (At (Release u)) = of_bool (0 < u)"
| "bsem_promised (At Release_assert) = 1"
| "bsem_promised (At Release_store) = 1"
| "bsem_promised _ = 0"

fun bsem_doomed :: "bsem_pc control \<Rightarrow> int" where
  "bsem_doomed (At (Release u)) = of_bool (u < 0)"
| "bsem_doomed (At Aborted) = 1"
| "bsem_doomed _ = 0"

datatype bsem_account = Permits | Conserved | In_range | Failures

fun bsem_weight :: "bsem_account \<Rightarrow> bsem_pc control \<Rightarrow> int" where
  "bsem_weight Permits = bsem_promised"
| "bsem_weight Conserved = (\<lambda>_. 0)"
| "bsem_weight In_range = (\<lambda>_. 0)"
| "bsem_weight Failures = bsem_doomed"

fun bsem_balance :: "int \<Rightarrow> bsem_account \<Rightarrow> binary_semaphore \<Rightarrow> int" where
  "bsem_balance d Permits m = 1 - of_bool (m_available m) - bsem_budget m"
| "bsem_balance d Conserved m = of_bool (m_available m) - (d + bsem_released m - bsem_acquired m)"
| "bsem_balance d In_range m = - of_bool (bsem_budget m < 0)"
| "bsem_balance d Failures m = 0"

lemma bsem_accounts: "(\<forall>i. P i) \<longleftrightarrow> P Permits \<and> P Conserved \<and> P In_range \<and> P Failures"
  using bsem_account.exhaust by metis

text \<open>A task that will use the permit, or that will resume somebody who will.\<close>

fun bsem_server :: "bsem_pc control \<Rightarrow> int" where
  "bsem_server (At Acquire) = 1"
| "bsem_server (At Acquire_wait) = 1"
| "bsem_server (At Release_resume) = 1"
| "bsem_server (Suspending pc) = 1"
| "bsem_server (Checking pc) = 1"
| "bsem_server (Self_resume pc) = 1"
| "bsem_server (Resuming ws k) = int (length ws)"
| "bsem_server _ = 0"

lemma bsem_weights_nonneg: "0 \<le> bsem_promised c" "0 \<le> bsem_doomed c" "0 \<le> bsem_server c"
  subgoal by (cases c rule: bsem_promised.cases) simp_all
  subgoal by (cases c rule: bsem_doomed.cases) simp_all
  subgoal by (cases c rule: bsem_server.cases) simp_all
  done

lemma bsem_try_acquire_iff:
  "bsem_try_acquire m = (if m_available m
     then (True, m\<lparr>m_available := False, bsem_acquired := bsem_acquired m + 1, bsem_budget := bsem_budget m + 1\<rparr>)
     else (False, m))"
  by (simp add: bsem_try_acquire_def compare_exchange_strong_def)

lemma bsem_continues: "continues (bsem_code us) q k \<longleftrightarrow> k = Idle"
  by (auto simp: continues_def elim!: bsem_code_cases intro!: exI[of _ Release_resume])

interpretation bsem: accounting "bsem_code us" "\<lambda>_. bsem_arguments_ok d" "bsem_init d" Idle
  bsem_weight "bsem_balance d" for us d
proof unfold_locales
  show "0 \<le> bsem_weight i c" for i c
    by (cases i) (simp_all add: bsem_weights_nonneg)
  show "bsem_weight i (At Idle) = 0" for i by (cases i) simp_all
  show "bsem_balance d i (bsem_init d) = 0" if "bsem_arguments_ok d" for i
    using that by (cases i) (auto simp: bsem_init_def bsem_arguments_ok_def)
  show "bsem_weight i (Resuming (w # ws) k) + bsem_weight i (Suspended pc)
      = bsem_weight i (Resuming ws k) + bsem_weight i (At k')"
    if "bsem_code us pc = Wait_if q pred k'" "continues (bsem_code us) q k"
    for pc q pred k' k i w ws
    using that by (cases i) (auto simp: bsem_continues elim!: bsem_code_cases)
  show "bsem_balance d i v' - bsem_balance d i v = bsem_weight i c' - bsem_weight i c"
    if m: "moves pc (bsem_code us pc) v c v' c'" and f: "fits bsem_weight (bsem_balance d) n v c"
    for n pc v c v' c' i
  proof -
    have f': "bsem_promised c \<le> 1 - of_bool (m_available v) - bsem_budget v" "0 \<le> bsem_budget v" "bsem_doomed c \<le> 0"
      using f by (auto simp: fits_def bsem_accounts)
    show ?thesis using m f'
      by (cases pc; cases i; cases "m_available v") (auto simp: bsem_try_acquire_iff split: if_splits)
  qed
qed

interpretation bsem_wake: wakeups "bsem_code us" "bsem_init d" Idle "()"
  "\<lambda>m. of_bool (m_available m)" bsem_server "\<lambda>_ _ _. True" for us d
proof unfold_locales
  show "0 \<le> bsem_server c" for c by (rule bsem_weights_nonneg)
  show "of_bool (m_available v') \<le> (0::int)"
    if "bsem_code us pc = Wait_if () pred k" "pred v = (v', True)" for pc pred k v v'
    using that by (auto elim!: bsem_code_cases)
  show "bsem_server (Resuming (x # ws) k) + bsem_server (Suspended pc) \<le> bsem_server (Resuming ws k) + bsem_server (At k')"
    if "bsem_code us pc = Wait_if q' pred k'" for pc q' pred k' k x ws
    using that by (auto elim!: bsem_code_cases)
  show "of_bool (m_available v') \<le> (0::int)
      \<or> of_bool (m_available v') - of_bool (m_available v) \<le> bsem_server c' - bsem_server c"
    if "moves pc (bsem_code us pc) v c v' c'" "\<not> drains () (bsem_code us pc) c c'" for pc v c v' c'
    using that by (cases pc) (auto simp: bsem_try_acquire_iff split: if_splits)
qed simp

section \<open>Properties\<close>

text \<open>The binary semaphore holds at most one permit: the flag is the initial permit plus
  releases minus acquisitions, and the assertion of \<open>release\<close> (the permit is not already there)
  never fails for callers that release only what was bsem_acquired.\<close>

theorem bsem_single_permit:
  assumes "reach (bsem_code us) n (bsem_start d) s" "bsem_arguments_ok d" "t < n"
  shows "of_bool (m_available (vars s)) = d + bsem_released (vars s) - bsem_acquired (vars s)
    \<and> bsem_acquired (vars s) \<le> d + bsem_released (vars s) \<and> d + bsem_released (vars s) \<le> bsem_acquired (vars s) + bsem_max
    \<and> ctl s t \<noteq> At Aborted
    \<and> (ctl s t = At Release_assert \<longrightarrow> \<not> m_available (vars s))"
proof -
  have z: "total (\<lambda>_. 0) n (ctl s) = 0" by (simp add: total_def)
  have c: "of_bool (m_available (vars s)) = d + bsem_released (vars s) - bsem_acquired (vars s)"
    using bsem.accounts_exact[OF assms(1,2), of Conserved] z by simp
  have "bsem_promised (ctl s t) \<le> 1 - of_bool (m_available (vars s)) - bsem_budget (vars s)"
    "0 \<le> bsem_budget (vars s)" "bsem_doomed (ctl s t) \<le> 0"
    using bsem.reach_fits[OF assms] by (auto simp: fits_def bsem_accounts)
  with c show ?thesis by (cases "m_available (vars s)") (auto simp: bsem_max_def)
qed

theorem bsem_single_permit_witness:
  "\<exists>s. reach (bsem_code [5]) 1 (bsem_start 0) s \<and> ctl s 0 = At Release_assert
     \<and> \<not> m_available (vars s)"
proof -
  have "\<exists>s. reach (bsem_code [5]) 1 (bsem_start 0) s \<and> ctl s 0 = At Release_assert"
    by (rule run_witness[where sched = "[(0,3),(0,0)]"]) (simp add: run_simps bsem_init_def)
  with bsem_single_permit[of "[5]" 1 0 _ 0] show ?thesis by (auto simp: bsem_arguments_ok_def)
qed

text \<open>C20. Once every task is outside the binary semaphore or asleep in \<open>acquire\<close>, nobody is
  asleep unless the permit is taken.\<close>

theorem bsem_no_lost_wakeup:
  assumes "reach (bsem_code us) n (bsem_start d) s" "settled n s (\<lambda>pc. pc = Idle)"
    and "m_available (vars s)" "t < n"
  shows "ctl s t = At Idle"
proof -
  have h: "0 < (of_bool (m_available (vars s)) :: int)" using assms(3) by simp
  have "wait_queue_of (bsem_code us pc) \<noteq> Some ()" if "ctl s t = Suspended pc" for pc
    using bsem_wake.nobody_left(2)[OF assms(1,2) _ _ h that] by simp
  then show ?thesis
    using settledD[OF assms(2,4)] settled_asleep_queued[OF reach_wf[OF assms(1)] assms(2), of t]
    by (metis old.unit.exhaust)
qed

theorem bsem_no_lost_wakeup_witness:
  "\<exists>s. reach (bsem_code [1]) 2 (bsem_start 0) s \<and> bsem_acquired (vars s) = 1 \<and> bsem_released (vars s) = 2
     \<and> ctl s 1 = At Idle"
proof -
  have "\<exists>s. reach (bsem_code [1]) 2 (bsem_start 0) s \<and> (bsem_acquired (vars s) = 1 \<and> bsem_released (vars s) = 2
      \<and> m_available (vars s) \<and> settled 2 s (\<lambda>pc. pc = Idle))"
    by (rule run_witness[where sched = "[(1,1),(1,0),(1,0),(1,0),(1,0),(1,0),
        (0,3),(0,0),(0,0),(0,0),(0,0),(0,0),(0,0),(1,0),(0,3),(0,0),(0,0),(0,0),(0,0)]"])
      (simp add: run_simps bsem_init_def bsem_try_acquire_iff settled_def all_less_small)
  then obtain s where "reach (bsem_code [1]) 2 (bsem_start 0) s" "bsem_acquired (vars s) = 1"
    "bsem_released (vars s) = 2" "m_available (vars s)" "settled 2 s (\<lambda>pc. pc = Idle)" by blast
  with bsem_no_lost_wakeup[of "[1]" 2 0 s 1] show ?thesis by auto
qed

end
