(* ===== verification/Latch.thy ===== *)
theory Latch
  imports Accounting
begin

text \<open>
  \<open>coopsync_tbb::latch\<close> (\<open>include/coopsync_tbb/latch.hpp\<close>, \<open>src/latch.cpp\<close>): a 64-bit counter
  that callers count down, and a queue of tasks that wait for zero. Proved for any number of
  tasks: the counter is exact, nobody passes \<open>wait\<close> before it is zero, the assertions hold for
  callers that keep the contract of \<open>count_down\<close>, and at zero nobody is left asleep.
\<close>

section \<open>State and operations\<close>

text \<open>
  \<open>latch_counter\<close> is the atomic \<open>m_counter\<close>. \<open>counted\<close>, the total of the updates applied so
  far, and \<open>uncounted\<close>, what the contract still allows to count down, are bookkeeping of
  the callers.
\<close>

record latch =
  latch_counter :: int
  counted :: int
  uncounted :: int

definition latch_max :: int where
  "latch_max = smax 64"

definition latch_init :: "int \<Rightarrow> latch" where
  "latch_init e = \<lparr>latch_counter = e, counted = 0, uncounted = e\<rparr>"

text \<open>The assertions of the constructor.\<close>

definition latch_arguments_ok :: "int \<Rightarrow> bool" where
  "latch_arguments_ok e \<longleftrightarrow> 0 \<le> e \<and> e \<le> latch_max"

definition latch_try_wait :: "latch \<Rightarrow> bool" where
  "latch_try_wait l \<longleftrightarrow> latch_counter l = 0"

definition latch_fetch_sub :: "int \<Rightarrow> latch \<Rightarrow> latch \<times> int" where
  "latch_fetch_sub u l =
     (l\<lparr>latch_counter := swrap 64 (latch_counter l - u), counted := counted l + u\<rparr>, latch_counter l)"

text \<open>
  The flag of a program point inside \<open>count_down\<close> says whether \<open>arrive_and_wait\<close> called it.
  \<open>Passed\<close>: \<open>wait\<close> has returned.
\<close>

datatype latch_pc =
    Idle
  | Try_wait
  | Count_down int bool | Cd_sub int bool | Cd_check int int bool | Cd_resume bool
  | Wait_fast | Wait_sleep | Wait_assert | Passed
  | Aborted

definition after_count_down :: "bool \<Rightarrow> latch_pc" where
  "after_count_down w = (if w then Wait_fast else Idle)"

text \<open>
  A caller may wait, poll, or count down by any \<open>u\<close> of \<open>us\<close> that the contract
  (\<open>update\<close> is at most the current counter) leaves room for.
\<close>

fun latch_calls :: "int list \<Rightarrow> latch \<Rightarrow> (latch \<times> latch_pc) list" where
  "latch_calls us l = [(l, Try_wait), (l, Wait_fast)]
     @ concat (map (\<lambda>u. [(l\<lparr>uncounted := uncounted l - u\<rparr>, Count_down u False),
                         (l\<lparr>uncounted := uncounted l - u\<rparr>, Count_down u True)])
                (filter (\<lambda>u. 0 \<le> u \<and> u \<le> uncounted l) us))"

fun latch_code :: "int list \<Rightarrow> latch_pc \<Rightarrow> (latch, unit, latch_pc) instr" where
  "latch_code us Idle = Atomic (latch_calls us)"
| "latch_code us Try_wait = Do (\<lambda>l. (l, if latch_try_wait l then Passed else Idle))"
| "latch_code us (Count_down u w) = Do (\<lambda>l. (l, if 0 \<le> u then Cd_sub u w else Aborted))"
| "latch_code us (Cd_sub u w) = Do (\<lambda>l. let r = latch_fetch_sub u l in (fst r, Cd_check u (snd r) w))"
| "latch_code us (Cd_check u prev w) =
     Do (\<lambda>l. (l, if \<not> u \<le> prev then Aborted else if prev = u then Cd_resume w else after_count_down w))"
| "latch_code us (Cd_resume w) = Resume_all () (after_count_down w)"
| "latch_code us Wait_fast = Do (\<lambda>l. (l, if \<not> latch_try_wait l then Wait_sleep else Wait_assert))"
| "latch_code us Wait_sleep = Wait_if () (\<lambda>l. (l, \<not> latch_try_wait l)) Wait_assert"
| "latch_code us Wait_assert = Do (\<lambda>l. (l, if latch_counter l = 0 then Passed else Aborted))"
| "latch_code us Passed = Goto [Idle]"
| "latch_code us Aborted = Halt"

fun_cases latch_code_cases:
  "latch_code us pc = Atomic f" "latch_code us pc = Wait_if q pred k"
  "latch_code us pc = Resume_one q k'" "latch_code us pc = Resume_n q m k"
  "latch_code us pc = Resume_all q k"

abbreviation latch_start :: "int \<Rightarrow> (latch, unit, latch_pc) sys" where
  "latch_start e \<equiv> init_sys (latch_init e) Idle"

section \<open>The books\<close>

text \<open>Count-downs that were called and have not reached \<open>fetch_sub\<close>.\<close>

fun underway :: "latch_pc control \<Rightarrow> int" where
  "underway (At (Count_down u w)) = max 0 u"
| "underway (At (Cd_sub u w)) = max 0 u"
| "underway _ = 0"

fun misused :: "latch_pc control \<Rightarrow> int" where
  "misused (At (Count_down u w)) = of_bool (u < 0)"
| "misused (At (Cd_sub u w)) = of_bool (u < 0)"
| "misused _ = 0"

datatype latch_account = Underway | Conserved | In_range | Misuse

fun latch_weight :: "latch_account \<Rightarrow> latch_pc control \<Rightarrow> int" where
  "latch_weight Underway = underway"
| "latch_weight Conserved = (\<lambda>_. 0)"
| "latch_weight In_range = (\<lambda>_. 0)"
| "latch_weight Misuse = misused"

fun latch_balance :: "int \<Rightarrow> latch_account \<Rightarrow> latch \<Rightarrow> int" where
  "latch_balance e Underway l = latch_counter l - uncounted l"
| "latch_balance e Conserved l = latch_counter l - (e - counted l)"
| "latch_balance e In_range l = - of_bool (uncounted l < 0 \<or> latch_max < latch_counter l)"
| "latch_balance e Misuse l = 0"

lemma latch_accounts: "(\<forall>i. P i) \<longleftrightarrow> P Underway \<and> P Conserved \<and> P In_range \<and> P Misuse"
  using latch_account.exhaust by metis

fun opener :: "latch_pc control \<Rightarrow> int" where
  "opener (At (Cd_check u prev w)) = of_bool (prev = u)"
| "opener (At (Cd_resume w)) = 1"
| "opener _ = 0"

lemma latch_weights_nonneg: "0 \<le> underway c" "0 \<le> misused c" "0 \<le> opener c"
  subgoal by (cases c rule: underway.cases) simp_all
  subgoal by (cases c rule: misused.cases) simp_all
  subgoal by (cases c rule: opener.cases) simp_all
  done

lemma latch_weights_Resuming [simp]:
  "underway (Resuming ws k) = 0" "misused (Resuming ws k) = 0" "underway (Suspended pc) = 0"
  "underway (At (after_count_down w)) = 0" "misused (At (after_count_down w)) = 0"
  by (simp_all add: after_count_down_def)

lemma latch_continues: "continues (latch_code us) q k \<Longrightarrow> k = Wait_fast \<or> k = Idle"
  by (auto simp: continues_def after_count_down_def elim!: latch_code_cases split: if_splits)

definition latch_known :: "int \<Rightarrow> nat \<Rightarrow> latch \<Rightarrow> latch_pc control \<Rightarrow> bool" where
  "latch_known e n l c \<longleftrightarrow> (latch_arguments_ok e \<longrightarrow> fits latch_weight (latch_balance e) n l c)"

lemma latch_knownD:
  assumes "latch_known e n l c" "latch_arguments_ok e"
  shows "underway c \<le> latch_counter l - uncounted l" "0 \<le> uncounted l" "0 \<le> latch_counter l"
    "latch_counter l \<le> latch_max" "misused c \<le> 0"
    "0 \<le> u \<Longrightarrow> u \<le> latch_counter l \<Longrightarrow> swrap 64 (latch_counter l - u) = latch_counter l - u"
proof -
  have "\<not> (uncounted l < 0 \<or> latch_max < latch_counter l)"
    using assms by (auto simp: latch_known_def fits_def latch_accounts simp del: of_bool_or_iff)
  then show r: "0 \<le> uncounted l" "latch_counter l \<le> latch_max" by auto
  show u: "underway c \<le> latch_counter l - uncounted l" "misused c \<le> 0"
    using assms by (auto simp: latch_known_def fits_def latch_accounts)
  with r latch_weights_nonneg(1)[of c] show "0 \<le> latch_counter l" by linarith
  show "swrap 64 (latch_counter l - u) = latch_counter l - u" if "0 \<le> u" "u \<le> latch_counter l" for u
    using that r by (intro swrap_nonneg) (auto simp: latch_max_def)
qed

interpretation lat: accounting "latch_code us" "\<lambda>_. latch_arguments_ok e" "latch_init e" Idle
  latch_weight "latch_balance e" for us e
proof unfold_locales
  show "0 \<le> latch_weight i c" for i c
    by (cases i) (simp_all add: latch_weights_nonneg)
  show "latch_weight i (At Idle) = 0" for i by (cases i) simp_all
  show "latch_balance e i (latch_init e) = 0" if "latch_arguments_ok e" for i
    using that by (cases i) (simp_all add: latch_init_def latch_arguments_ok_def)
  show "latch_weight i (Resuming (w # ws) k) + latch_weight i (Suspended pc)
      = latch_weight i (Resuming ws k) + latch_weight i (At k')"
    if "latch_code us pc = Wait_if q pred k'" for pc q pred k' k i w ws
    using that by (cases i) (auto elim!: latch_code_cases)
  show "latch_balance e i v' - latch_balance e i v = latch_weight i c' - latch_weight i c"
    if e: "latch_arguments_ok e" and m: "moves pc (latch_code us pc) v c v' c'"
      and f: "fits latch_weight (latch_balance e) n v c"
    for n pc v c v' c' i
  proof -
    have "latch_known e n v c" using f by (simp add: latch_known_def)
    note f' = latch_knownD[OF this e]
    show ?thesis using m f' latch_weights_nonneg(1)[of c]
      by (cases pc; cases i) (auto simp: latch_fetch_sub_def Let_def split: if_splits)
  qed
qed

section \<open>What a task knows\<close>

text \<open>Once the counter is zero it stays zero, so a task that saw it may rely on it.\<close>

fun latch_at :: "latch \<Rightarrow> latch_pc control \<Rightarrow> bool" where
  "latch_at l (At Wait_assert) \<longleftrightarrow> latch_counter l = 0"
| "latch_at l (At Passed) \<longleftrightarrow> latch_counter l = 0"
| "latch_at l (At (Cd_check u prev w)) \<longleftrightarrow> u \<le> prev \<and> (prev = u \<longrightarrow> latch_counter l = 0)"
| "latch_at l (At (Cd_resume w)) \<longleftrightarrow> latch_counter l = 0"
| "latch_at l (At Aborted) \<longleftrightarrow> False"
| "latch_at l (Self_resume pc) \<longleftrightarrow> latch_counter l = 0"
| "latch_at l (Resuming ws k) \<longleftrightarrow> latch_counter l = 0"
| "latch_at l _ \<longleftrightarrow> True"

lemma latch_at_stable:
  "latch_at l c \<Longrightarrow> (latch_counter l = 0 \<Longrightarrow> latch_counter l' = 0) \<Longrightarrow> latch_at l' c"
  by (cases "(l, c)" rule: latch_at.cases) auto

lemma latch_at_after [simp]: "latch_at l (At (after_count_down w))"
  by (simp add: after_count_down_def)

lemma latch_known_reach:
  "reach (latch_code us) n (latch_start e) s \<Longrightarrow> t < n \<Longrightarrow> latch_known e n (vars s) (ctl s t)"
  using lat.reach_fits[of us n e s t] by (simp add: latch_known_def)

lemma latch_stays_zero:
  assumes "moves pc (latch_code us pc) v c v' c'" "latch_known e n v c" "latch_arguments_ok e"
    and "latch_counter v = 0"
  shows "latch_counter v' = 0"
  using assms(1,4) latch_knownD[OF assms(2,3)]
  by (cases pc) (auto simp: latch_fetch_sub_def Let_def split: if_splits)

interpretation lat_at: assertions "latch_code us" "latch_init e" Idle "latch_known e"
  "\<lambda>_ _ _ _. True" "\<lambda>l c. latch_arguments_ok e \<longrightarrow> latch_at l c" for us e
proof unfold_locales
  show "latch_known e n (vars s) (ctl s t)"
    if "reach (latch_code us) n (latch_start e) s" "t < n" for n s t
    using that by (rule latch_known_reach)
  show "latch_arguments_ok e \<longrightarrow> latch_at v' d"
    if "moves pc (latch_code us pc) v c v' c'" "latch_known e n v c"
      "latch_arguments_ok e \<longrightarrow> latch_at v d" for pc v c v' c' n d
    using that latch_stays_zero[OF that(1,2)] latch_at_stable[of v d v'] by blast
  show "latch_arguments_ok e \<longrightarrow> latch_at v' c'"
    if m: "moves pc (latch_code us pc) v c v' c'" and k: "latch_known e n v c"
      and a: "latch_arguments_ok e \<longrightarrow> latch_at v c" for pc v c v' c' n
  proof
    assume e: "latch_arguments_ok e"
    show "latch_at v' c'" using m a e latch_knownD[OF k e]
      by (cases pc) (auto simp: latch_fetch_sub_def latch_try_wait_def Let_def split: if_splits)
  qed
  show "(latch_arguments_ok e \<longrightarrow> latch_at v (Resuming ws k)) \<and> (latch_arguments_ok e \<longrightarrow> latch_at v (At k'))"
    if "latch_code us pc = Wait_if q pred k'" "latch_arguments_ok e \<longrightarrow> latch_at v (Resuming (x # ws) k)"
    for pc q pred k' k v x ws
    using that by (auto elim!: latch_code_cases)
qed simp_all

definition latch_open :: "int \<Rightarrow> latch \<Rightarrow> int" where
  "latch_open e l = of_bool (latch_arguments_ok e \<and> latch_counter l = 0)"

interpretation lat_wake: wakeups "latch_code us" "latch_init e" Idle "()" "latch_open e" opener
  "latch_known e" for us e
proof unfold_locales
  show "0 \<le> opener c" for c by (rule latch_weights_nonneg)
  show "latch_known e n (vars s) (ctl s t)"
    if "reach (latch_code us) n (latch_start e) s" "t < n" for n s t
    using that by (rule latch_known_reach)
  show "latch_open e v' \<le> 0" if "latch_code us pc = Wait_if () pred k" "pred v = (v', True)"
    for pc pred k v v'
    using that by (auto simp: latch_open_def latch_try_wait_def elim!: latch_code_cases)
  show "opener (Resuming (x # ws) k) + opener (Suspended pc) \<le> opener (Resuming ws k) + opener (At k')"
    if "latch_code us pc = Wait_if q' pred k'" for pc q' pred k' k x ws
    using that by (auto elim!: latch_code_cases)
  show "latch_open e v' \<le> 0 \<or> latch_open e v' - latch_open e v \<le> opener c' - opener c"
    if m: "moves pc (latch_code us pc) v c v' c'" and dr: "\<not> drains () (latch_code us pc) c c'"
      and k: "latch_known e n v c" for n pc v c v' c'
  proof (cases "latch_arguments_ok e")
    case True
    show ?thesis using m dr latch_knownD[OF k True] latch_weights_nonneg(3)[of c']
      by (cases pc) (auto simp: latch_fetch_sub_def Let_def latch_open_def split: if_splits)
  qed (simp add: latch_open_def)
qed

section \<open>Properties\<close>

text \<open>The counter is exact: it is the initial count minus everything counted down, stays within
  64 bits and never falls below zero.\<close>

theorem latch_count_exact:
  assumes "reach (latch_code us) n (latch_start e) s" "latch_arguments_ok e"
  shows "latch_counter (vars s) = e - counted (vars s)
    \<and> 0 \<le> uncounted (vars s) \<and> uncounted (vars s) \<le> latch_counter (vars s)
    \<and> latch_counter (vars s) \<le> latch_max"
proof -
  have z: "total (\<lambda>_. 0) n (ctl s) = 0" by (simp add: total_def)
  have "0 \<le> total underway n (ctl s)" by (rule total_nonneg[OF latch_weights_nonneg(1)])
  with lat.accounts_exact[OF assms, of Conserved] lat.accounts_exact[OF assms, of Underway]
    lat.accounts_exact[OF assms, of In_range] z
  show ?thesis by (auto simp del: of_bool_or_iff)
qed

theorem latch_count_exact_witness:
  "\<exists>s. reach (latch_code [2]) 1 (latch_start 5) s \<and> counted (vars s) = 2 \<and> latch_counter (vars s) = 3"
proof -
  have "\<exists>s. reach (latch_code [2]) 1 (latch_start 5) s \<and> counted (vars s) = 2"
    by (rule run_witness[where sched = "[(0,2),(0,0),(0,0)]"])
      (simp add: run_simps latch_init_def latch_fetch_sub_def Let_def)
  with latch_count_exact[of "[2]" 1 5] show ?thesis
    by (force simp: latch_arguments_ok_def latch_max_def smax_values)
qed

text \<open>Nobody passes the latch early: when \<open>wait\<close> has returned, or \<open>try_wait\<close> has said true,
  or a sleeper is being resumed, the counter is zero; and no assertion of \<open>count_down\<close> or
  \<open>wait\<close> fails.\<close>

theorem latch_passes_at_zero:
  assumes "reach (latch_code us) n (latch_start e) s" "latch_arguments_ok e" "t < n"
  shows "ctl s t \<noteq> At Aborted
    \<and> (ctl s t \<in> {At Passed, At Wait_assert} \<or> (\<exists>ws k. ctl s t = Resuming ws k)
        \<longrightarrow> latch_counter (vars s) = 0)"
  using lat_at.assertion_holds[OF assms(1,3)] assms(2) by auto

text \<open>Task 1 slept until task 0 counted the latch down to zero.\<close>

theorem latch_passes_at_zero_witness:
  "\<exists>s. reach (latch_code [2]) 2 (latch_start 2) s \<and> ctl s 1 = At Passed \<and> latch_counter (vars s) = 0"
proof -
  have "\<exists>s. reach (latch_code [2]) 2 (latch_start 2) s \<and> ctl s 1 = At Passed"
    by (rule run_witness[where sched = "[(1,1),(1,0),(1,0),(1,0),(1,0),(1,0),
        (0,2),(0,0),(0,0),(0,0),(0,0),(0,0),(1,0)]"])
      (simp add: run_simps latch_init_def latch_fetch_sub_def latch_try_wait_def Let_def
        swrap_def after_count_down_def)
  then obtain s where "reach (latch_code [2]) 2 (latch_start 2) s" "ctl s 1 = At Passed" by blast
  with latch_passes_at_zero[of "[2]" 2 2 s 1] show ?thesis
    by (auto simp: latch_arguments_ok_def latch_max_def smax_values)
qed

text \<open>The latch releases everybody: once all tasks are outside or asleep in \<open>wait\<close> and the
  counter is zero, nobody is asleep.\<close>

theorem latch_releases_all:
  assumes "reach (latch_code us) n (latch_start e) s" "latch_arguments_ok e"
    and "settled n s (\<lambda>pc. pc \<in> {Idle, Passed})" "latch_counter (vars s) = 0" "t < n"
  shows "ctl s t \<in> {At Idle, At Passed}"
proof -
  have h: "0 < latch_open e (vars s)" using assms(2,4) by (simp add: latch_open_def)
  have o: "opener (At pc) = 0" if "pc \<in> {Idle, Passed}" for pc using that by auto
  have "wait_queue_of (latch_code us pc) \<noteq> Some ()" if "ctl s t = Suspended pc" for pc
    using lat_wake.nobody_left(2)[OF assms(1,3) o _ h that] by simp
  then have "\<not> (\<exists>pc. ctl s t = Suspended pc)"
    using settled_asleep_queued[OF reach_wf[OF assms(1)] assms(3), of t] by (metis old.unit.exhaust)
  then show ?thesis using settledD[OF assms(3,5)] by blast
qed

theorem latch_releases_all_witness:
  "\<exists>s. reach (latch_code [2]) 3 (latch_start 2) s \<and> latch_counter (vars s) = 0
     \<and> ctl s 1 \<in> {At Idle, At Passed}"
proof -
  have "\<exists>s. reach (latch_code [2]) 3 (latch_start 2) s \<and> (latch_counter (vars s) = 0
      \<and> settled 3 s (\<lambda>pc. pc \<in> {Idle, Passed}))"
    by (rule run_witness[where sched = "[(1,1),(1,0),(1,0),(1,0),(1,0),(1,0),
        (2,1),(2,0),(2,0),(2,0),(2,0),(2,0),
        (0,2),(0,0),(0,0),(0,0),(0,0),(0,0),(0,0),(0,0),(1,0),(2,0)]"])
      (simp add: run_simps latch_init_def latch_fetch_sub_def latch_try_wait_def Let_def
        swrap_def after_count_down_def settled_def all_less_small)
  then obtain s where "reach (latch_code [2]) 3 (latch_start 2) s" "latch_counter (vars s) = 0"
    "settled 3 s (\<lambda>pc. pc \<in> {Idle, Passed})" by blast
  with latch_releases_all[of "[2]" 3 2 s 1] show ?thesis
    by (auto simp: latch_arguments_ok_def latch_max_def smax_values)
qed

end
