(* ===== verification/Barrier.thy ===== *)
theory Barrier
  imports Accounting
begin

text \<open>
  \<open>coopsync_tbb::barrier\<close> (\<open>include/coopsync_tbb/barrier.hpp\<close>): two 64-bit counters, an 8-bit
  phase that wraps, and a queue. Proved of one phase that starts with nobody inside: the
  completion function runs exactly once, after the last arrival and before anybody passes; nobody is
  left asleep; the counter is reset to the count that takes the drops into account.
  Three defects of reuse are replayed: a resumption meant for one phase can release a waiter of
  the next, the token of phase 255 fails an assertion, and \<open>arrive(0)\<close> next to the
  last arrival completes the phase twice.
\<close>

section \<open>State and operations\<close>

text \<open>
  The first three fields are the atomics. \<open>completions\<close> counts the calls of \<open>m_completion\<close>;
  \<open>arrived\<close> (total of the updates applied), \<open>dropped\<close>, \<open>drop_calls\<close> (drops applied and called)
  and \<open>bar_budget\<close> (what the contract of \<open>arrive\<close> still allows in this phase) are
  bookkeeping of the callers.
\<close>

record barrier =
  m_initial_expected :: int
  m_expected :: int
  m_phase :: "8 word"
  completions :: int
  arrived :: int
  dropped :: int
  drop_calls :: int
  bar_budget :: int

definition bar_max :: int where
  "bar_max = smax 64"

text \<open>\<open>bar_state e p\<close>: the barrier at phase \<open>p\<close> with nobody inside and \<open>e\<close> participants. The
  constructor gives phase 0.\<close>

definition bar_state :: "int \<Rightarrow> 8 word \<Rightarrow> barrier" where
  "bar_state e p = \<lparr>m_initial_expected = e, m_expected = e, m_phase = p, completions = 0,
     arrived = 0, dropped = 0, drop_calls = 0, bar_budget = e\<rparr>"

definition bar_init :: "int \<Rightarrow> barrier" where
  "bar_init e = bar_state e 0"

text \<open>What the caller does with the token: keep it, or wait for it (\<open>arrive_and_wait\<close>).\<close>

datatype bar_next = Keep | Then_wait

text \<open>\<open>Token p\<close>: the caller holds the token of phase \<open>p\<close>; \<open>Passed p\<close>: its \<open>wait\<close> has returned.\<close>

datatype bar_pc =
    Idle
  | Drop | Drop_check int
  | Arrive int bar_next | Arr_load int bar_next | Arr_sub int "8 word" bar_next
  | Arr_check int "8 word" int bar_next
  | Complete "8 word" bar_next | Load_next "8 word" bar_next
  | Store_expected int "8 word" bar_next | Store_phase "8 word" bar_next | Wake "8 word" bar_next
  | Token "8 word" | Wait_fast "8 word" | Wait_sleep "8 word" | Passed "8 word"
  | Aborted

definition after_arrive :: "8 word \<Rightarrow> bar_next \<Rightarrow> bar_pc" where
  "after_arrive p k = (case k of Keep \<Rightarrow> Token p | Then_wait \<Rightarrow> Wait_fast p)"

definition bar_fetch_sub :: "int \<Rightarrow> barrier \<Rightarrow> barrier \<times> int" where
  "bar_fetch_sub u b =
     (b\<lparr>m_expected := swrap 64 (m_expected b - u), arrived := arrived b + u\<rparr>, m_expected b)"

definition bar_drop :: "barrier \<Rightarrow> barrier \<times> int" where
  "bar_drop b = (b\<lparr>m_initial_expected := swrap 64 (m_initial_expected b - 1), dropped := dropped b + 1\<rparr>,
     m_initial_expected b)"

text \<open>
  The comparison of \<open>wait\<close>: \<open>current_phase - 1\<close> is computed in \<open>int\<close>, after integer promotion,
  and the token is promoted too.
\<close>

definition bar_is_previous :: "8 word \<Rightarrow> 8 word \<Rightarrow> bool" where
  "bar_is_previous token current \<longleftrightarrow> uint token = uint current - 1"

text \<open>
  The calls of a phase: \<open>arrive u\<close>, \<open>arrive_and_wait\<close> and \<open>arrive_and_drop\<close>, for updates
  \<open>u\<close> of \<open>us\<close> that fit the expected count. With \<open>again\<close>, a task that has passed comes back
  for the next phase; its arrival is then not limited by the budget of the first one.
\<close>

definition bar_calls :: "bool \<Rightarrow> int list \<Rightarrow> barrier \<Rightarrow> (barrier \<times> bar_pc) list" where
  "bar_calls again us b =
     (let spend = (\<lambda>u. b\<lparr>bar_budget := bar_budget b - u\<rparr>);
          ok = (\<lambda>u. again \<or> u \<le> bar_budget b) in
      (if ok 1 then [(spend 1, Arrive 1 Then_wait)] else [])
      @ map (\<lambda>u. (spend u, Arrive u Keep)) (filter ok us)
      @ (if ok 1
         then [((spend 1)\<lparr>drop_calls := drop_calls b + 1\<rparr>, Drop)] else []))"

fun bar_code :: "bool \<Rightarrow> int list \<Rightarrow> bar_pc \<Rightarrow> (barrier, unit, bar_pc) instr" where
  "bar_code ag us Idle = Atomic (bar_calls ag us)"
| "bar_code ag us Drop = Do (\<lambda>b. let r = bar_drop b in (fst r, Drop_check (snd r)))"
| "bar_code ag us (Drop_check prev) = Do (\<lambda>b. (b, if 0 < prev then Arrive 1 Keep else Aborted))"
| "bar_code ag us (Arrive u k) = Do (\<lambda>b. (b, if 0 \<le> u then Arr_load u k else Aborted))"
| "bar_code ag us (Arr_load u k) = Do (\<lambda>b. (b, Arr_sub u (m_phase b) k))"
| "bar_code ag us (Arr_sub u p k) =
     Do (\<lambda>b. let r = bar_fetch_sub u b in (fst r, Arr_check u p (snd r) k))"
| "bar_code ag us (Arr_check u p prev k) =
     Do (\<lambda>b. (b, if \<not> 0 \<le> prev then Aborted else if prev = u then Complete p k else after_arrive p k))"
| "bar_code ag us (Complete p k) = Do (\<lambda>b. (b\<lparr>completions := completions b + 1\<rparr>, Load_next p k))"
| "bar_code ag us (Load_next p k) = Do (\<lambda>b. (b, Store_expected (m_initial_expected b) p k))"
| "bar_code ag us (Store_expected x p k) = Do (\<lambda>b. (b\<lparr>m_expected := x\<rparr>, Store_phase p k))"
| "bar_code ag us (Store_phase p k) = Do (\<lambda>b. (b\<lparr>m_phase := p + 1\<rparr>, Wake p k))"
| "bar_code ag us (Wake p k) = Resume_all () (after_arrive p k)"
| "bar_code ag us (Token p) = Goto [Wait_fast p, Idle]"
| "bar_code ag us (Wait_fast p) =
     Do (\<lambda>b. (b, if bar_is_previous p (m_phase b) then Passed p
                else if p = m_phase b then Wait_sleep p else Aborted))"
| "bar_code ag us (Wait_sleep p) = Wait_if () (\<lambda>b. (b, m_phase b = p)) (Passed p)"
| "bar_code ag us (Passed p) = Goto [Idle]"
| "bar_code ag us Aborted = Halt"

fun_cases bar_code_cases:
  "bar_code ag us pc = Atomic f" "bar_code ag us pc = Wait_if q pred k"
  "bar_code ag us pc = Resume_one q k'" "bar_code ag us pc = Resume_n q m k"
  "bar_code ag us pc = Resume_all q k"

abbreviation bar_start :: "int \<Rightarrow> 8 word \<Rightarrow> (barrier, unit, bar_pc) sys" where
  "bar_start e p \<equiv> init_sys (bar_state e p) Idle"

section \<open>One phase: the books\<close>

text \<open>
  The contract: at least one participant, the count in range, updates of at least 1,
  and a phase other than 255 (see \<open>barrier_wrap_abort\<close>).
\<close>

definition bar_ok :: "int \<Rightarrow> 8 word \<Rightarrow> int list \<Rightarrow> bool" where
  "bar_ok e p us \<longleftrightarrow> 0 < e \<and> e \<le> bar_max \<and> uint p < 255 \<and> (\<forall>u\<in>set us. 1 \<le> u)"

text \<open>Arrivals that were called and not counted yet; drops among them that were not applied yet.\<close>

fun arriving :: "bar_pc control \<Rightarrow> int" where
  "arriving (At Drop) = 1"
| "arriving (At (Drop_check prev)) = 1"
| "arriving (At (Arrive u k)) = max 1 u"
| "arriving (At (Arr_load u k)) = max 1 u"
| "arriving (At (Arr_sub u p k)) = max 1 u"
| "arriving _ = 0"

fun dropping :: "bar_pc control \<Rightarrow> int" where
  "dropping (At Drop) = 1"
| "dropping _ = 0"

text \<open>The task that made the last arrival: until it stores the next phase, and until it has run the
  completion function.\<close>

fun completer :: "bar_pc control \<Rightarrow> int" where
  "completer (At (Arr_check u p prev k)) = of_bool (prev = u)"
| "completer (At (Complete p k)) = 1"
| "completer (At (Load_next p k)) = 1"
| "completer (At (Store_expected x p k)) = 1"
| "completer (At (Store_phase p k)) = 1"
| "completer _ = 0"

fun uncompleted :: "bar_pc control \<Rightarrow> int" where
  "uncompleted (At (Arr_check u p prev k)) = of_bool (prev = u)"
| "uncompleted (At (Complete p k)) = 1"
| "uncompleted _ = 0"

text \<open>Local values that would break the contract or an assertion: the token of another phase, an
  update below 1, a previous value below the update.\<close>

fun token_of :: "bar_pc \<Rightarrow> 8 word option" where
  "token_of (Arr_sub u p k) = Some p"
| "token_of (Arr_check u p prev k) = Some p"
| "token_of (Complete p k) = Some p"
| "token_of (Load_next p k) = Some p"
| "token_of (Store_expected x p k) = Some p"
| "token_of (Store_phase p k) = Some p"
| "token_of (Wake p k) = Some p"
| "token_of (Token p) = Some p"
| "token_of (Wait_fast p) = Some p"
| "token_of (Wait_sleep p) = Some p"
| "token_of (Passed p) = Some p"
| "token_of _ = None"

fun ill_valued :: "bar_pc \<Rightarrow> int" where
  "ill_valued (Drop_check prev) = of_bool (prev \<le> 0)"
| "ill_valued (Arrive u k) = of_bool (u < 1)"
| "ill_valued (Arr_load u k) = of_bool (u < 1)"
| "ill_valued (Arr_sub u p k) = of_bool (u < 1)"
| "ill_valued (Arr_check u p prev k) = of_bool (prev < u) + of_bool (u < 1)"
| "ill_valued Aborted = 1"
| "ill_valued _ = 0"

definition misplaced :: "8 word \<Rightarrow> bar_pc control \<Rightarrow> int" where
  "misplaced p c = (case token_of (pc_of c) of None \<Rightarrow> 0 | Some p' \<Rightarrow> of_bool (p' \<noteq> p))
     + ill_valued (pc_of c)"

datatype bar_account =
  Arriving | Dropping | Completer | Runs | Misplaced | Open_phase | Phases

fun bar_weight :: "8 word \<Rightarrow> bar_account \<Rightarrow> bar_pc control \<Rightarrow> int" where
  "bar_weight p Arriving = arriving"
| "bar_weight p Dropping = dropping"
| "bar_weight p Completer = completer"
| "bar_weight p Runs = uncompleted"
| "bar_weight p Misplaced = misplaced p"
| "bar_weight p Open_phase = (\<lambda>_. 0)"
| "bar_weight p Phases = (\<lambda>_. 0)"

text \<open>\<open>Open_phase\<close>: until the last arrival the phase stands and the counter is what is left to arrive.\<close>

fun bar_balance :: "int \<Rightarrow> 8 word \<Rightarrow> bar_account \<Rightarrow> barrier \<Rightarrow> int" where
  "bar_balance e p Arriving b = e - arrived b - bar_budget b"
| "bar_balance e p Dropping b = drop_calls b - dropped b"
| "bar_balance e p Completer b = of_bool (arrived b = e \<and> m_phase b = p)"
| "bar_balance e p Runs b = of_bool (arrived b = e) - completions b"
| "bar_balance e p Misplaced b = 0"
| "bar_balance e p Open_phase b =
     - of_bool (arrived b < e \<and> (m_phase b \<noteq> p \<or> m_expected b \<noteq> e - arrived b))"
| "bar_balance e p Phases b =
     - of_bool (\<not> (m_phase b = p \<or> m_phase b = p + 1) \<or> bar_budget b < 0 \<or> arrived b < 0
         \<or> e - bar_budget b < drop_calls b \<or> m_initial_expected b \<noteq> e - dropped b \<or> dropped b < 0)"

lemma bar_accounts: "(\<forall>i. P i) \<longleftrightarrow> P Arriving \<and> P Dropping \<and> P Completer \<and> P Runs \<and> P Misplaced
    \<and> P Open_phase \<and> P Phases"
  using bar_account.exhaust by metis

lemma bar_weights_nonneg: "0 \<le> arriving c" "0 \<le> dropping c" "0 \<le> completer c" "0 \<le> uncompleted c"
    "0 \<le> ill_valued pc" "0 \<le> misplaced p c"
proof -
  show i: "0 \<le> ill_valued pc" for pc by (cases pc rule: ill_valued.cases) simp_all
  show "0 \<le> misplaced p c" using i[of "pc_of c"] by (simp add: misplaced_def split: option.splits)
  show "0 \<le> arriving c" by (cases c rule: arriving.cases) simp_all
  show "0 \<le> dropping c" by (cases c rule: dropping.cases) simp_all
  show "0 \<le> completer c" by (cases c rule: completer.cases) simp_all
  show "0 \<le> uncompleted c" by (cases c rule: uncompleted.cases) simp_all
qed

lemma after_arrive_simps [simp]:
  "arriving (At (after_arrive p k)) = 0" "dropping (At (after_arrive p k)) = 0"
  "completer (At (after_arrive p k)) = 0" "uncompleted (At (after_arrive p k)) = 0"
  "token_of (after_arrive p k) = Some p" "ill_valued (after_arrive p k) = 0"
  by (cases k; simp add: after_arrive_def)+

definition bar_known :: "int \<Rightarrow> 8 word \<Rightarrow> int list \<Rightarrow> nat \<Rightarrow> barrier \<Rightarrow> bar_pc control \<Rightarrow> bool" where
  "bar_known e p us n b c \<longleftrightarrow> (bar_ok e p us \<longrightarrow> fits (bar_weight p) (bar_balance e p) n b c)"

lemma bar_knownD:
  assumes "bar_known e p us n b c" "bar_ok e p us"
  shows "arriving c \<le> e - arrived b - bar_budget b" "dropping c \<le> drop_calls b - dropped b"
    "completer c \<le> of_bool (arrived b = e \<and> m_phase b = p)"
    "uncompleted c \<le> of_bool (arrived b = e) - completions b"
    "token_of (pc_of c) = Some p' \<Longrightarrow> p' = p" "ill_valued (pc_of c) = 0"
    "arrived b < e \<Longrightarrow> m_phase b = p \<and> m_expected b = e - arrived b"
    "m_phase b = p \<or> m_phase b = p + 1" "0 \<le> bar_budget b" "0 \<le> arrived b"
    "drop_calls b \<le> e - bar_budget b" "m_initial_expected b = e - dropped b" "0 \<le> dropped b"
    "0 < e" "e \<le> bar_max" "uint p < 255"
proof -
  have F: "f \<le> bar_balance e p i b" if "bar_weight p i c = f" for i f
    using assms that by (auto simp: bar_known_def fits_def)
  show "arriving c \<le> e - arrived b - bar_budget b" "dropping c \<le> drop_calls b - dropped b"
    "completer c \<le> of_bool (arrived b = e \<and> m_phase b = p)"
    "uncompleted c \<le> of_bool (arrived b = e) - completions b"
    using F[of Arriving] F[of Dropping] F[of Completer] F[of Runs] by simp_all
  have "misplaced p c \<le> 0" using F[of Misplaced] by simp
  then have m: "(case token_of (pc_of c) of None \<Rightarrow> 0 | Some p' \<Rightarrow> of_bool (p' \<noteq> p))
      + ill_valued (pc_of c) \<le> (0::int)"
    by (simp add: misplaced_def)
  then show "ill_valued (pc_of c) = 0"
    using bar_weights_nonneg(5)[of "pc_of c"] by (simp add: of_bool_def split: option.splits if_splits)
  with m show "token_of (pc_of c) = Some p' \<Longrightarrow> p' = p" by (auto simp: of_bool_def split: if_splits)
  show "arrived b < e \<Longrightarrow> m_phase b = p \<and> m_expected b = e - arrived b"
    using F[of Open_phase] by (auto simp del: of_bool_or_iff of_bool_conj)
  have "\<not> (\<not> (m_phase b = p \<or> m_phase b = p + 1) \<or> bar_budget b < 0 \<or> arrived b < 0
         \<or> e - bar_budget b < drop_calls b \<or> m_initial_expected b \<noteq> e - dropped b \<or> dropped b < 0)"
    using F[of Phases] by (simp del: of_bool_or_iff de_Morgan_disj)
  then show "m_phase b = p \<or> m_phase b = p + 1" "0 \<le> bar_budget b" "0 \<le> arrived b"
    "drop_calls b \<le> e - bar_budget b" "m_initial_expected b = e - dropped b" "0 \<le> dropped b" by auto
  show "0 < e" "e \<le> bar_max" "uint p < 255" using assms(2) by (auto simp: bar_ok_def)
qed

lemma next_phase:
  fixes p :: "8 word"
  assumes "uint p < 255"
  shows "uint (p + 1) = uint p + 1" "p + 1 \<noteq> p" "bar_is_previous p (p + 1)"
proof -
  show u: "uint (p + 1) = uint p + 1"
    using assms by (subst uint_plus_if') simp
  then show "p + 1 \<noteq> p" "bar_is_previous p (p + 1)" by (auto simp: bar_is_previous_def)
qed

lemma bar_continues: "continues (bar_code ag us) q k \<Longrightarrow> \<exists>p c. k = after_arrive p c"
  by (auto simp: continues_def elim!: bar_code_cases)

lemma bar_calls_iff:
  "(b', pc) \<in> set (bar_calls False us b) \<longleftrightarrow>
     (1 \<le> bar_budget b \<and> b' = b\<lparr>bar_budget := bar_budget b - 1\<rparr> \<and> pc = Arrive 1 Then_wait)
     \<or> (\<exists>u\<in>set us. u \<le> bar_budget b \<and> b' = b\<lparr>bar_budget := bar_budget b - u\<rparr> \<and> pc = Arrive u Keep)
     \<or> (1 \<le> bar_budget b \<and> pc = Drop
        \<and> b' = b\<lparr>bar_budget := bar_budget b - 1, drop_calls := drop_calls b + 1\<rparr>)"
  by (auto simp: bar_calls_def Let_def)

text \<open>Every move keeps every account. The calls, the drop and the arrival change the counters, the last
  arrival's stores the phase; the other points only test local values.\<close>

definition bar_keeps :: "int \<Rightarrow> 8 word \<Rightarrow> barrier \<Rightarrow> bar_pc control \<Rightarrow> barrier \<Rightarrow> bar_pc control \<Rightarrow> bool" where
  "bar_keeps e p v c v' c' \<longleftrightarrow>
     (\<forall>i. bar_balance e p i v' - bar_balance e p i v = bar_weight p i c' - bar_weight p i c)"

lemmas bar_keepsI = bar_keeps_def bar_accounts misplaced_def

lemma bar_keeps_same:
  "bar_keeps e p v c v c' \<longleftrightarrow> arriving c' = arriving c \<and> dropping c' = dropping c
     \<and> completer c' = completer c \<and> uncompleted c' = uncompleted c \<and> misplaced p c' = misplaced p c"
  by (auto simp: bar_keeps_def bar_accounts)

lemma bar_call_keeps:
  assumes "bar_known e p us n v (At Idle)" "bar_ok e p us" "(v', pc') \<in> set (bar_calls False us v)"
  shows "bar_keeps e p v (At Idle) v' (At pc')"
proof -
  note K = bar_knownD[OF assms(1,2)]
  have "1 \<le> u" if "u \<in> set us" for u using that assms(2) by (auto simp: bar_ok_def)
  with assms(3) consider
      (arrive) u x where "1 \<le> u" "u \<le> bar_budget v" "v' = v\<lparr>bar_budget := bar_budget v - u\<rparr>" "pc' = Arrive u x"
    | (drop) "1 \<le> bar_budget v" "pc' = Drop"
        "v' = v\<lparr>bar_budget := bar_budget v - 1, drop_calls := drop_calls v + 1\<rparr>"
    by (auto simp: bar_calls_iff)
  then show ?thesis
    by cases (use K(11) in \<open>auto simp: bar_keepsI\<close>)
qed

lemma bar_swrap:
  "bar_ok e p us \<Longrightarrow> 0 \<le> x - u \<Longrightarrow> x \<le> e \<Longrightarrow> 0 \<le> u \<Longrightarrow> swrap 64 (x - u) = x - u"
  by (intro swrap_nonneg) (auto simp: bar_ok_def bar_max_def)

lemma bar_drop_keeps:
  assumes k: "bar_known e p us n v (At Drop)" and ok: "bar_ok e p us"
  shows "bar_keeps e p v (At Drop) (fst (bar_drop v)) (At (Drop_check (snd (bar_drop v))))"
proof -
  note K = bar_knownD[OF k ok]
  from K(2,9,11-13) have "1 \<le> m_initial_expected v" "m_initial_expected v \<le> e" by auto
  with K(12,13) bar_swrap[OF ok, of "m_initial_expected v" 1] show ?thesis
    by (auto simp: bar_drop_def bar_keepsI)
qed

lemma bar_arrive_keeps:
  assumes k: "bar_known e p us n v (At (Arr_sub u p' x))" and ok: "bar_ok e p us"
  shows "bar_keeps e p v (At (Arr_sub u p' x)) (fst (bar_fetch_sub u v))
    (At (Arr_check u p' (snd (bar_fetch_sub u v)) x))"
proof -
  note K = bar_knownD[OF k ok]
  from K(1,6,7,9) have "arrived v < e" "m_phase v = p" "m_expected v = e - arrived v" "1 \<le> u" "arrived v + u \<le> e"
    by (auto split: if_splits)
  with K(5,10) bar_swrap[OF ok, of "m_expected v" u] show ?thesis by (auto simp: bar_fetch_sub_def bar_keepsI)
qed

lemma bar_store_phase_keeps:
  assumes k: "bar_known e p us n v (At (Store_phase p' x))" and ok: "bar_ok e p us"
  shows "bar_keeps e p v (At (Store_phase p' x)) (v\<lparr>m_phase := p' + 1\<rparr>) (At (Wake p' x))"
proof -
  note K = bar_knownD[OF k ok]
  from K(3,5) have "arrived v = e" "m_phase v = p" "p' = p" by (auto split: if_splits)
  with next_phase(2)[OF K(16)] show ?thesis by (simp add: bar_keepsI)
qed

lemma bar_wait_keeps:
  assumes k: "bar_known e p us n v (At (Wait_fast p'))" and ok: "bar_ok e p us"
  shows "bar_keeps e p v (At (Wait_fast p')) v
    (At (if bar_is_previous p' (m_phase v) then Passed p' else if p' = m_phase v then Wait_sleep p' else Aborted))"
proof -
  note K = bar_knownD[OF k ok]
  from K(5,8) next_phase(3)[OF K(16)] show ?thesis by (auto simp: bar_keepsI)
qed

lemma bar_move_keeps:
  assumes m: "moves pc (bar_code False us pc) v c v' c'" and k: "bar_known e p us n v c" and ok: "bar_ok e p us"
  shows "bar_keeps e p v c v' c'"
proof (cases pc)
  case Idle
  with m k bar_call_keeps[OF _ ok] show ?thesis by auto
next
  case Drop
  with m k bar_drop_keeps[OF _ ok] show ?thesis by (auto simp: Let_def)
next
  case (Arr_sub u p' x)
  with m k bar_arrive_keeps[OF _ ok] show ?thesis by (auto simp: Let_def)
next
  case (Store_phase p' x)
  with m k bar_store_phase_keeps[OF _ ok] show ?thesis by auto
next
  case (Wait_fast p')
  with m k bar_wait_keeps[OF _ ok] show ?thesis by auto
next
  case (Complete p' x)
  with m bar_knownD(3-5)[OF k ok] show ?thesis by (auto simp: bar_keepsI split: if_splits)
next
  case (Store_expected y p' x)
  with m bar_knownD(3,5)[OF k ok] show ?thesis by (auto simp: bar_keepsI split: if_splits)
next
  case (Arr_check u p' prev x)
  with m have "v' = v" by auto
  with Arr_check m bar_knownD(5,6)[OF k ok] show ?thesis
    by (simp add: bar_keeps_same) (auto simp: misplaced_def of_bool_def split: if_splits)
next
  case (Token p')
  with m have "v' = v" "c = At (Token p')" "c' = At (Wait_fast p') \<or> c' = At Idle" by auto
  with bar_knownD(5)[OF k ok] show ?thesis by (auto simp: bar_keeps_same misplaced_def)
next
  case (Passed p')
  with m have "v' = v" "c = At (Passed p')" "c' = At Idle" by auto
  with bar_knownD(5)[OF k ok] show ?thesis by (auto simp: bar_keeps_same misplaced_def)
next
  case (Wait_sleep p')
  with m have "v' = v" by auto
  with Wait_sleep m show ?thesis by (auto simp: bar_keeps_same misplaced_def)
qed (use m bar_knownD(1,6,7,9)[OF k ok] in \<open>auto simp: bar_keepsI split: if_splits\<close>)

interpretation bar: accounting "bar_code False us" "\<lambda>_. bar_ok e p us" "bar_state e p" Idle
  "bar_weight p" "bar_balance e p" for us e p
proof unfold_locales
  show "0 \<le> bar_weight p i c" for i c
    by (cases i) (simp_all add: bar_weights_nonneg)
  show "bar_weight p i (At Idle) = 0" for i by (cases i) (simp_all add: misplaced_def)
  show "bar_balance e p i (bar_state e p) = 0" if "bar_ok e p us" for i
    using that by (cases i) (auto simp: bar_state_def bar_ok_def)
  show "bar_weight p i (Resuming (w # ws) k) + bar_weight p i (Suspended pc)
      = bar_weight p i (Resuming ws k) + bar_weight p i (At k')"
    if "bar_code False us pc = Wait_if q pred k'" for pc q pred k' k i w ws
    using that by (cases i) (auto simp: misplaced_def elim!: bar_code_cases)
  show "bar_balance e p i v' - bar_balance e p i v = bar_weight p i c' - bar_weight p i c"
    if "bar_ok e p us" "moves pc (bar_code False us pc) v c v' c'" "fits (bar_weight p) (bar_balance e p) n v c"
    for n pc v c v' c' i
    using bar_move_keeps[OF that(2) _ that(1), of n] that(3) by (simp add: bar_known_def bar_keeps_def)
qed

section \<open>One phase: what a task knows\<close>

definition bar_reset :: "int \<Rightarrow> 8 word \<Rightarrow> barrier \<Rightarrow> bool" where
  "bar_reset e p b \<longleftrightarrow> m_phase b \<noteq> p \<longrightarrow> m_expected b = m_initial_expected b \<and> arrived b = e"

fun bar_local :: "int \<Rightarrow> 8 word \<Rightarrow> barrier \<Rightarrow> bar_pc control \<Rightarrow> bool" where
  "bar_local e p b (At (Store_expected x p' k)) \<longleftrightarrow> x = m_initial_expected b \<and> arrived b = e"
| "bar_local e p b (At (Store_phase p' k)) \<longleftrightarrow> m_expected b = m_initial_expected b \<and> arrived b = e"
| "bar_local e p b (At (Wake p' k)) \<longleftrightarrow> m_phase b = p + 1"
| "bar_local e p b (At (Passed p')) \<longleftrightarrow> m_phase b = p + 1"
| "bar_local e p b (Self_resume pc) \<longleftrightarrow> m_phase b = p + 1"
| "bar_local e p b (Resuming ws k) \<longleftrightarrow> m_phase b = p + 1"
| "bar_local e p b _ \<longleftrightarrow> True"

definition bar_at :: "int \<Rightarrow> 8 word \<Rightarrow> int list \<Rightarrow> barrier \<Rightarrow> bar_pc control \<Rightarrow> bool" where
  "bar_at e p us b c \<longleftrightarrow> (bar_ok e p us \<longrightarrow> bar_reset e p b \<and> bar_local e p b c)"

lemma bar_local_after [simp]: "bar_local e p b (At (after_arrive p' k))"
  by (cases k) (simp_all add: after_arrive_def)

lemma bar_known_reach:
  "reach (bar_code False us) n (bar_start e p) s \<Longrightarrow> t < n \<Longrightarrow> bar_known e p us n (vars s) (ctl s t)"
  using bar.reach_fits[of us n e p s t] by (simp add: bar_known_def)

text \<open>The effect of a move on the atomics that the assertions mention.\<close>

definition bar_effect :: "int \<Rightarrow> 8 word \<Rightarrow> barrier \<Rightarrow> barrier \<Rightarrow> bool" where
  "bar_effect e p v v' \<longleftrightarrow> bar_reset e p v'
     \<and> (arrived v = e \<longrightarrow> arrived v' = e \<and> m_initial_expected v' = m_initial_expected v
          \<and> (m_expected v = m_initial_expected v \<longrightarrow> m_expected v' = m_initial_expected v'))
     \<and> (m_phase v = p + 1 \<longrightarrow> m_phase v' = p + 1)"

lemma bar_effect_same: "bar_reset e p v \<Longrightarrow> bar_effect e p v v"
  by (simp add: bar_effect_def)

lemma bar_wait_sleep_local:
  assumes m: "moves (Wait_sleep p') (bar_code False us (Wait_sleep p')) v c v' c'"
    and k: "bar_known e p us n v c" "bar_ok e p us" and l: "bar_local e p v c"
  shows "bar_local e p v' c'"
proof -
  from m have v: "v' = v" and "pc_of c = Wait_sleep p'" by auto
  then have "m_phase v \<noteq> p' \<Longrightarrow> m_phase v = p + 1" using bar_knownD(5,8)[OF k] by auto
  with m l v show ?thesis by (simp only: bar_code.simps moves.simps) (elim disjE conjE; simp)
qed

lemma bar_wait_fast_local:
  assumes m: "moves (Wait_fast p') (bar_code False us (Wait_fast p')) v c v' c'"
    and k: "bar_known e p us n v c" "bar_ok e p us"
  shows "bar_local e p v' c'"
proof -
  from m have c: "c = At (Wait_fast p')" "v' = v" "c' = At (if bar_is_previous p' (m_phase v) then Passed p'
      else if p' = m_phase v then Wait_sleep p' else Aborted)" by auto
  with bar_knownD(5,8)[OF k] show ?thesis by (auto simp: bar_is_previous_def)
qed

lemma bar_move_effect:
  assumes m: "moves pc (bar_code False us pc) v c v' c'" and k: "bar_known e p us n v c"
    and ok: "bar_ok e p us" and l: "bar_local e p v c" and r: "bar_reset e p v"
  shows "bar_effect e p v v' \<and> bar_local e p v' c'"
proof -
  note K = bar_knownD[OF k ok] and D = bar_effect_def bar_reset_def
  have arr: "arrived v < e" if "1 \<le> arriving c" using that K(1,9) by linarith
  show ?thesis
  proof (cases pc)
    case Idle
    with m r show ?thesis by (auto simp: bar_calls_iff D)
  next
    case Drop
    with m r arr K(7) show ?thesis by (auto simp: bar_drop_def D Let_def)
  next
    case (Arr_sub u p' x)
    with m r arr K(7) next_phase(2)[OF K(16)] show ?thesis by (auto simp: bar_fetch_sub_def D Let_def)
  next
    case (Load_next p' x)
    with m r K(3) show ?thesis by (auto simp: D split: if_splits)
  next
    case (Store_expected x p' y)
    with m r l show ?thesis by (auto simp: D)
  next
    case (Store_phase p' x)
    with m have "c = At (Store_phase p' x)" "c' = At (Wake p' x)" "v' = v\<lparr>m_phase := p' + 1\<rparr>" by auto
    with r l K(5)[of p'] show ?thesis by (simp add: D)
  next
    case (Wait_fast p')
    moreover from this m have "v' = v" by auto
    ultimately show ?thesis using bar_wait_fast_local[OF _ k ok] m bar_effect_same[OF r] by blast
  next
    case (Wait_sleep p')
    moreover from this m have "v' = v" by auto
    ultimately show ?thesis using bar_wait_sleep_local[OF _ k ok l] m bar_effect_same[OF r] by blast
  qed (use m r l in \<open>auto simp: D split: if_splits\<close>)
qed

lemma bar_local_stable:
  assumes "bar_local e p v d" "bar_effect e p v v'"
  shows "bar_local e p v' d"
  using assms unfolding bar_effect_def by (cases "(e, p, v, d)" rule: bar_local.cases) auto

interpretation bar_as: assertions "bar_code False us" "bar_state e p" Idle "bar_known e p us"
  "\<lambda>_ _ _ _. True" "bar_at e p us" for us e p
proof unfold_locales
  show "bar_known e p us n (vars s) (ctl s t)"
    if "reach (bar_code False us) n (bar_start e p) s" "t < n" for n s t
    using that by (rule bar_known_reach)
  show "bar_at e p us (bar_state e p) (At Idle)" by (simp add: bar_at_def bar_reset_def bar_state_def)
  show "bar_at e p us v' c'"
    if "moves pc (bar_code False us pc) v c v' c'" "bar_known e p us n v c" "bar_at e p us v c"
    for pc v c v' c' n
    using that bar_move_effect[OF that(1,2)] by (simp add: bar_at_def bar_effect_def)
  show "bar_at e p us v' d"
    if "moves pc (bar_code False us pc) v c v' c'" "bar_known e p us n v c" "bar_at e p us v c"
      "bar_at e p us v d" for pc v c v' c' n d
    using that bar_move_effect[OF that(1,2)] bar_local_stable[of e p v d v'] by (simp add: bar_at_def bar_effect_def)
  show "bar_at e p us v (Resuming ws k) \<and> bar_at e p us v (At k')"
    if "bar_code False us pc = Wait_if q pred k'" "bar_at e p us v (Resuming (x # ws) k)"
    for pc q pred k' k v x ws
    using that by (auto simp: bar_at_def elim!: bar_code_cases)
qed simp

fun bar_waker :: "bar_pc control \<Rightarrow> int" where
  "bar_waker (At (Wake p k)) = 1"
| "bar_waker _ = 0"

lemma bar_waker_after [simp]: "bar_waker (At (after_arrive p k)) = 0"
  by (cases k) (simp_all add: after_arrive_def)



lemma bar_completed:
  assumes "reach (bar_code False us) n (bar_start e p) s" "bar_ok e p us"
    and "arrived (vars s) = e" "total completer n (ctl s) = 0"
  shows "completions (vars s) = 1"
proof -
  have "uncompleted c \<le> completer c" for c by (cases c rule: uncompleted.cases) simp_all
  then have "total uncompleted n (ctl s) \<le> total completer n (ctl s)" by (intro total_mono)
  with total_nonneg[of uncompleted n "ctl s", OF bar_weights_nonneg(4)] assms(3,4)
    bar.accounts_exact[OF assms(1,2), of Runs]
  show ?thesis by simp
qed

section \<open>One phase: properties\<close>

text \<open>C22. In one phase, the barrier holds everybody back until the phase is complete. The phase starts with nobody
  inside and a number below 255, updates are at least 1 and stay within the contract of \<open>arrive\<close>, and whoever has
  passed does not come back. Then once a task's \<open>wait\<close> has returned, or a task resumes the others,
  the phase number is the next, all \<open>e\<close> expected arrivals are counted, the completion function has run exactly once and the
  count for the next phase is that of the participants that have not dropped out. When the barrier is used again
  while somebody still resumes the waiters of the phase before, this is false (\<open>barrier_early_release\<close>).\<close>

theorem barrier_phase_complete:
  assumes "reach (bar_code False us) n (bar_start e p) s" "bar_ok e p us" "t < n"
    and "(\<exists>p'. ctl s t = At (Passed p')) \<or> (\<exists>ws k. ctl s t = Resuming ws k)"
  shows "m_phase (vars s) = p + 1 \<and> arrived (vars s) = e \<and> completions (vars s) = 1
    \<and> m_expected (vars s) = e - dropped (vars s)"
proof -
  note K = bar_knownD[OF bar_known_reach[OF assms(1,3)] assms(2)]
  have "bar_reset e p (vars s)" "m_phase (vars s) = p + 1"
    using bar_as.assertion_holds[OF assms(1,3)] assms(2,4) by (auto simp: bar_at_def)
  with next_phase(2)[OF K(16)] K(12)
  have r: "m_phase (vars s) = p + 1" "m_phase (vars s) \<noteq> p" "arrived (vars s) = e"
    "m_expected (vars s) = e - dropped (vars s)"
    by (auto simp: bar_reset_def)
  then have "total completer n (ctl s) = 0"
    using bar.accounts_exact[OF assms(1,2), of Completer] by simp
  with bar_completed[OF assms(1,2) r(3)] r show ?thesis by simp
qed

text \<open>Two tasks; the first slept, and the second dropped out with its arrival.\<close>

theorem barrier_phase_complete_witness:
  "\<exists>s. reach (bar_code False []) 2 (bar_start 2 7) s \<and> ctl s 0 = At (Passed 7)
     \<and> m_phase (vars s) = 8 \<and> completions (vars s) = 1 \<and> m_expected (vars s) = 2 - dropped (vars s)
     \<and> m_expected (vars s) = 1"
proof -
  have "\<exists>s. reach (bar_code False []) 2 (bar_start 2 7) s \<and> (ctl s 0 = At (Passed 7)
      \<and> m_expected (vars s) = 1)"
    by (rule run_witness[where sched = "[(0,0),(0,0),(0,0),(0,0),(0,0),(0,0),(0,0),(0,0),(0,0),(0,0),
        (1,1),(1,0),(1,0),(1,0),(1,0),(1,0),(1,0),(1,0),(1,0),(1,0),(1,0),(1,0),(1,0)]"])
      (simp add: run_simps bar_state_def bar_calls_def bar_fetch_sub_def bar_drop_def Let_def
        after_arrive_def swrap_def bar_is_previous_def)
  then obtain s where "reach (bar_code False []) 2 (bar_start 2 7) s" "ctl s 0 = At (Passed 7)"
    "m_expected (vars s) = 1" by blast
  with barrier_phase_complete[of "[]" 2 2 7 s 0] show ?thesis
    by (auto simp: bar_ok_def bar_max_def smax_values)
qed

text \<open>The completion function runs at most once per phase and only after the last arrival, and no
  assertion fails.\<close>

theorem barrier_completion_once:
  assumes "reach (bar_code False us) n (bar_start e p) s" "bar_ok e p us" "t < n"
  shows "0 \<le> arrived (vars s) \<and> arrived (vars s) \<le> e \<and> completions (vars s) \<le> 1
    \<and> (completions (vars s) = 1 \<longrightarrow> arrived (vars s) = e) \<and> ctl s t \<noteq> At Aborted
    \<and> (arrived (vars s) < e \<longrightarrow> m_phase (vars s) = p)"
proof -
  note K = bar_knownD[OF bar_known_reach[OF assms(1,3)] assms(2)]
  have "arrived (vars s) \<le> e" using K(1,9) bar_weights_nonneg(1)[of "ctl s t"] by linarith
  moreover have "completions (vars s) \<le> of_bool (arrived (vars s) = e)"
    using K(4) bar_weights_nonneg(4)[of "ctl s t"] by linarith
  moreover have "ctl s t \<noteq> At Aborted" using K(6) by auto
  ultimately show ?thesis using K(7,10) by (auto simp: of_bool_def split: if_splits)
qed

theorem barrier_completion_once_witness:
  "\<exists>s. reach (bar_code False [2]) 1 (bar_start 2 0) s \<and> completions (vars s) = 1 \<and> arrived (vars s) = 2"
proof -
  have "\<exists>s. reach (bar_code False [2]) 1 (bar_start 2 0) s \<and> completions (vars s) = 1"
    by (rule run_witness[where sched = "[(0,1),(0,0),(0,0),(0,0),(0,0),(0,0)]"])
      (simp add: run_simps bar_state_def bar_calls_def bar_fetch_sub_def Let_def swrap_def)
  then obtain s where "reach (bar_code False [2]) 1 (bar_start 2 0) s" "completions (vars s) = 1" by blast
  with barrier_completion_once[of "[2]" 1 2 0 s 0] show ?thesis
    by (auto simp: bar_ok_def bar_max_def smax_values)
qed



section \<open>Defects of reuse\<close>

text \<open>C24. A waiter can be released before its phase is complete. The last arrival of phase 0
  stores the new phase and has not called \<open>resume_all\<close> yet; the other task sees the new phase,
  passes, arrives for phase 1 and sleeps; the pending \<open>resume_all\<close> releases it although
  only one of the two participants has arrived in phase 1.\<close>

theorem barrier_early_release:
  "\<exists>s. reach (bar_code True []) 2 (init_sys (bar_init 2) Idle) s \<and> ctl s 0 = At (Passed 1)
     \<and> m_phase (vars s) = 1 \<and> m_expected (vars s) = 1 \<and> completions (vars s) = 1"
  by (rule run_witness[where sched = "[(0,0),(0,0),(0,0),(0,0),(0,0),
      (1,0),(1,0),(1,0),(1,0),(1,0),(1,0),(1,0),(1,0),(1,0),
      (0,0),(0,0),(0,0),(0,0),(0,0),(0,0),(0,0),(0,0),(0,0),(0,0),(0,0),(0,0),
      (1,0),(1,0)]"])
    (simp add: run_simps bar_init_def bar_state_def bar_calls_def bar_fetch_sub_def Let_def
      after_arrive_def swrap_def bar_is_previous_def)

text \<open>\<open>arrive(0)\<close>, which the documentation allows, can complete a phase a second time: between
  the last arrival's \<open>fetch_sub\<close> and its store of the next count it sees a count of 0.\<close>

theorem barrier_double_completion:
  "\<exists>s. reach (bar_code False [0]) 2 (init_sys (bar_init 1) Idle) s
     \<and> completions (vars s) = 2 \<and> arrived (vars s) = 1"
  by (rule run_witness[where sched = "[(0,0),(0,0),(0,0),(0,0),(1,0),(1,0),(1,0),(1,0),(1,0),(1,0),(0,0),(0,0)]"])
    (simp add: run_simps bar_init_def bar_state_def bar_calls_def bar_fetch_sub_def Let_def
      after_arrive_def swrap_def)

text \<open>One task that arrives \<open>k\<close> times without waiting.\<close>

definition after_rounds :: "nat \<Rightarrow> (barrier, unit, bar_pc) sys" where
  "after_rounds k = init_sys \<lparr>m_initial_expected = 1, m_expected = 1, m_phase = of_nat k,
     completions = int k, arrived = int k, dropped = 0, drop_calls = 0, bar_budget = 1 - int k\<rparr> Idle"

lemma one_round:
  "run (bar_code True [1]) 1 [(0,1),(0,0),(0,0),(0,0),(0,0),(0,0),(0,0),(0,0),(0,0),(0,0),(0,0),(0,1)]
     (after_rounds k) = Some (after_rounds (Suc k))"
  by (simp add: run_simps after_rounds_def bar_calls_def bar_fetch_sub_def Let_def after_arrive_def
      swrap_def fun_upd_idem add.commute)

lemma rounds_reached: "reach (bar_code True [1]) 1 (after_rounds 0) (after_rounds k)"
proof (induction k)
  case 0
  show ?case by (rule reach_init)
next
  case (Suc k)
  from run_reach[OF one_round Suc] show ?case .
qed

definition last_round :: "(tid \<times> nat) list" where
  "last_round = [(0,0),(0,0),(0,0),(0,0),(0,0),(0,0),(0,0),(0,0),(0,0),(0,0),(0,0),(0,0)]"

text \<open>The token of phase 255 cannot be waited for after its phase: 256 phases in, \<open>wait\<close>
  compares the token with \<open>0 - 1\<close> in \<open>int\<close>, does not recognise the previous phase, and fails
  its assertion (with assertions off it would wait for phase 255 to end again).\<close>

theorem barrier_wrap_abort:
  "\<exists>s. reach (bar_code True [1]) 1 (init_sys (bar_init 1) Idle) s \<and> ctl s 0 = At Aborted
     \<and> completions (vars s) = 256 \<and> m_phase (vars s) = 0"
proof -
  have s0: "after_rounds 0 = init_sys (bar_init 1) Idle"
    by (simp add: after_rounds_def bar_init_def bar_state_def)
  have "(case run (bar_code True [1]) 1 last_round (after_rounds 255)
      of None \<Rightarrow> False | Some s \<Rightarrow> ctl s 0 = At Aborted \<and> completions (vars s) = 256 \<and> m_phase (vars s) = 0)"
    by (simp add: run_simps after_rounds_def bar_calls_def bar_fetch_sub_def Let_def after_arrive_def
        swrap_def bar_is_previous_def last_round_def)
  then obtain s where "run (bar_code True [1]) 1 last_round (after_rounds 255) = Some s"
    "ctl s 0 = At Aborted" "completions (vars s) = 256" "m_phase (vars s) = 0"
    by (auto split: option.splits)
  with run_reach[OF this(1) rounds_reached] s0 show ?thesis by auto
qed

end
