(* ===== verification/Scoped_Lock.thy ===== *)
theory Scoped_Lock
  imports Prelude
begin

text \<open>
  \<open>mutex::scoped_lock\<close> (\<open>src/mutex.cpp\<close>) and \<open>shared_mutex::scoped_lock\<close> (\<open>src/shared_mutex.cpp\<close>):
  the RAII wrappers, as functions from the state of the wrapper to a result, the new
  state and the calls made on mutexes. Proved: every sequence of operations calls the
  mutexes in the discipline that the theories \<open>Mutex\<close> and \<open>Shared_Mutex\<close> assume of their callers
  (unlock only what is held, in the mode it is held; never lock a second one), and the wrapper
  always knows what it holds.
\<close>

section \<open>Calls on mutexes\<close>

text \<open>The calls that change ownership; a failed \<open>try_lock\<close> is none.\<close>

datatype 'm lock_call = Lock 'm | Unlock 'm | Lock_shared 'm | Unlock_shared 'm

text \<open>\<open>std::errc::operation_not_permitted\<close>, thrown as \<open>std::system_error\<close>.\<close>

datatype lock_error = Operation_not_permitted

text \<open>
  The discipline: what is held (a mutex, and whether as a writer) before and after a call;
  \<open>None\<close> is a call that is not allowed.
\<close>

type_synonym 'm held = "('m \<times> bool) option"

fun obey :: "'m held \<Rightarrow> 'm lock_call \<Rightarrow> 'm held option" where
  "obey None (Lock m) = Some (Some (m, True))"
| "obey None (Lock_shared m) = Some (Some (m, False))"
| "obey (Some (m, True)) (Unlock m') = (if m = m' then Some None else None)"
| "obey (Some (m, False)) (Unlock_shared m') = (if m = m' then Some None else None)"
| "obey _ _ = None"

fun obey_all :: "'m held \<Rightarrow> 'm lock_call list \<Rightarrow> 'm held option" where
  "obey_all h [] = Some h"
| "obey_all h (c # cs) = Option.bind (obey h c) (\<lambda>h'. obey_all h' cs)"

lemma obey_all_append: "obey_all h (cs @ ds) = Option.bind (obey_all h cs) (\<lambda>h'. obey_all h' ds)"
  by (induction h cs rule: obey_all.induct) (auto split: bind_splits)

section \<open>\<open>mutex::scoped_lock\<close>\<close>

record 'm mutex_lock =
  m_mutex :: "'m option"

definition msl_empty :: "'m mutex_lock" where
  "msl_empty = \<lparr>m_mutex = None\<rparr>"

text \<open>The constructor that locks.\<close>

definition msl_locked :: "'m \<Rightarrow> 'm mutex_lock \<times> 'm lock_call list" where
  "msl_locked m = (\<lparr>m_mutex = Some m\<rparr>, [Lock m])"

definition msl_acquire ::
  "'m \<Rightarrow> 'm mutex_lock \<Rightarrow> (lock_error + unit) \<times> 'm mutex_lock \<times> 'm lock_call list"
where
  "msl_acquire m s =
     (if m_mutex s \<noteq> None then (Inl Operation_not_permitted, s, [])
      else (Inr (), s\<lparr>m_mutex := Some m\<rparr>, [Lock m]))"

text \<open>\<open>success\<close> is what \<open>m.try_lock()\<close> returns.\<close>

definition msl_try_acquire ::
  "'m \<Rightarrow> bool \<Rightarrow> 'm mutex_lock \<Rightarrow> (lock_error + bool) \<times> 'm mutex_lock \<times> 'm lock_call list"
where
  "msl_try_acquire m success s =
     (if m_mutex s \<noteq> None then (Inl Operation_not_permitted, s, [])
      else if success then (Inr True, s\<lparr>m_mutex := Some m\<rparr>, [Lock m])
      else (Inr False, s, []))"

definition msl_release :: "'m mutex_lock \<Rightarrow> 'm mutex_lock \<times> 'm lock_call list" where
  "msl_release s =
     (case m_mutex s of None \<Rightarrow> (s, []) | Some m \<Rightarrow> (s\<lparr>m_mutex := None\<rparr>, [Unlock m]))"

datatype 'm msl_op = Acquire 'm | Try_acquire 'm bool | Release

fun msl_step :: "'m msl_op \<Rightarrow> 'm mutex_lock \<Rightarrow> 'm mutex_lock \<times> 'm lock_call list" where
  "msl_step (Acquire m) s = snd (msl_acquire m s)"
| "msl_step (Try_acquire m b) s = snd (msl_try_acquire m b s)"
| "msl_step Release s = msl_release s"

text \<open>A lifetime: operations on the wrapper, then the destructor, which releases.\<close>

fun msl_run :: "'m msl_op list \<Rightarrow> 'm mutex_lock \<Rightarrow> 'm mutex_lock \<times> 'm lock_call list" where
  "msl_run [] s = (s, [])"
| "msl_run (op # ops) s =
     (let (s1, cs) = msl_step op s; (s2, ds) = msl_run ops s1 in (s2, cs @ ds))"

definition msl_lifetime :: "'m msl_op list \<Rightarrow> 'm mutex_lock \<Rightarrow> 'm lock_call list" where
  "msl_lifetime ops s = (let (s1, cs) = msl_run ops s in cs @ snd (msl_release s1))"

definition msl_view :: "'m mutex_lock \<Rightarrow> 'm held" where
  "msl_view s = map_option (\<lambda>m. (m, True)) (m_mutex s)"

lemma msl_step_obeys:
  "msl_step op s = (s', cs) \<Longrightarrow> obey_all (msl_view s) cs = Some (msl_view s')"
  by (cases op) (auto simp: msl_acquire_def msl_try_acquire_def msl_release_def msl_view_def
      split: if_splits option.splits)

lemma msl_run_obeys: "msl_run ops s = (s', cs) \<Longrightarrow> obey_all (msl_view s) cs = Some (msl_view s')"
  by (induction ops arbitrary: s cs)
    (auto simp: Let_def obey_all_append split: prod.splits dest!: msl_step_obeys)

section \<open>\<open>shared_mutex::scoped_lock\<close>\<close>

record 'm shared_lock =
  sm_mutex :: "'m option"
  m_is_writer_lock :: bool

definition ssl_empty :: "'m shared_lock" where
  "ssl_empty = \<lparr>sm_mutex = None, m_is_writer_lock = False\<rparr>"

definition lock_in_mode :: "'m \<Rightarrow> bool \<Rightarrow> 'm lock_call" where
  "lock_in_mode m write = (if write then Lock m else Lock_shared m)"

definition ssl_locked :: "'m \<Rightarrow> bool \<Rightarrow> 'm shared_lock \<times> 'm lock_call list" where
  "ssl_locked m write = (\<lparr>sm_mutex = Some m, m_is_writer_lock = write\<rparr>, [lock_in_mode m write])"

definition ssl_acquire ::
  "'m \<Rightarrow> bool \<Rightarrow> 'm shared_lock \<Rightarrow> (lock_error + unit) \<times> 'm shared_lock \<times> 'm lock_call list"
where
  "ssl_acquire m write s =
     (if sm_mutex s \<noteq> None then (Inl Operation_not_permitted, s, [])
      else (Inr (), s\<lparr>sm_mutex := Some m, m_is_writer_lock := write\<rparr>, [lock_in_mode m write]))"

text \<open>\<open>success\<close> is what \<open>m.try_lock()\<close> or \<open>m.try_lock_shared()\<close> returns.\<close>

definition ssl_try_acquire ::
  "'m \<Rightarrow> bool \<Rightarrow> bool \<Rightarrow> 'm shared_lock \<Rightarrow> (lock_error + bool) \<times> 'm shared_lock \<times> 'm lock_call list"
where
  "ssl_try_acquire m write success s =
     (if sm_mutex s \<noteq> None then (Inl Operation_not_permitted, s, [])
      else if success
      then (Inr True, s\<lparr>sm_mutex := Some m, m_is_writer_lock := write\<rparr>, [lock_in_mode m write])
      else (Inr False, s, []))"

definition ssl_release :: "'m shared_lock \<Rightarrow> 'm shared_lock \<times> 'm lock_call list" where
  "ssl_release s =
     (case sm_mutex s of
        None \<Rightarrow> (s, [])
      | Some m \<Rightarrow> (s\<lparr>m_is_writer_lock := False, sm_mutex := None\<rparr>,
                   [if m_is_writer_lock s then Unlock m else Unlock_shared m]))"

definition ssl_upgrade ::
  "'m shared_lock \<Rightarrow> (lock_error + bool) \<times> 'm shared_lock \<times> 'm lock_call list"
where
  "ssl_upgrade s =
     (case sm_mutex s of
        None \<Rightarrow> (Inl Operation_not_permitted, s, [])
      | Some m \<Rightarrow>
          if m_is_writer_lock s then (Inr True, s, [])
          else (Inr False, s\<lparr>m_is_writer_lock := True\<rparr>, [Unlock_shared m, Lock m]))"

definition ssl_downgrade ::
  "'m shared_lock \<Rightarrow> (lock_error + bool) \<times> 'm shared_lock \<times> 'm lock_call list"
where
  "ssl_downgrade s =
     (case sm_mutex s of
        None \<Rightarrow> (Inl Operation_not_permitted, s, [])
      | Some m \<Rightarrow>
          if \<not> m_is_writer_lock s then (Inr True, s, [])
          else (Inr False, s\<lparr>m_is_writer_lock := False\<rparr>, [Unlock m, Lock_shared m]))"

datatype 'm ssl_op =
  S_acquire 'm bool | S_try_acquire 'm bool bool | S_release | S_upgrade | S_downgrade

fun ssl_step :: "'m ssl_op \<Rightarrow> 'm shared_lock \<Rightarrow> 'm shared_lock \<times> 'm lock_call list" where
  "ssl_step (S_acquire m w) s = snd (ssl_acquire m w s)"
| "ssl_step (S_try_acquire m w b) s = snd (ssl_try_acquire m w b s)"
| "ssl_step S_release s = ssl_release s"
| "ssl_step S_upgrade s = snd (ssl_upgrade s)"
| "ssl_step S_downgrade s = snd (ssl_downgrade s)"

fun ssl_run :: "'m ssl_op list \<Rightarrow> 'm shared_lock \<Rightarrow> 'm shared_lock \<times> 'm lock_call list" where
  "ssl_run [] s = (s, [])"
| "ssl_run (op # ops) s =
     (let (s1, cs) = ssl_step op s; (s2, ds) = ssl_run ops s1 in (s2, cs @ ds))"

definition ssl_lifetime :: "'m ssl_op list \<Rightarrow> 'm shared_lock \<Rightarrow> 'm lock_call list" where
  "ssl_lifetime ops s = (let (s1, cs) = ssl_run ops s in cs @ snd (ssl_release s1))"

definition ssl_view :: "'m shared_lock \<Rightarrow> 'm held" where
  "ssl_view s = map_option (\<lambda>m. (m, m_is_writer_lock s)) (sm_mutex s)"

lemma ssl_step_obeys:
  "ssl_step op s = (s', cs) \<Longrightarrow> obey_all (ssl_view s) cs = Some (ssl_view s')"
  by (cases op) (auto simp: ssl_acquire_def ssl_try_acquire_def ssl_release_def ssl_upgrade_def
      ssl_downgrade_def lock_in_mode_def ssl_view_def split: if_splits option.splits)

lemma ssl_run_obeys: "ssl_run ops s = (s', cs) \<Longrightarrow> obey_all (ssl_view s) cs = Some (ssl_view s')"
  by (induction ops arbitrary: s cs)
    (auto simp: Let_def obey_all_append split: prod.splits dest!: ssl_step_obeys)

section \<open>Properties\<close>

text \<open>\<open>mutex::scoped_lock\<close> keeps the lock discipline: whatever operations are made on a wrapper
  that starts empty or locked, with any results of \<open>try_lock\<close>, its calls never unlock a mutex
  that it does not hold nor lock a second one, and after its destructor it holds none.\<close>

theorem mutex_scoped_lock_discipline:
  "obey_all None (msl_lifetime ops msl_empty) = Some None
   \<and> obey_all None (snd (msl_locked m) @ msl_lifetime ops (fst (msl_locked m))) = Some None"
proof -
  have L: "obey_all (msl_view s) (msl_lifetime ops s) = Some None" for s :: "'a mutex_lock"
  proof -
    obtain s1 cs where r: "msl_run ops s = (s1, cs)" by (cases "msl_run ops s")
    obtain s2 ds where d: "msl_release s1 = (s2, ds)" by (cases "msl_release s1")
    have "obey_all (msl_view s1) ds = Some (msl_view s2)"
      using msl_step_obeys[of Release s1 s2 ds] d by simp
    moreover have "msl_view s2 = None"
      using d by (auto simp: msl_release_def msl_view_def split: option.splits)
    ultimately show ?thesis using msl_run_obeys[OF r] r d by (simp add: msl_lifetime_def obey_all_append)
  qed
  from L[of msl_empty] L[of "fst (msl_locked m)"] show ?thesis
    by (simp add: msl_empty_def msl_locked_def msl_view_def)
qed

text \<open>C25. \<open>shared_mutex::scoped_lock\<close> keeps the discipline in both modes, through upgrades and
  downgrades, and after its destructor it holds none.\<close>

theorem shared_scoped_lock_discipline:
  "obey_all None (ssl_lifetime ops ssl_empty) = Some None
   \<and> obey_all None (snd (ssl_locked m w) @ ssl_lifetime ops (fst (ssl_locked m w))) = Some None"
proof -
  have L: "obey_all (ssl_view s) (ssl_lifetime ops s) = Some None" for s :: "'a shared_lock"
  proof -
    obtain s1 cs where r: "ssl_run ops s = (s1, cs)" by (cases "ssl_run ops s")
    obtain s2 ds where d: "ssl_release s1 = (s2, ds)" by (cases "ssl_release s1")
    have "obey_all (ssl_view s1) ds = Some (ssl_view s2)"
      using ssl_step_obeys[of S_release s1 s2 ds] d by simp
    moreover have "ssl_view s2 = None"
      using d by (auto simp: ssl_release_def ssl_view_def split: option.splits)
    ultimately show ?thesis using ssl_run_obeys[OF r] r d by (simp add: ssl_lifetime_def obey_all_append)
  qed
  from L[of ssl_empty] L[of "fst (ssl_locked m w)"] show ?thesis
    by (cases w) (simp_all add: ssl_empty_def ssl_locked_def ssl_view_def lock_in_mode_def)
qed

text \<open>The errors of \<open>shared_mutex::scoped_lock\<close>: acquiring while a mutex is held, and upgrading or
  downgrading while none is held, throw, and a call that throws leaves the wrapper as it was
  and touches no mutex. Otherwise \<open>upgrade_to_writer\<close> and \<open>downgrade_to_reader\<close> end in the mode
  asked for and return whether the lock was kept throughout.\<close>

theorem shared_scoped_lock_errors:
  "(sm_mutex s \<noteq> None \<longleftrightarrow> fst (ssl_acquire m w s) = Inl Operation_not_permitted)
   \<and> (sm_mutex s \<noteq> None \<longleftrightarrow> fst (ssl_try_acquire m w b s) = Inl Operation_not_permitted)
   \<and> (sm_mutex s = None \<longleftrightarrow> fst (ssl_upgrade s) = Inl Operation_not_permitted)
   \<and> (sm_mutex s = None \<longleftrightarrow> fst (ssl_downgrade s) = Inl Operation_not_permitted)
   \<and> (case ssl_upgrade s of (Inl _, s', cs) \<Rightarrow> s' = s \<and> cs = []
      | (Inr kept, s', cs) \<Rightarrow> m_is_writer_lock s' \<and> (kept \<longleftrightarrow> cs = []) \<and> (kept \<longleftrightarrow> m_is_writer_lock s))
   \<and> (case ssl_downgrade s of (Inl _, s', cs) \<Rightarrow> s' = s \<and> cs = []
      | (Inr kept, s', cs) \<Rightarrow> \<not> m_is_writer_lock s' \<and> (kept \<longleftrightarrow> cs = []) \<and> (kept \<longleftrightarrow> \<not> m_is_writer_lock s))
   \<and> (case ssl_acquire m w s of (Inl _, s', cs) \<Rightarrow> s' = s \<and> cs = []
      | (Inr _, s', cs) \<Rightarrow> ssl_view s' = Some (m, w) \<and> cs = [lock_in_mode m w])"
  by (cases "sm_mutex s") (auto simp: ssl_acquire_def ssl_try_acquire_def ssl_upgrade_def ssl_downgrade_def
      ssl_view_def)

end
