(* ===== verification/Atomic_Condition.thy ===== *)
theory Atomic_Condition
  imports Accounting
begin

text \<open>
  \<open>atomic_condition\<close> (\<open>include/coopsync_tbb/atomic_condition.hpp\<close>) and \<open>atomic_flag\<close> (\<open>src/atomic_flag.cpp\<close>):
  an atomic value with \<open>wait\<close>, \<open>notify_one\<close> and \<open>notify_all\<close>. Values are compared by
  their object representation. Proved: \<open>wait\<close> returns only when it has seen another value; if every
  change is followed by \<open>notify_all\<close> on a wrapper, whoever still sleeps on that wrapper once everybody has
  settled waits for a change of the value that the atomic has then. As documented, a change that is undone
  before the waiter looks may be missed; a replay shows it.
\<close>

section \<open>State and operations\<close>

datatype memory_order = Relaxed | Consume | Acquire | Release | Acq_rel | Seq_cst

text \<open>
  The table allows several numbered wrappers of one value, each with its own queue: an \<open>atomic_condition\<close> is
  the case of the single number 0. For \<open>atomic_ref_condition\<close>, whose objects are made and copied
  while others wait, see \<open>Atomic_Ref\<close>.
\<close>

record 'a atomic_value =
  m_value :: 'a

text \<open>
  The calls: \<open>wait\<close> on a wrapper; a modification of the value through \<open>atomic()\<close>, \<open>operator*\<close>
  or \<open>operator->\<close>, after which the caller calls \<open>notify_all\<close> on some wrappers; the notifications;
  and the free functions on a pointer to an \<open>atomic_condition\<close>, \<open>None\<close> for a null pointer.
\<close>

datatype 'a ac_call =
    Wait_call nat 'a memory_order | Modify_call "'a \<Rightarrow> 'a" | Notify_one_call nat | Notify_all_call nat
  | Atomic_wait "nat option" 'a | Atomic_wait_explicit "nat option" 'a memory_order
  | Atomic_notify_one "nat option" | Atomic_notify_all "nat option"

datatype 'a ac_pc =
    Idle
  | Wait nat 'a memory_order | Wait_loop nat 'a | Wait_sleep nat 'a | Passed nat 'a
  | Modify "'a \<Rightarrow> 'a" | Notify_all "nat list" | Notify_one nat
  | Aborted

text \<open>The free functions assert \<open>object != nullptr\<close>.\<close>

fun on_object :: "(nat \<Rightarrow> 'a ac_pc) \<Rightarrow> nat option \<Rightarrow> 'a ac_pc" where
  "on_object call None = Aborted"
| "on_object call (Some i) = call i"

fun ac_enter :: "'a ac_call \<Rightarrow> 'a ac_pc" where
  "ac_enter (Wait_call i old order) = Wait i old order"
| "ac_enter (Modify_call f) = Modify f"
| "ac_enter (Notify_one_call i) = Notify_one i"
| "ac_enter (Notify_all_call i) = Notify_all [i]"
| "ac_enter (Atomic_wait p old) = on_object (\<lambda>i. Wait i old Seq_cst) p"
| "ac_enter (Atomic_wait_explicit p old order) = on_object (\<lambda>i. Wait i old order) p"
| "ac_enter (Atomic_notify_one p) = on_object Notify_one p"
| "ac_enter (Atomic_notify_all p) = on_object (\<lambda>i. Notify_all [i]) p"

text \<open>\<open>atomic()\<close>, \<open>operator*\<close> and \<open>operator->\<close> give the atomic itself, which the caller may change.\<close>

fun through_reference :: "('a \<Rightarrow> 'a) \<Rightarrow> 'a atomic_value \<Rightarrow> 'a atomic_value" where
  "through_reference f v = v\<lparr>m_value := f (m_value v)\<rparr>"

text \<open>\<open>memcmp(&current, &old, sizeof(value_type)) == 0\<close>; \<open>bytes\<close> is the object representation.\<close>

definition same_bytes :: "('a \<Rightarrow> 8 word list) \<Rightarrow> 'a \<Rightarrow> 'a \<Rightarrow> bool" where
  "same_bytes bytes current old \<longleftrightarrow> bytes current = bytes old"

text \<open>\<open>wrappers\<close>: those that the callers notify after a change.\<close>

fun ac_code ::
  "('a \<Rightarrow> 8 word list) \<Rightarrow> nat list \<Rightarrow> 'a ac_call list \<Rightarrow> 'a ac_pc
    \<Rightarrow> ('a atomic_value, nat, 'a ac_pc) instr"
where
  "ac_code bytes wrappers calls Idle = Goto (map ac_enter calls)"
| "ac_code bytes wrappers calls (Wait i old order) =
     Do (\<lambda>v. (v, if order = Release \<or> order = Acq_rel then Aborted else Wait_loop i old))"
| "ac_code bytes wrappers calls (Wait_loop i old) =
     Do (\<lambda>v. (v, if \<not> same_bytes bytes (m_value v) old then Passed i old else Wait_sleep i old))"
| "ac_code bytes wrappers calls (Wait_sleep i old) =
     Wait_if i (\<lambda>v. (v, same_bytes bytes (m_value v) old)) (Wait_loop i old)"
| "ac_code bytes wrappers calls (Passed i old) = Goto [Idle]"
| "ac_code bytes wrappers calls (Modify f) =
     Do (\<lambda>v. (through_reference f v, Notify_all wrappers))"
| "ac_code bytes wrappers calls (Notify_all []) = Goto [Idle]"
| "ac_code bytes wrappers calls (Notify_all (i # is)) = Resume_all i (Notify_all is)"
| "ac_code bytes wrappers calls (Notify_one i) = Resume_one i (\<lambda>_. Idle)"
| "ac_code bytes wrappers calls Aborted = Halt"

fun_cases ac_code_cases:
  "ac_code bytes ws calls pc = Atomic f" "ac_code bytes ws calls pc = Wait_if q pred k"
  "ac_code bytes ws calls pc = Resume_one q k'" "ac_code bytes ws calls pc = Resume_n q m k"
  "ac_code bytes ws calls pc = Resume_all q k"

abbreviation ac_start :: "'a \<Rightarrow> ('a atomic_value, nat, 'a ac_pc) sys" where
  "ac_start x \<equiv> init_sys \<lparr>m_value = x\<rparr> Idle"

section \<open>\<open>atomic_flag\<close>\<close>

text \<open>
  \<open>Tested\<close>: what \<open>test\<close> returns. \<open>Changed\<close>: the caller has changed the flag, by \<open>test_and_set\<close> with
  its result, and calls \<open>notify_all\<close> next.
\<close>

datatype flag_pc =
    F_idle | Clear memory_order | Test_and_set memory_order | Test memory_order
  | F_wait bool memory_order | F_loop bool memory_order | F_sleep bool memory_order | F_passed bool
  | Tested bool | Flag_reference bool | Changed "bool option" | F_notify_all | F_notify_one | F_aborted

record flag_state =
  flag_value :: bool

text \<open>A change through the reference or pointer to the atomic.\<close>

fun through_flag_reference :: "bool \<Rightarrow> flag_state \<Rightarrow> flag_state" where
  "through_flag_reference b v = v\<lparr>flag_value := b\<rparr>"

definition flag_init :: flag_state where
  "flag_init = \<lparr>flag_value = False\<rparr>"

text \<open>The assertions on the memory order of \<open>clear\<close>, and of \<open>test\<close> and \<open>wait\<close>.\<close>

definition clear_order_ok :: "memory_order \<Rightarrow> bool" where
  "clear_order_ok order \<longleftrightarrow> order \<noteq> Consume \<and> order \<noteq> Acquire \<and> order \<noteq> Acq_rel"

definition test_order_ok :: "memory_order \<Rightarrow> bool" where
  "test_order_ok order \<longleftrightarrow> order \<noteq> Release \<and> order \<noteq> Acq_rel"

text \<open>The free functions, on a pointer that may be null.\<close>

datatype flag_function =
    Flag_clear | Flag_clear_explicit memory_order
  | Flag_test_and_set | Flag_test_and_set_explicit memory_order
  | Flag_test | Flag_test_explicit memory_order
  | Flag_wait bool | Flag_wait_explicit bool memory_order
  | Flag_notify_one | Flag_notify_all

fun flag_function_call :: "flag_function \<Rightarrow> flag_pc" where
  "flag_function_call Flag_clear = Clear Seq_cst"
| "flag_function_call (Flag_clear_explicit order) = Clear order"
| "flag_function_call Flag_test_and_set = Test_and_set Seq_cst"
| "flag_function_call (Flag_test_and_set_explicit order) = Test_and_set order"
| "flag_function_call Flag_test = Test Seq_cst"
| "flag_function_call (Flag_test_explicit order) = Test order"
| "flag_function_call (Flag_wait old) = F_wait old Seq_cst"
| "flag_function_call (Flag_wait_explicit old order) = F_wait old order"
| "flag_function_call Flag_notify_one = F_notify_one"
| "flag_function_call Flag_notify_all = F_notify_all"

definition flag_enter :: "bool \<Rightarrow> flag_function \<Rightarrow> flag_pc" where
  "flag_enter null f = (if null then F_aborted else flag_function_call f)"

definition all_orders :: "memory_order list" where
  "all_orders = [Relaxed, Consume, Acquire, Release, Acq_rel, Seq_cst]"

definition flag_functions :: "flag_function list" where
  "flag_functions = [Flag_clear, Flag_test_and_set, Flag_test, Flag_wait False, Flag_wait True,
     Flag_notify_one, Flag_notify_all] @ map Flag_clear_explicit all_orders
     @ map Flag_test_and_set_explicit all_orders @ map Flag_test_explicit all_orders
     @ map (Flag_wait_explicit False) all_orders @ map (Flag_wait_explicit True) all_orders"

fun flag_code :: "flag_pc \<Rightarrow> (flag_state, unit, flag_pc) instr" where
  "flag_code F_idle = Goto (F_notify_one # map Clear all_orders @ map Test_and_set all_orders
     @ map Test all_orders @ map (F_wait False) all_orders @ map (F_wait True) all_orders
     @ map (flag_enter False) flag_functions @ map (flag_enter True) flag_functions
     @ [F_notify_all, Flag_reference False, Flag_reference True])"
| "flag_code (Clear order) =
     Do (\<lambda>v. if clear_order_ok order then (v\<lparr>flag_value := False\<rparr>, Changed None) else (v, F_aborted))"
| "flag_code (Test_and_set order) = Do (\<lambda>v. (v\<lparr>flag_value := True\<rparr>, Changed (Some (flag_value v))))"
| "flag_code (Test order) = Do (\<lambda>v. (v, if test_order_ok order then Tested (flag_value v) else F_aborted))"
| "flag_code (F_wait old order) =
     Do (\<lambda>v. (v, if test_order_ok order then F_loop old order else F_aborted))"
| "flag_code (F_loop old order) =
     Do (\<lambda>v. (v, if old \<noteq> flag_value v then F_passed old else F_sleep old order))"
| "flag_code (F_sleep old order) = Wait_if () (\<lambda>v. (v, old = flag_value v)) (F_loop old order)"
| "flag_code (F_passed old) = Goto [F_idle]"
| "flag_code (Tested b) = Goto [F_idle]"
| "flag_code (Flag_reference b) = Do (\<lambda>v. (through_flag_reference b v, Changed None))"
| "flag_code (Changed r) = Goto [F_notify_all]"
| "flag_code F_notify_all = Resume_all () F_idle"
| "flag_code F_notify_one = Resume_one () (\<lambda>_. F_idle)"
| "flag_code F_aborted = Halt"

fun_cases flag_code_cases:
  "flag_code pc = Atomic f" "flag_code pc = Wait_if q pred k" "flag_code pc = Resume_one q k'"
  "flag_code pc = Resume_n q m k" "flag_code pc = Resume_all q k"

section \<open>Whoever sleeps has a reason\<close>

fun ac_reason :: "('a \<Rightarrow> 8 word list) \<Rightarrow> nat list \<Rightarrow> nat \<Rightarrow> 'a ac_pc \<Rightarrow> 'a atomic_value \<Rightarrow> bool" where
  "ac_reason bytes wrappers i (Wait_sleep j old) v \<longleftrightarrow>
     i \<in> set wrappers \<longrightarrow> j = i \<longrightarrow> same_bytes bytes (m_value v) old"
| "ac_reason bytes wrappers i _ v \<longleftrightarrow> True"

fun ac_notifier :: "nat \<Rightarrow> 'a ac_pc control \<Rightarrow> int" where
  "ac_notifier i (At (Notify_all is)) = of_bool (i \<in> set is)"
| "ac_notifier i (Resuming ws (Notify_all is)) = of_bool (i \<in> set is)"
| "ac_notifier i _ = 0"

lemma ac_notifier_nonneg: "0 \<le> ac_notifier i c"
  by (cases "(i, c)" rule: ac_notifier.cases) simp_all

interpretation acond: notifications "ac_code bytes wrappers calls" "\<lparr>m_value = x\<rparr>" Idle i
  "ac_reason bytes wrappers i" "ac_notifier i" "\<lambda>_ _. True" for bytes wrappers calls x i
proof unfold_locales
  show "0 \<le> ac_notifier i c" for c :: "'a ac_pc control" by (rule ac_notifier_nonneg)
  show "ac_reason bytes wrappers i pc v'"
    if "ac_code bytes wrappers calls pc = Wait_if i pred k" "pred v = (v', True)" for pc pred k v v'
    using that by (auto elim!: ac_code_cases)
  show "ac_reason bytes wrappers i pc' v' \<or> 0 < ac_notifier i c'"
    if m: "moves pc (ac_code bytes wrappers calls pc) v c v' c'" and r: "ac_reason bytes wrappers i pc' v"
    for pc v c v' c' pc'
  proof (cases pc)
    case (Modify f)
    with m show ?thesis by (cases "(bytes, wrappers, i, pc', v)" rule: ac_reason.cases) auto
  next
    case (Notify_all js)
    then have "v' = v" using m by (cases js) auto
    with r show ?thesis by simp
  qed (use m r in \<open>auto split: if_splits\<close>)
  show "0 < ac_notifier i c'"
    if m: "moves pc (ac_code bytes wrappers calls pc) v c v' c'"
      and e: "\<not> empties i (ac_code bytes wrappers calls pc) c" and p: "0 < ac_notifier i c"
    for pc v c v' c'
  proof (cases pc)
    case (Notify_all js)
    with m e p show ?thesis by (cases js) (auto split: if_splits)
  qed (use m p in auto)
  show "ac_notifier i (Resuming (y # ws) k) + ac_notifier i (Suspended pc)
      \<le> ac_notifier i (Resuming ws k) + ac_notifier i (At k')" for y ws k pc k'
    using ac_notifier_nonneg[of i "At k'"] by (cases k) simp_all
qed simp

fun flag_reason :: "flag_pc \<Rightarrow> flag_state \<Rightarrow> bool" where
  "flag_reason (F_sleep old order) v \<longleftrightarrow> old = flag_value v"
| "flag_reason _ v \<longleftrightarrow> True"

fun flag_notifier :: "flag_pc control \<Rightarrow> int" where
  "flag_notifier (At (Changed r)) = 1"
| "flag_notifier (At F_notify_all) = 1"
| "flag_notifier _ = 0"

lemma flag_notifier_nonneg: "0 \<le> flag_notifier c"
  by (cases c rule: flag_notifier.cases) simp_all

interpretation flag: notifications flag_code flag_init F_idle "()" flag_reason flag_notifier "\<lambda>_ _. True"
proof unfold_locales
  show "0 \<le> flag_notifier c" for c by (rule flag_notifier_nonneg)
  show "flag_reason pc v'" if "flag_code pc = Wait_if () pred k" "pred v = (v', True)" for pc pred k v v'
    using that by (auto elim!: flag_code_cases)
  show "flag_reason pc' v' \<or> 0 < flag_notifier c'"
    if "moves pc (flag_code pc) v c v' c'" "flag_reason pc' v" for pc v c v' c' pc'
    using that by (cases pc) (auto split: if_splits)
  show "0 < flag_notifier c'"
    if "moves pc (flag_code pc) v c v' c'" "\<not> empties () (flag_code pc) c" "0 < flag_notifier c"
    for pc v c v' c'
    using that by (cases pc) auto
  show "flag_notifier (Resuming (y # ws) k) + flag_notifier (Suspended pc)
      \<le> flag_notifier (Resuming ws k) + flag_notifier (At k')" for y ws k pc k'
    using flag_notifier_nonneg[of "At k'"] by simp
qed simp

section \<open>Properties\<close>

text \<open>C26. No wait outlasts a change that stays: if the callers notify wrapper \<open>i\<close> after every modification, then once
  everybody has settled nobody sleeps in \<open>wait(old)\<close> on wrapper \<open>i\<close> while the atomic has other bytes than
  \<open>old\<close>, however the changes and notifications were interleaved with going to sleep. A change that is
  undone before the waiter has looked may be missed, as the documentation of \<open>wait\<close> says
  (\<open>ac_aba_change_missed\<close>).\<close>

theorem ac_sleepers_unchanged:
  assumes "reach (ac_code bytes wrappers calls) n (ac_start x) s" "i \<in> set wrappers"
    and "settled n s (\<lambda>pc. pc = Idle)" "t < n" "ctl s t = Suspended (Wait_sleep i old)"
  shows "same_bytes bytes (m_value (vars s)) old"
  using acond.sleepers_have_reason[OF assms(1,3) _ _ assms(4,5), of i] assms(2) by simp

text \<open>Task 0 slept waiting for a change of 0 until task 1 set 1 and notified; it returned, and now sleeps
  waiting for a change of 1.\<close>

theorem ac_sleepers_unchanged_witness:
  "\<exists>s. reach (ac_code (\<lambda>w. [w]) [0] [Wait_call 0 0 Seq_cst, Modify_call (\<lambda>w. 1 - w), Wait_call 0 1 Seq_cst])
         2 (ac_start 0) s
     \<and> ctl s 0 = Suspended (Wait_sleep 0 1) \<and> same_bytes (\<lambda>w. [w]) (m_value (vars s)) 1"
proof -
  let ?c = "ac_code (\<lambda>w :: 8 word. [w]) [0] [Wait_call 0 0 Seq_cst, Modify_call (\<lambda>w. 1 - w), Wait_call 0 1 Seq_cst]"
  have "\<exists>s. reach ?c 2 (ac_start 0) s
     \<and> (settled 2 s (\<lambda>pc. pc = Idle) \<and> ctl s 0 = Suspended (Wait_sleep 0 1))"
    by (rule run_witness[where sched = "[(0,0),(0,0),(0,0),(0,0),(0,0),(0,0),(0,0),
        (1,1),(1,0),(1,0),(1,0),(1,0),(1,0),(0,0),(0,0),
        (0,2),(0,0),(0,0),(0,0),(0,0),(0,0),(0,0)]"])
      (simp add: run_simps same_bytes_def settled_def all_less_small)
  then obtain s where "reach ?c 2 (ac_start 0) s" "settled 2 s (\<lambda>pc. pc = Idle)"
    "ctl s 0 = Suspended (Wait_sleep 0 1)" by blast
  with ac_sleepers_unchanged[OF this(1) _ this(2) _ this(3)] show ?thesis by auto
qed

text \<open>The documented limit: task 0 waits for a change of 0; task 1 sets 1, notifies, sets 0 again and notifies, and
  only then does task 0 look: it sleeps again.\<close>

theorem ac_aba_change_missed:
  "\<exists>s. reach (ac_code (\<lambda>w :: 8 word. [w]) [0] [Wait_call 0 0 Seq_cst, Modify_call (\<lambda>w. 1 - w)]) 2 (ac_start 0) s
     \<and> settled 2 s (\<lambda>pc. pc = Idle) \<and> ctl s 0 = Suspended (Wait_sleep 0 0)"
  by (rule run_witness[where sched = "[(0,0),(0,0),(0,0),(0,0),(0,0),(0,0),(0,0),
      (1,1),(1,0),(1,0),(1,0),(1,0),(1,0),(1,1),(1,0),(1,0),(1,0),(1,0),
      (0,0),(0,0),(0,0),(0,0),(0,0)]"])
    (simp add: run_simps same_bytes_def settled_def all_less_small)

text \<open>\<open>wait(old)\<close> returns only after it has seen a value with other bytes: resumption alone,
  spurious or by \<open>notify_one\<close> for somebody else, never makes it return.\<close>

theorem ac_wait_returns_on_change:
  assumes "reach (ac_code bytes wrappers calls) n (ac_start x) s"
    and "mstep (ac_code bytes wrappers calls) n s u s'"
    and "ctl s t \<noteq> At (Passed i old)" "ctl s' t = At (Passed i old)"
  shows "u = t \<and> ctl s t = At (Wait_loop i old) \<and> \<not> same_bytes bytes (m_value (vars s')) old"
  using assms(2) reach_wf[OF assms(1)]
proof (cases rule: mstep_moves)
  case (handover w ws k q pc pred k')
  have "k' \<noteq> Passed i old" using handover(3) by (auto elim!: ac_code_cases)
  with handover assms(3,4) show ?thesis by (auto split: if_splits)
next
  case (move pc c')
  with assms(3,4) have ut: "u = t" "c' = At (Passed i old)" by (auto split: if_splits)
  have "on_object call p \<noteq> Passed i old" if "\<And>j. call j \<noteq> Passed i old" for call and p :: "nat option"
    using that by (cases p) simp_all
  then have e: "ac_enter c \<noteq> Passed i old" for c by (cases c) simp_all
  show ?thesis
  proof (cases pc)
    case Idle
    with move(1) ut e show ?thesis by (auto simp del: ac_enter.simps) (metis e)
  next
    case (Notify_all js)
    with move(1) ut show ?thesis by (cases js) auto
  qed (use move(1) ut in \<open>auto split: if_splits\<close>)
qed

theorem ac_wait_returns_on_change_witness:
  "\<exists>s s'. reach (ac_code (\<lambda>w. [w]) [0] [Wait_call 0 0 Seq_cst]) 1 (ac_start 3) s
     \<and> mstep (ac_code (\<lambda>w. [w]) [0] [Wait_call 0 0 Seq_cst]) 1 s 0 s'
     \<and> ctl s' 0 = At (Passed 0 0) \<and> \<not> same_bytes (\<lambda>w. [w]) (m_value (vars s')) 0"
proof -
  let ?c = "ac_code (\<lambda>w :: 8 word. [w]) [0] [Wait_call 0 0 Seq_cst]"
  have "\<exists>s. reach ?c 1 (ac_start 3) s \<and> (ctl s 0 = At (Wait_loop 0 0) \<and> m_value (vars s) = 3)"
    by (rule run_witness[where sched = "[(0,0),(0,0)]"]) (simp add: run_simps)
  then obtain s where s: "reach ?c 1 (ac_start 3) s" "ctl s 0 = At (Wait_loop 0 0)" "m_value (vars s) = 3"
    by blast
  let ?s = "s\<lparr>vars := vars s, ctl := (ctl s)(0 := At (Passed 0 0))\<rparr>"
  have "mstep ?c 1 s 0 ?s" 
    by (rule exec_step_sound[where c = 0]) (use s in \<open>simp add: run_simps same_bytes_def\<close>)
  with ac_wait_returns_on_change[OF s(1) this, of 0 0 0] s show ?thesis by fastforce
qed

text \<open>A notification reaches only the waiters of its own wrapper: two \<open>atomic_ref_condition\<close>
  objects for one value do not share their queue, so a change announced on one leaves a waiter
  of the other asleep although the value has changed.\<close>

theorem ac_ref_copies_do_not_share:
  "\<exists>s. reach (ac_code (\<lambda>w. [w]) [0] [Wait_call 1 0 Seq_cst, Modify_call (\<lambda>_. 7)]) 2 (ac_start 0) s
     \<and> settled 2 s (\<lambda>pc. pc = Idle) \<and> ctl s 1 = Suspended (Wait_sleep 1 0)
     \<and> \<not> same_bytes (\<lambda>w. [w]) (m_value (vars s)) 0"
  by (rule run_witness[where sched = "[(1,0),(1,0),(1,0),(1,0),(1,0),(1,0),(1,0),(0,1),(0,0),(0,0),(0,0),(0,0)]"])
    (simp add: run_simps same_bytes_def settled_def all_less_small)

text \<open>\<open>atomic_flag\<close>: if every change by \<open>clear\<close> or \<open>test_and_set\<close> is followed by \<open>notify_all\<close>, then once
  everybody has settled a sleeper waits for a change of the value that the flag has.\<close>

theorem flag_sleepers_unchanged:
  assumes "reach flag_code n (init_sys flag_init F_idle) s" "settled n s (\<lambda>pc. pc = F_idle)"
    and "t < n" "ctl s t = Suspended (F_sleep old order)"
  shows "flag_value (vars s) = old"
  using flag.sleepers_have_reason[OF assms(1,2) _ _ assms(3,4)] by simp

theorem flag_sleepers_unchanged_witness:
  "\<exists>s. reach flag_code 1 (init_sys flag_init F_idle) s
     \<and> ctl s 0 = Suspended (F_sleep False Seq_cst) \<and> flag_value (vars s) = False"
proof -
  have "\<exists>s. reach flag_code 1 (init_sys flag_init F_idle) s
     \<and> (settled 1 s (\<lambda>pc. pc = F_idle) \<and> ctl s 0 = Suspended (F_sleep False Seq_cst))"
    by (rule run_witness[where sched = "[(0,24),(0,0),(0,0),(0,0),(0,0),(0,0),(0,0)]"])
      (simp add: run_simps flag_init_def all_orders_def test_order_ok_def settled_def all_less_small)
  then obtain s where "reach flag_code 1 (init_sys flag_init F_idle) s"
    "settled 1 s (\<lambda>pc. pc = F_idle)" "ctl s 0 = Suspended (F_sleep False Seq_cst)" by blast
  with flag_sleepers_unchanged[of 1 s 0] show ?thesis by auto
qed

end
