(* ===== verification/Condition_Variable.thy ===== *)
theory Condition_Variable
  imports Mutex
begin

text \<open>
  \<open>coopsync_tbb::condition_variable\<close> (\<open>include/coopsync_tbb/condition_variable.hpp\<close>,
  \<open>src/condition_variable.cpp\<close>) together with the \<open>mutex\<close> passed as its \<open>Lock\<close>, and data that the
  mutex protects. Proved: both forms of \<open>wait\<close> return with the mutex held by the caller alone,
  the second only with its predicate true, or with the exception that the predicate threw; and no task is left
  asleep in the mutex.
  A notification can be lost: \<open>wait\<close> releases the mutex before the task is in the queue, and
  \<open>cv_lost_notification\<close> replays the interleaving.
\<close>

section \<open>State and operations\<close>

record 'd cv_state =
  cv_mutex :: mutex
  cv_data :: 'd

definition cv_init :: "'d \<Rightarrow> 'd cv_state" where
  "cv_init d = \<lparr>cv_mutex = mutex_init, cv_data = d\<rparr>"

text \<open>The wait queue of the mutex and that of the condition variable.\<close>

datatype cv_queue = Lock_q | Cond_q

text \<open>
  What a task does once it holds the mutex: call \<open>wait(lock)\<close>, call \<open>wait(lock, pred)\<close>,
  change the data, or go on after its \<open>wait\<close> has returned, or has thrown what its predicate threw.
\<close>

datatype 'd cv_next = To_wait | To_wait_pred | To_update 'd | Returned | Returned_pred | Pred_threw

text \<open>
  What it does after \<open>unlock\<close>: sleep (the flag says in which form of \<open>wait\<close>), notify (one or
  all), or leave.
\<close>

datatype cv_after = Then_sleep bool | Then_notify bool | Then_leave

text \<open>The predicate gives \<open>None\<close> when it throws.\<close>

text \<open>\<open>Notify all holding\<close>: \<open>notify_all\<close> or \<open>notify_one\<close>, with the mutex held or not.\<close>

datatype 'd cv_pc =
    Idle
  | Lock "'d cv_next" | Lock_wait "'d cv_next" | Held "'d cv_next"
  | Unlock cv_after | Unlock_store cv_after | Unlock_resume cv_after
  | Sleep bool | Updated | Notify bool bool
  | Aborted

definition cv_try_lock :: "'d cv_state \<Rightarrow> bool \<times> 'd cv_state" where
  "cv_try_lock v = (let r = mutex_try_lock (cv_mutex v) in (fst r, v\<lparr>cv_mutex := snd r\<rparr>))"

definition cv_continue :: "cv_after \<Rightarrow> 'd cv_pc" where
  "cv_continue u = (case u of Then_sleep b \<Rightarrow> Sleep b | Then_notify all \<Rightarrow> Notify all False | Then_leave \<Rightarrow> Idle)"

text \<open>\<open>notify_all\<close> and \<open>notify_one\<close>, before the caller goes on at \<open>k\<close>.\<close>

fun cv_notify :: "bool \<Rightarrow> 'd cv_pc \<Rightarrow> ('d cv_state, cv_queue, 'd cv_pc) instr" where
  "cv_notify all k = (if all then Resume_all Cond_q k else Resume_one Cond_q (\<lambda>_. k))"

fun cv_code :: "('d \<Rightarrow> bool option) \<Rightarrow> 'd list \<Rightarrow> 'd cv_pc \<Rightarrow> ('d cv_state, cv_queue, 'd cv_pc) instr" where
  "cv_code pred ds Idle = Goto ([Lock To_wait, Lock To_wait_pred] @ map (\<lambda>d. Lock (To_update d)) ds)"
| "cv_code pred ds (Lock k) =
     Do (\<lambda>v. let r = cv_try_lock v in (snd r, if fst r then Held k else Lock_wait k))"
| "cv_code pred ds (Lock_wait k) = Wait_if Lock_q (\<lambda>v. (v, m_locked (cv_mutex v))) (Lock k)"
| "cv_code pred ds (Held To_wait) = Goto [Unlock (Then_sleep False)]"
| "cv_code pred ds (Held To_wait_pred) =
     Do (\<lambda>v. (v, case pred (cv_data v) of
            None \<Rightarrow> Held Pred_threw
          | Some b \<Rightarrow> if \<not> b then Unlock (Then_sleep True) else Held Returned_pred))"
| "cv_code pred ds (Held (To_update d)) = Do (\<lambda>v. (v\<lparr>cv_data := d\<rparr>, Updated))"
| "cv_code pred ds (Held Returned) = Goto [Unlock Then_leave]"
| "cv_code pred ds (Held Returned_pred) = Goto [Unlock Then_leave]"
| "cv_code pred ds (Held Pred_threw) = Goto [Unlock Then_leave]"
| "cv_code pred ds Updated = Goto [Notify False True, Notify True True,
     Unlock (Then_notify False), Unlock (Then_notify True)]"
| "cv_code pred ds (Unlock u) = Do (\<lambda>v. (v, if m_locked (cv_mutex v) then Unlock_store u else Aborted))"
| "cv_code pred ds (Unlock_store u) =
     Do (\<lambda>v. (v\<lparr>cv_mutex := (cv_mutex v)\<lparr>m_locked := False\<rparr>\<rparr>, Unlock_resume u))"
| "cv_code pred ds (Unlock_resume u) = Resume_one Lock_q (\<lambda>_. cv_continue u)"
| "cv_code pred ds (Sleep b) =
     Wait_if Cond_q (\<lambda>v. (v, True)) (Lock (if b then To_wait_pred else Returned))"
| "cv_code pred ds (Notify all holding) =
     cv_notify all (if holding then Unlock Then_leave else Idle)"
| "cv_code pred ds Aborted = Halt"

lemma cv_wait_if:
  "cv_code pred ds pc = Wait_if q p k \<longleftrightarrow>
     (\<exists>c. pc = Lock_wait c \<and> q = Lock_q \<and> p = (\<lambda>v. (v, m_locked (cv_mutex v))) \<and> k = Lock c)
     \<or> (\<exists>b. pc = Sleep b \<and> q = Cond_q \<and> p = (\<lambda>v. (v, True))
          \<and> k = Lock (if b then To_wait_pred else Returned))"
  by (cases "(pred, ds, pc)" rule: cv_code.cases) auto

abbreviation cv_start :: "'d \<Rightarrow> ('d cv_state, cv_queue, 'd cv_pc) sys" where
  "cv_start d \<equiv> init_sys (cv_init d) Idle"

section \<open>Ownership of the mutex\<close>

fun cv_owner :: "'d cv_pc control \<Rightarrow> int" where
  "cv_owner (At (Held k)) = 1"
| "cv_owner (At (Unlock u)) = 1"
| "cv_owner (At (Unlock_store u)) = 1"
| "cv_owner (At Updated) = 1"
| "cv_owner (At (Notify all holding)) = of_bool holding"
| "cv_owner (Resuming ws (Unlock u)) = 1"
| "cv_owner _ = 0"

fun cv_aborted :: "'d cv_pc control \<Rightarrow> int" where
  "cv_aborted (At Aborted) = 1"
| "cv_aborted _ = 0"

fun cv_waker :: "'d cv_pc control \<Rightarrow> int" where
  "cv_waker (At (Lock k)) = 1"
| "cv_waker (At (Lock_wait k)) = 1"
| "cv_waker (At (Unlock_resume u)) = 1"
| "cv_waker (Suspending (Lock_wait k)) = 1"
| "cv_waker (Checking (Lock_wait k)) = 1"
| "cv_waker (Self_resume (Lock_wait k)) = 1"
| "cv_waker (Resuming ws k) = of_bool (ws \<noteq> [])"
| "cv_waker _ = 0"

datatype cv_account = Owners | Failures

fun cv_weight :: "cv_account \<Rightarrow> 'd cv_pc control \<Rightarrow> int" where
  "cv_weight Owners = cv_owner"
| "cv_weight Failures = cv_aborted"

fun cv_balance :: "cv_account \<Rightarrow> 'd cv_state \<Rightarrow> int" where
  "cv_balance Owners v = of_bool (m_locked (cv_mutex v))"
| "cv_balance Failures v = 0"

lemma cv_accounts: "(\<forall>i. P i) \<longleftrightarrow> P Owners \<and> P Failures"
  using cv_account.exhaust by metis

lemma cv_weights_nonneg: "0 \<le> cv_owner c" "0 \<le> cv_aborted c" "0 \<le> cv_waker c"
  subgoal by (cases c rule: cv_owner.cases) simp_all
  subgoal by (cases c rule: cv_aborted.cases) simp_all
  subgoal by (cases c rule: cv_waker.cases) simp_all
  done

lemma cv_try_lock_iff:
  "cv_try_lock v = (if m_locked (cv_mutex v) then (False, v)
     else (True, v\<lparr>cv_mutex := (cv_mutex v)\<lparr>m_locked := True\<rparr>\<rparr>))"
  by (simp add: cv_try_lock_def mutex_try_lock_iff)

lemma cv_continue_weights [simp]:
  "cv_owner (At (cv_continue u)) = 0" "cv_aborted (At (cv_continue u)) = 0"
  "cv_waker (At (cv_continue u)) = 0"
  "cv_owner (Resuming ws (cv_continue u)) = 0"
  by (cases u; simp add: cv_continue_def)+

interpretation cv: accounting "cv_code pred ds" "\<lambda>_. True" "cv_init d" Idle cv_weight cv_balance
  for pred ds d
proof unfold_locales
  show "0 \<le> cv_weight i c" for i and c :: "'a cv_pc control"
    by (cases i) (simp_all add: cv_weights_nonneg)
  show "cv_weight i (At Idle) = 0" "cv_balance i (cv_init d) = 0" for i
    by (cases i; simp add: cv_init_def mutex_init_def)+
  show "cv_balance i v' - cv_balance i v = cv_weight i c' - cv_weight i c"
    if m: "moves pc (cv_code pred ds pc) v c v' c'" and f: "fits cv_weight cv_balance n v c"
    for n pc v c v' c' i
  proof -
    have f': "cv_owner c \<le> of_bool (m_locked (cv_mutex v))" "cv_aborted c \<le> 0"
      using f by (auto simp: fits_def cv_accounts)
    show ?thesis using m f'
      by (cases "(pred, ds, pc)" rule: cv_code.cases; cases i; cases "m_locked (cv_mutex v)")
        (auto simp: cv_try_lock_iff split: if_splits option.splits)
  qed
  show "cv_weight i (Resuming (w # ws) k) + cv_weight i (Suspended pc)
      = cv_weight i (Resuming ws k) + cv_weight i (At k')"
    if "cv_code pred ds pc = Wait_if q p k'" for pc q p k' k i w ws
    using that by (cases i; cases k) (auto simp: cv_wait_if)
qed

lemma cv_pair:
  assumes "reach (cv_code pred ds) n (cv_start d) s" "t < n" "u < n" "t \<noteq> u"
  shows "cv_owner (ctl s t) = 0 \<or> cv_owner (ctl s u) = 0"
  using cv.reach_pair[OF assms(1) TrueI assms(2-4), of Owners] cv_weights_nonneg(1)[of "ctl s t"]
    cv_weights_nonneg(1)[of "ctl s u"]
  by (auto simp: of_bool_def split: if_splits)

text \<open>
  A task that left \<open>wait(lock, pred)\<close> and has not released the mutex knows what the predicate gave;
  nobody acquires the mutex straight for these points.
\<close>

fun after_pred :: "'d cv_next \<Rightarrow> bool" where
  "after_pred Returned_pred \<longleftrightarrow> True"
| "after_pred Pred_threw \<longleftrightarrow> True"
| "after_pred _ \<longleftrightarrow> False"

fun cv_promise :: "('d \<Rightarrow> bool option) \<Rightarrow> 'd cv_state \<Rightarrow> 'd cv_pc control \<Rightarrow> bool" where
  "cv_promise pred v (At (Held Returned_pred)) \<longleftrightarrow> pred (cv_data v) = Some True"
| "cv_promise pred v (At (Held Pred_threw)) \<longleftrightarrow> pred (cv_data v) = None"
| "cv_promise pred v (At (Lock k)) \<longleftrightarrow> \<not> after_pred k"
| "cv_promise pred v (At (Lock_wait k)) \<longleftrightarrow> \<not> after_pred k"
| "cv_promise pred v (Suspending (Lock_wait k)) \<longleftrightarrow> \<not> after_pred k"
| "cv_promise pred v (Checking (Lock_wait k)) \<longleftrightarrow> \<not> after_pred k"
| "cv_promise pred v (Pushing (Lock_wait k)) \<longleftrightarrow> \<not> after_pred k"
| "cv_promise pred v (Suspended (Lock_wait k)) \<longleftrightarrow> \<not> after_pred k"
| "cv_promise pred v (Self_resume (Lock_wait k)) \<longleftrightarrow> \<not> after_pred k"
| "cv_promise pred v _ \<longleftrightarrow> True"

interpretation cv_as: assertions "cv_code pred ds" "cv_init d" Idle "\<lambda>_ _ _. True"
  "\<lambda>_ _ c c'. cv_owner c = 0 \<or> cv_owner c' = 0" "cv_promise pred" for pred ds d
proof unfold_locales
  show "cv_owner (ctl s t) = 0 \<or> cv_owner (ctl s u) = 0"
    if "reach (cv_code pred ds) n (cv_start d) s" "t < n" "u < n" "t \<noteq> u" for n s t u
    using that by (rule cv_pair)
  have h: "cv_promise pred v (At (Held k))" if "\<not> after_pred k" for v k using that by (cases k) auto
  show "cv_promise pred v' c'" if "moves pc (cv_code pred ds pc) v c v' c'" "cv_promise pred v c"
    for pc v c v' c'
    using that h by (cases "(pred, ds, pc)" rule: cv_code.cases)
      (auto simp: cv_continue_def cv_try_lock_iff split: if_splits cv_after.splits option.splits)
  show "cv_promise pred v' c"
    if m: "moves pc (cv_code pred ds pc) v d v' d'" and e: "cv_owner d = 0 \<or> cv_owner c = 0"
      and a: "cv_promise pred v c" for pc v d v' d' c
  proof (cases "c = At (Held Returned_pred) \<or> c = At (Held Pred_threw)")
    case True
    with e have "cv_owner d = 0" by auto
    with m have "cv_data v' = cv_data v"
      by (cases "(pred, ds, pc)" rule: cv_code.cases) (auto simp: cv_try_lock_iff split: if_splits option.splits)
    with a True show ?thesis by auto
  next
    case False
    with a show ?thesis by (cases "(pred, v, c)" rule: cv_promise.cases) auto
  qed
  show "cv_promise pred v (Resuming ws k) \<and> cv_promise pred v (At k')"
    if "cv_code pred ds pc = Wait_if q p k'" "cv_promise pred v (Suspended pc)" for pc q p k' v ws k
    using that by (auto simp: cv_wait_if)
qed simp_all

interpretation cv_wake: wakeups "cv_code pred ds" "cv_init d" Idle Lock_q
  "\<lambda>v. of_bool (\<not> m_locked (cv_mutex v))" cv_waker "\<lambda>_ _ _. True" for pred ds d
proof unfold_locales
  show "0 \<le> cv_waker c" for c :: "'a cv_pc control" by (rule cv_weights_nonneg)
  show "of_bool (\<not> m_locked (cv_mutex v')) \<le> (0::int)"
    if "cv_code pred ds pc = Wait_if Lock_q p k" "p v = (v', True)" for pc p k v v'
    using that by (auto simp: cv_wait_if)
  show "of_bool (\<not> m_locked (cv_mutex v')) \<le> (0::int)
      \<or> of_bool (\<not> m_locked (cv_mutex v')) - of_bool (\<not> m_locked (cv_mutex v)) \<le> cv_waker c' - cv_waker c"
    if "moves pc (cv_code pred ds pc) v c v' c'" "\<not> drains Lock_q (cv_code pred ds pc) c c'"
    for pc v c v' c'
    using that by (cases "(pred, ds, pc)" rule: cv_code.cases; cases "m_locked (cv_mutex v)")
      (auto simp: cv_try_lock_iff split: if_splits option.splits)
  show "cv_waker (Resuming (x # ws) k) + cv_waker (Suspended pc) \<le> cv_waker (Resuming ws k) + cv_waker (At k')"
    if "cv_code pred ds pc = Wait_if q' p k'" for pc q' p k' k x ws
    using that by (auto simp: cv_wait_if)
qed simp

section \<open>Properties\<close>

text \<open>C28. \<open>wait\<close> returns holding the lock: a task whose \<open>wait\<close> has returned owns the mutex, no other
  task does, and after \<open>wait(lock, pred)\<close> the predicate is true of the protected data. The same when \<open>wait\<close>
  leaves by an exception of the predicate, which the predicate throws on the protected data.\<close>

theorem cv_returns_holding:
  assumes "reach (cv_code pred ds) n (cv_start d) s" "t < n"
    and "ctl s t = At (Held Returned) \<or> ctl s t = At (Held Returned_pred) \<or> ctl s t = At (Held Pred_threw)"
  shows "m_locked (cv_mutex (vars s)) \<and> (\<forall>u<n. u \<noteq> t \<longrightarrow> cv_owner (ctl s u) = 0)
    \<and> (ctl s t = At (Held Returned_pred) \<longrightarrow> pred (cv_data (vars s)) = Some True)
    \<and> (ctl s t = At (Held Pred_threw) \<longrightarrow> pred (cv_data (vars s)) = None)"
proof -
  have o: "cv_owner (ctl s t) = 1" using assms(3) by auto
  have "cv_owner (ctl s t) \<le> cv_balance Owners (vars s)"
    using cv.reach_fits[OF assms(1) TrueI assms(2)] by (auto simp: fits_def cv_accounts)
  with o have "m_locked (cv_mutex (vars s))" by simp
  moreover have "cv_owner (ctl s u) = 0" if "u < n" "u \<noteq> t" for u
    using cv_pair[OF assms(1,2) that(1)] that(2) o by auto
  moreover have "ctl s t = At (Held Returned_pred) \<longrightarrow> pred (cv_data (vars s)) = Some True"
    "ctl s t = At (Held Pred_threw) \<longrightarrow> pred (cv_data (vars s)) = None"
    using cv_as.assertion_holds[OF assms(1,2)] by auto
  ultimately show ?thesis by blast
qed

text \<open>Task 0 slept until task 1 changed 0 to 5 and notified.\<close>

theorem cv_returns_holding_witness:
  "\<exists>s. reach (cv_code (\<lambda>x. Some (x = 5)) [5]) 2 (cv_start (0::nat)) s \<and> ctl s 0 = At (Held Returned_pred)
     \<and> cv_data (vars s) = 5"
proof -
  let ?c = "cv_code (\<lambda>x. Some (x = 5)) [5]"
  have "\<exists>s. reach ?c 2 (cv_start (0::nat)) s \<and> ctl s 0 = At (Held Returned_pred)"
    by (rule run_witness[where sched = "[(0,1),(0,0),(0,0),(0,0),(0,0),(0,0),(0,0),(0,0),(0,0),(0,0),
        (1,2),(1,0),(1,0),(1,2),(1,0),(1,0),(1,0),(1,0),(1,0),(0,0),(0,0)]"])
      (simp add: run_simps cv_init_def mutex_init_def cv_try_lock_iff cv_continue_def)
  then obtain s where "reach ?c 2 (cv_start (0::nat)) s" "ctl s 0 = At (Held Returned_pred)" by blast
  with cv_returns_holding[OF this(1), of 0] show ?thesis by auto
qed

text \<open>Nobody is left asleep in the mutex: once every task is outside, or asleep in the condition
  variable or the mutex, no task is asleep in the mutex, whatever was notified.\<close>

theorem cv_lock_not_lost:
  assumes "reach (cv_code pred ds) n (cv_start d) s" "settled n s (\<lambda>pc. pc = Idle)" "t < n"
  shows "ctl s t \<noteq> Suspended (Lock_wait k) \<and> ctl s t \<noteq> At Aborted"
proof
  have "total cv_owner n (ctl s) = 0" by (rule settled_total[OF assms(2)]) auto
  then have h: "0 < (of_bool (\<not> m_locked (cv_mutex (vars s))) :: int)"
    using cv.accounts_exact[OF assms(1) TrueI, of Owners] by auto
  show "ctl s t \<noteq> Suspended (Lock_wait k)"
    using cv_wake.nobody_left(2)[OF assms(1,2) _ _ h, of t "Lock_wait k"] by auto
  show "ctl s t \<noteq> At Aborted" using settledD[OF assms(2,3)] by fastforce
qed

theorem cv_lock_not_lost_witness:
  "\<exists>s. reach (cv_code (\<lambda>x. Some (x = 5)) [5]) 2 (cv_start (0::nat)) s
     \<and> ctl s 0 = Suspended (Sleep True) \<and> ctl s 1 \<noteq> Suspended (Lock_wait To_wait)"
proof -
  let ?c = "cv_code (\<lambda>x. Some (x = 5)) [5]"
  have "\<exists>s. reach ?c 2 (cv_start (0::nat)) s
      \<and> (settled 2 s (\<lambda>pc. pc = Idle) \<and> ctl s 0 = Suspended (Sleep True))"
    by (rule run_witness[where sched = "[(0,1),(0,0),(0,0),(0,0),(0,0),(0,0),(0,0),(0,0),(0,0),(0,0)]"])
      (simp add: run_simps cv_init_def mutex_init_def cv_try_lock_iff cv_continue_def settled_def
        all_less_small)
  then obtain s where "reach ?c 2 (cv_start (0::nat)) s" "settled 2 s (\<lambda>pc. pc = Idle)"
    "ctl s 0 = Suspended (Sleep True)" by blast
  with cv_lock_not_lost[OF this(1,2), of 1] show ?thesis by auto
qed

text \<open>C29. A notification can be lost although the caller changes the data under the mutex and then
  notifies. Task 0 sees its predicate false and releases the mutex; before it is in the queue,
  task 1 acquires the mutex, makes the predicate true and calls \<open>notify_all\<close>, which finds the
  queue empty; task 0 then sleeps for good with its predicate true.\<close>

theorem cv_lost_notification:
  "\<exists>s. reach (cv_code (\<lambda>x. Some (x = 5)) [5]) 2 (cv_start (0::nat)) s \<and> settled 2 s (\<lambda>pc. pc = Idle)
     \<and> ctl s 0 = Suspended (Sleep True) \<and> cv_data (vars s) = 5"
  by (rule run_witness[where sched = "[(0,1),(0,0),(0,0),(0,0),(0,0),
      (1,2),(1,0),(1,0),(1,1),(1,0),(1,0),(1,0),(1,0),(1,0),
      (0,0),(0,0),(0,0),(0,0),(0,0)]"])
    (simp add: run_simps cv_init_def mutex_init_def cv_try_lock_iff cv_continue_def settled_def
      all_less_small)

end
