(* ===== verification/Shared_State.thy ===== *)
theory Shared_State
  imports Accounting
begin

text \<open>
  The shared state of promises and futures (\<open>detail::future::shared_state\<close> in
  \<open>include/coopsync_tbb/future.hpp\<close>) used by any number of tasks at once: setters, breakers and
  waiters race on one status word. Proved: exactly one of the racing setters wins, its outcome
  is never overwritten, everybody who waits sees that outcome and no assertion fails, and nobody is
  left asleep once an outcome is there.
\<close>

section \<open>Status\<close>

datatype status = Empty | Value | Exception | Broken | Transition

text \<open>The ways a status can change, as an order: an outcome is final.\<close>

instantiation status :: order
begin

definition less_eq_status :: "status \<Rightarrow> status \<Rightarrow> bool" where
  "x \<le> y \<longleftrightarrow> x = y \<or> x = Empty \<or> (x = Transition \<and> y \<noteq> Empty \<and> y \<noteq> Broken)"

definition less_status :: "status \<Rightarrow> status \<Rightarrow> bool" where
  "x < y \<longleftrightarrow> x \<le> y \<and> x \<noteq> (y :: status)"

instance
  by standard (auto simp: less_eq_status_def less_status_def)

end

definition ready_status :: "status \<Rightarrow> bool" where
  "ready_status st \<longleftrightarrow> st = Value \<or> st = Exception \<or> st = Broken"

lemma ready_final: "ready_status x \<Longrightarrow> x \<le> y \<Longrightarrow> y = (x :: status)"
  by (auto simp: ready_status_def less_eq_status_def)

section \<open>State and operations\<close>

text \<open>
  \<open>st_value\<close> is the \<open>optional_storage\<close>: \<open>None\<close> while \<open>m_has_value\<close> is false. Two counters are kept for
  the proofs: \<open>wins\<close>, of the calls of \<open>set_value\<close>, \<open>set_exception\<close> and \<open>break_promise\<close> whose
  exchange succeeded, and \<open>handed_out\<close>, of the successful calls of \<open>get_future\<close>.
\<close>

record ('a, 'e) shared_state =
  st_status :: status
  st_value :: "'a option"
  st_exception :: "'e option"
  future_obtained :: bool
  wins :: int
  handed_out :: int

definition shared_state_init :: "('a, 'e) shared_state" where
  "shared_state_init = \<lparr>st_status = Empty, st_value = None, st_exception = None,
     future_obtained = False, wins = 0, handed_out = 0\<rparr>"

definition state_ready :: "('a, 'e) shared_state \<Rightarrow> bool" where
  "state_ready m \<longleftrightarrow> ready_status (st_status m)"

text \<open>The exchange that every setter starts with.\<close>

definition claim :: "status \<Rightarrow> ('a, 'e) shared_state \<Rightarrow> bool \<times> ('a, 'e) shared_state" where
  "claim desired m =
     (let r = compare_exchange_strong Empty desired (st_status m) in
      (fst r, m\<lparr>st_status := snd r, wins := wins m + of_bool (fst r)\<rparr>))"

text \<open>\<open>mark_future_obtained\<close>: the exchange that \<open>get_future\<close> starts with.\<close>

definition obtain_future :: "('a, 'e) shared_state \<Rightarrow> bool \<times> ('a, 'e) shared_state" where
  "obtain_future m =
     (let r = compare_exchange_strong False True (future_obtained m) in
      (fst r, m\<lparr>future_obtained := snd r, handed_out := handed_out m + of_bool (fst r)\<rparr>))"

text \<open>
  \<open>optional_storage::emplace\<close>: a value that is there is destroyed, then the new one is
  constructed; \<open>throws v\<close> is the exception of the constructor of \<open>T\<close>, if it throws one.
\<close>

definition emplace :: "('a \<Rightarrow> 'e option) \<Rightarrow> 'a \<Rightarrow> ('a, 'e) shared_state \<Rightarrow> 'e + ('a, 'e) shared_state" where
  "emplace throws v m = (case throws v of Some e \<Rightarrow> Inl e | None \<Rightarrow> Inr (m\<lparr>st_value := Some v\<rparr>))"

text \<open>What \<open>throw_if_exception_or_broken\<close> and \<open>get\<close> read from a ready state.\<close>

datatype ('a, 'e) outcome = Result "'a option" | Rethrown "'e option" | Broken_promise

definition outcome_of :: "('a, 'e) shared_state \<Rightarrow> ('a, 'e) outcome" where
  "outcome_of m =
     (if st_status m = Exception then Rethrown (st_exception m)
      else if st_status m = Broken then Broken_promise
      else Result (st_value m))"

text \<open>
  Program points. \<open>Set_failed\<close>: \<open>promise_already_satisfied\<close> was thrown. \<open>Got r\<close>: \<open>get\<close> has
  read the outcome \<open>r\<close>. \<open>is_void\<close> chooses the specialisation for \<open>void\<close>, which stores no value.
\<close>

datatype ('a, 'e) ss_pc =
    Idle
  | Set_value 'a | Sv_emplace 'a | Sv_store | Sv_catch 'e
  | Set_exception 'e | Se_assign 'e | Se_store
  | Break
  | Resume | Set_failed
  | Get_future | Obtained | Already_retrieved
  | Try_wait | Wait | Wait_assert | Read | Read_value | Got "('a, 'e) outcome"
  | Aborted

fun ss_code ::
  "bool \<Rightarrow> ('a \<Rightarrow> 'e option) \<Rightarrow> 'a list \<Rightarrow> 'e list \<Rightarrow> ('a, 'e) ss_pc
    \<Rightarrow> (('a, 'e) shared_state, unit, ('a, 'e) ss_pc) instr"
where
  "ss_code is_void throws vs es Idle =
     Goto ([Break, Try_wait, Wait, Get_future] @ map Set_value vs @ map Set_exception es)"
| "ss_code is_void throws vs es (Set_value v) =
     Do (\<lambda>m. let r = claim (if is_void then Value else Transition) m in
             (snd r, if \<not> fst r then Set_failed else if is_void then Resume else Sv_emplace v))"
| "ss_code is_void throws vs es (Sv_emplace v) =
     Do (\<lambda>m. case emplace throws v m of Inl e \<Rightarrow> (m, Sv_catch e) | Inr m' \<Rightarrow> (m', Sv_store))"
| "ss_code is_void throws vs es Sv_store = Do (\<lambda>m. (m\<lparr>st_status := Value\<rparr>, Resume))"
| "ss_code is_void throws vs es (Sv_catch e) = Do (\<lambda>m. (m\<lparr>st_exception := Some e\<rparr>, Se_store))"
| "ss_code is_void throws vs es (Set_exception e) =
     Do (\<lambda>m. let r = claim Transition m in (snd r, if fst r then Se_assign e else Set_failed))"
| "ss_code is_void throws vs es (Se_assign e) = Do (\<lambda>m. (m\<lparr>st_exception := Some e\<rparr>, Se_store))"
| "ss_code is_void throws vs es Se_store = Do (\<lambda>m. (m\<lparr>st_status := Exception\<rparr>, Resume))"
| "ss_code is_void throws vs es Break =
     Do (\<lambda>m. let r = claim Broken m in (snd r, if fst r then Resume else Idle))"
| "ss_code is_void throws vs es Resume = Resume_all () Idle"
| "ss_code is_void throws vs es Set_failed = Goto [Idle]"
| "ss_code is_void throws vs es Get_future =
     Do (\<lambda>m. let r = obtain_future m in (snd r, if fst r then Obtained else Already_retrieved))"
| "ss_code is_void throws vs es Obtained = Goto [Idle]"
| "ss_code is_void throws vs es Already_retrieved = Goto [Idle]"
| "ss_code is_void throws vs es Try_wait = Do (\<lambda>m. (m, if state_ready m then Read else Idle))"
| "ss_code is_void throws vs es Wait = Wait_if () (\<lambda>m. (m, \<not> state_ready m)) Wait_assert"
| "ss_code is_void throws vs es Wait_assert = Do (\<lambda>m. (m, if state_ready m then Read else Aborted))"
| "ss_code is_void throws vs es Read =
     Do (\<lambda>m. (m, if st_status m = Exception \<or> st_status m = Broken then Got (outcome_of m)
                else if st_status m = Value then (if is_void then Got (outcome_of m) else Read_value)
                else Aborted))"
| "ss_code is_void throws vs es Read_value =
     Do (\<lambda>m. (m, if st_value m \<noteq> None then Got (outcome_of m) else Aborted))"
| "ss_code is_void throws vs es (Got r) = Goto [Idle]"
| "ss_code is_void throws vs es Aborted = Halt"

fun_cases ss_code_cases:
  "ss_code vo th vs es pc = Atomic f" "ss_code vo th vs es pc = Wait_if q pred k"
  "ss_code vo th vs es pc = Resume_one q k'" "ss_code vo th vs es pc = Resume_n q m k"
  "ss_code vo th vs es pc = Resume_all q k"

abbreviation ss_start :: "(('a, 'e) shared_state, unit, ('a, 'e) ss_pc) sys" where
  "ss_start \<equiv> init_sys shared_state_init Idle"

section \<open>The setter in transition\<close>

fun setter :: "('a, 'e) ss_pc control \<Rightarrow> int" where
  "setter (At (Sv_emplace v)) = 1"
| "setter (At Sv_store) = 1"
| "setter (At (Sv_catch e)) = 1"
| "setter (At (Se_assign e)) = 1"
| "setter (At Se_store) = 1"
| "setter _ = 0"

datatype ss_account = Setters | Wins | Futures

fun ss_weight :: "ss_account \<Rightarrow> ('a, 'e) ss_pc control \<Rightarrow> int" where
  "ss_weight Setters = setter"
| "ss_weight Wins = (\<lambda>_. 0)"
| "ss_weight Futures = (\<lambda>_. 0)"

fun ss_balance :: "ss_account \<Rightarrow> ('a, 'e) shared_state \<Rightarrow> int" where
  "ss_balance Setters m = of_bool (st_status m = Transition)"
| "ss_balance Wins m = of_bool (st_status m \<noteq> Empty) - wins m"
| "ss_balance Futures m = of_bool (future_obtained m) - handed_out m"

lemma ss_accounts: "(\<forall>i. P i) \<longleftrightarrow> P Setters \<and> P Wins \<and> P Futures"
  using ss_account.exhaust by metis

lemma setter_nonneg: "0 \<le> setter c"
  by (cases c rule: setter.cases) simp_all

lemma claim_iff:
  "claim d m = (if st_status m = Empty then (True, m\<lparr>st_status := d, wins := wins m + 1\<rparr>) else (False, m))"
  by (simp add: claim_def compare_exchange_strong_def)

lemma obtain_future_iff:
  "obtain_future m = (if future_obtained m then (False, m)
     else (True, m\<lparr>future_obtained := True, handed_out := handed_out m + 1\<rparr>))"
  by (simp add: obtain_future_def compare_exchange_strong_def)

lemma ss_wait_if:
  "ss_code vo th vs es pc = Wait_if q p k
     \<Longrightarrow> pc = Wait \<and> q = () \<and> p = (\<lambda>m. (m, \<not> state_ready m)) \<and> k = Wait_assert"
  by (cases "(vo, th, vs, es, pc)" rule: ss_code.cases) auto

interpretation ss: accounting "ss_code vo th vs es" "\<lambda>_. True" shared_state_init Idle ss_weight ss_balance
  for vo th vs es
proof unfold_locales
  show "0 \<le> ss_weight i c" for i and c :: "('a, 'b) ss_pc control"
    by (cases i) (simp_all add: setter_nonneg)
  show "ss_weight i (At Idle) = 0" "ss_balance i shared_state_init = 0" for i
    by (cases i; simp add: shared_state_init_def)+
  show "ss_balance i v' - ss_balance i v = ss_weight i c' - ss_weight i c"
    if m: "moves pc (ss_code vo th vs es pc) v c v' c'" and f: "fits ss_weight ss_balance n v c"
    for n pc v c v' c' i
  proof -
    have f': "setter c \<le> of_bool (st_status v = Transition)"
      using f by (auto simp: fits_def ss_accounts)
    show ?thesis using m f'
      by (cases pc; cases i) (auto simp: claim_iff obtain_future_iff emplace_def Let_def split: if_splits option.splits)
  qed
  show "ss_weight i (Resuming (w # ws) k) + ss_weight i (Suspended pc)
      = ss_weight i (Resuming ws k) + ss_weight i (At k')"
    if "ss_code vo th vs es pc = Wait_if q p k'" for pc q p k' k i w ws
    using ss_wait_if[OF that] by (cases i) auto
qed

lemma ss_setter_pair:
  assumes "reach (ss_code vo th vs es) n ss_start s" "t < n" "u < n" "t \<noteq> u"
  shows "setter (ctl s t) = 0 \<or> setter (ctl s u) = 0"
  using ss.reach_pair[OF assms(1) TrueI assms(2-4), of Setters] setter_nonneg[of "ctl s t"]
    setter_nonneg[of "ctl s u"]
  by (auto simp: of_bool_def split: if_splits)

section \<open>What a task knows\<close>

text \<open>The state is well formed: a status that promises a value or an exception has one.\<close>

definition state_ok :: "bool \<Rightarrow> ('a, 'e) shared_state \<Rightarrow> bool" where
  "state_ok is_void m \<longleftrightarrow> (st_status m = Value \<longrightarrow> \<not> is_void \<longrightarrow> st_value m \<noteq> None)
     \<and> (st_status m = Exception \<longrightarrow> st_exception m \<noteq> None)"

fun ss_local :: "('a, 'e) shared_state \<Rightarrow> ('a, 'e) ss_pc control \<Rightarrow> bool" where
  "ss_local m (At Sv_store) \<longleftrightarrow> st_value m \<noteq> None"
| "ss_local m (At Se_store) \<longleftrightarrow> st_exception m \<noteq> None"
| "ss_local m (At Resume) \<longleftrightarrow> state_ready m"
| "ss_local m (At Wait_assert) \<longleftrightarrow> state_ready m"
| "ss_local m (At Read) \<longleftrightarrow> state_ready m"
| "ss_local m (At Read_value) \<longleftrightarrow> st_status m = Value \<and> st_value m \<noteq> None"
| "ss_local m (At (Got r)) \<longleftrightarrow> state_ready m \<and> r = outcome_of m"
| "ss_local m (Self_resume pc) \<longleftrightarrow> state_ready m"
| "ss_local m (Resuming ws k) \<longleftrightarrow> state_ready m"
| "ss_local m (At Aborted) \<longleftrightarrow> False"
| "ss_local m _ \<longleftrightarrow> True"

definition ss_known :: "nat \<Rightarrow> ('a, 'e) shared_state \<Rightarrow> ('a, 'e) ss_pc control \<Rightarrow> bool" where
  "ss_known n m c \<longleftrightarrow> setter c \<le> of_bool (st_status m = Transition)"

lemma ss_known_reach:
  "reach (ss_code vo th vs es) n ss_start s \<Longrightarrow> t < n \<Longrightarrow> ss_known n (vars s) (ctl s t)"
  using ss.reach_fits[of vo th vs es n s t] by (simp add: fits_def ss_accounts ss_known_def)

text \<open>The outcome of a shared state is what a getter can see of it.\<close>

definition same_outcome :: "('a, 'e) shared_state \<Rightarrow> ('a, 'e) shared_state \<Rightarrow> bool" where
  "same_outcome m m' \<longleftrightarrow> st_status m' = st_status m \<and> st_value m' = st_value m
     \<and> st_exception m' = st_exception m"

lemma same_outcomeD:
  assumes "same_outcome m m'"
  shows "state_ready m' = state_ready m" "outcome_of m' = outcome_of m" "state_ok b m' = state_ok b m"
  using assms by (simp_all add: same_outcome_def state_ready_def outcome_of_def state_ok_def)

text \<open>Every move is monotone in the status, and the outcome of a ready state never changes.\<close>

lemma ss_move_mono:
  assumes "moves pc (ss_code vo th vs es pc) v c v' c'" "ss_known n v c"
  shows "st_status v \<le> st_status v'" and "state_ready v \<Longrightarrow> same_outcome v v'"
    and "setter c = 0 \<Longrightarrow> st_value v' = st_value v \<and> st_exception v' = st_exception v"
  using assms
  by (cases pc; auto simp: claim_iff obtain_future_iff emplace_def Let_def ss_known_def less_eq_status_def
      same_outcome_def state_ready_def ready_status_def split: if_splits option.splits)+

lemma ss_local_stable:
  assumes "ss_local v d" "st_status v \<le> st_status v'" "state_ready v \<Longrightarrow> same_outcome v v'"
    and "setter d \<noteq> 0 \<Longrightarrow> st_value v' = st_value v \<and> st_exception v' = st_exception v"
  shows "ss_local v' d"
  using assms by (cases "(v, d)" rule: ss_local.cases)
    (auto simp: same_outcomeD simp flip: ready_status_def, auto simp: same_outcome_def state_ready_def ready_status_def less_eq_status_def)

interpretation ss_as: assertions "ss_code vo th vs es" shared_state_init Idle ss_known
  "\<lambda>_ _ c c'. setter c = 0 \<or> setter c' = 0" "\<lambda>m c. state_ok vo m \<and> ss_local m c" for vo th vs es
proof unfold_locales
  show "ss_known n (vars s) (ctl s t)"
    if "reach (ss_code vo th vs es) n ss_start s" "t < n" for n s t
    using that by (rule ss_known_reach)
  show "setter (ctl s t) = 0 \<or> setter (ctl s u) = 0"
    if "reach (ss_code vo th vs es) n ss_start s" "t < n" "u < n" "t \<noteq> u" for n s t u
    using that by (rule ss_setter_pair)
  show "state_ok vo (shared_state_init :: ('a, 'b) shared_state) \<and> ss_local shared_state_init (At Idle)"
    by (simp add: state_ok_def shared_state_init_def)
  show own: "state_ok vo v' \<and> ss_local v' c'"
    if "moves pc (ss_code vo th vs es pc) v c v' c'" "ss_known n v c" "state_ok vo v \<and> ss_local v c"
    for pc v c v' c' n
    using that by (cases pc) (auto simp: claim_iff obtain_future_iff emplace_def Let_def ss_known_def state_ok_def
        state_ready_def ready_status_def split: if_splits option.splits)
  show "state_ok vo v' \<and> ss_local v' d"
    if m: "moves pc (ss_code vo th vs es pc) v c v' c'" and k: "ss_known n v c"
      and e: "setter c = 0 \<or> setter d = 0" and a: "state_ok vo v \<and> ss_local v c"
      and d: "state_ok vo v \<and> ss_local v d" for pc v c v' c' n d
    using own[OF m k a] ss_local_stable[of v d v'] ss_move_mono[OF m k] e d by blast
  show "(state_ok vo v \<and> ss_local v (Resuming ws k)) \<and> (state_ok vo v \<and> ss_local v (At k'))"
    if "ss_code vo th vs es pc = Wait_if q p k'" "state_ok vo v \<and> ss_local v (Resuming (x # ws) k)"
    for pc q p k' v x ws k
    using that ss_wait_if[OF that(1)] by auto
qed

fun ss_waker :: "('a, 'e) ss_pc control \<Rightarrow> int" where
  "ss_waker (At Resume) = 1"
| "ss_waker _ = 0"

interpretation ss_wake: wakeups "ss_code vo th vs es" shared_state_init Idle "()"
  "\<lambda>m. of_bool (state_ready m)" ss_waker "\<lambda>_ _ _. True" for vo th vs es
proof unfold_locales
  show "0 \<le> ss_waker c" for c :: "('a, 'b) ss_pc control"
    by (cases c rule: ss_waker.cases) simp_all
  show "of_bool (state_ready v') \<le> (0::int)"
    if "ss_code vo th vs es pc = Wait_if () p k" "p v = (v', True)" for pc p k v v'
    using that ss_wait_if[OF that(1)] by auto
  show "of_bool (state_ready v') \<le> (0::int)
      \<or> of_bool (state_ready v') - of_bool (state_ready v) \<le> ss_waker c' - ss_waker c"
    if "moves pc (ss_code vo th vs es pc) v c v' c'" "\<not> drains () (ss_code vo th vs es pc) c c'"
    for pc v c v' c'
    using that by (cases pc) (auto simp: claim_iff obtain_future_iff emplace_def Let_def state_ready_def ready_status_def
        split: if_splits option.splits)
  show "ss_waker (Resuming (x # ws) k) + ss_waker (Suspended pc) \<le> ss_waker (Resuming ws k) + ss_waker (At k')"
    if "ss_code vo th vs es pc = Wait_if q' p k'" for pc q' p k' k x ws
    using ss_wait_if[OF that] by auto
qed simp

lemma ss_final_step:
  assumes r: "reach (ss_code vo th vs es) n ss_start s" and st: "mstep (ss_code vo th vs es) n s t s'"
    and rd: "state_ready (vars s)"
  shows "same_outcome (vars s) (vars s')"
  using st reach_wf[OF r]
proof (cases rule: mstep_moves)
  case (move pc c')
  from ss_move_mono(2)[OF move(1) ss_known_reach[OF r mstep_inside[OF st]] rd] show ?thesis .
qed (auto simp: same_outcome_def)

lemma reach_trans: "reach code n s1 s2 \<Longrightarrow> reach code n s0 s1 \<Longrightarrow> reach code n s0 s2"
  by (induction rule: reach.induct) (auto intro: reach_step)

lemma ss_final:
  assumes "reach (ss_code vo th vs es) n s s'" "reach (ss_code vo th vs es) n ss_start s"
    and "state_ready (vars s)"
  shows "same_outcome (vars s) (vars s')"
  using assms
proof (induction rule: reach.induct)
  case (reach_step s1 t s2)
  have o: "same_outcome (vars s) (vars s1)" by (rule reach_step.IH[OF reach_step.prems])
  have "same_outcome (vars s1) (vars s2)"
    using reach_step same_outcomeD[OF o] reach_trans ss_final_step by metis
  with o show ?case by (simp add: same_outcome_def)
qed (simp add: same_outcome_def)

section \<open>Properties\<close>

text \<open>One winner: of all calls of \<open>set_value\<close>, \<open>set_exception\<close> and \<open>break_promise\<close> on a shared
  state, in any number of tasks, at most one succeeds, and it has succeeded exactly when the
  state is no longer empty; at most one task writes the value or the exception, and at most one
  call of \<open>get_future\<close> obtains the future.\<close>

theorem ss_one_winner:
  assumes "reach (ss_code is_void throws vs es) n ss_start s"
  shows "wins (vars s) = of_bool (st_status (vars s) \<noteq> Empty)
    \<and> handed_out (vars s) = of_bool (future_obtained (vars s))
    \<and> total setter n (ctl s) = of_bool (st_status (vars s) = Transition)"
proof -
  have z: "total (\<lambda>_. 0) n (ctl s) = 0" by (simp add: total_def)
  from ss.accounts_exact[OF assms TrueI, of Wins] ss.accounts_exact[OF assms TrueI, of Futures]
    ss.accounts_exact[OF assms TrueI, of Setters] z
  show ?thesis by (simp del: of_bool_not_iff)
qed

text \<open>Task 1 fails to set a value while task 0 is between its exchange and its store.\<close>

theorem ss_one_winner_witness:
  "\<exists>s. reach (ss_code False (\<lambda>_. None) [7, 8] [()]) 2 ss_start s \<and> wins (vars s) = (1::int)
     \<and> ctl s 1 = At Set_failed \<and> total setter 2 (ctl s) = 1 \<and> st_value (vars s) = Some (7::nat)"
proof -
  let ?c = "ss_code False (\<lambda>_. None) [7, 8::nat] [()]"
  have "\<exists>s. reach ?c 2 ss_start s \<and> (st_status (vars s) = Transition \<and> ctl s 1 = At Set_failed
      \<and> st_value (vars s) = Some 7)"
    by (rule run_witness[where sched = "[(0,4),(1,5),(0,0),(0,0),(1,0)]"])
      (simp add: run_simps shared_state_init_def claim_iff emplace_def Let_def)
  then obtain s where s: "reach ?c 2 ss_start s" "st_status (vars s) = Transition" "ctl s 1 = At Set_failed"
    "st_value (vars s) = Some 7" by blast
  from ss_one_winner[OF s(1)] s show ?thesis by auto
qed

text \<open>C31. All getters agree: whatever outcome one task has read from \<open>get\<close>, every task that reads it at
  any later time gets the same one; it is never an empty value or an empty exception
  pointer, and no assertion of \<open>wait\<close> or \<open>get\<close> fails.\<close>

theorem ss_getters_agree:
  assumes "reach (ss_code is_void throws vs es) n ss_start s"
    and "reach (ss_code is_void throws vs es) n s s'"
    and "t < n" "ctl s t = At (Got r)" "u < n" "ctl s' u = At (Got r')"
  shows "r' = r \<and> r \<noteq> Rethrown None \<and> (r = Result None \<longrightarrow> is_void) \<and> (\<forall>x<n. ctl s' x \<noteq> At Aborted)"
proof -
  note r' = reach_trans[OF assms(2,1)]
  have g: "state_ready (vars s)" "r = outcome_of (vars s)" "state_ok is_void (vars s)"
    using ss_as.assertion_holds[OF assms(1,3)] assms(4) by auto
  have "r' = outcome_of (vars s')"
    using ss_as.assertion_holds[OF r' assms(5)] assms(6) by auto
  moreover have "outcome_of (vars s') = outcome_of (vars s)"
    by (rule same_outcomeD(2)[OF ss_final[OF assms(2,1) g(1)]])
  moreover have "ctl s' x \<noteq> At Aborted" if "x < n" for x
    using ss_as.assertion_holds[OF r' that] by auto
  ultimately show ?thesis using g
    by (auto simp: outcome_of_def state_ok_def state_ready_def ready_status_def split: if_splits)
qed

text \<open>Task 1 slept in \<open>get\<close> until task 0 set 7.\<close>

theorem ss_getters_agree_witness:
  "\<exists>s. reach (ss_code False (\<lambda>_. None) [7::nat] [()]) 2 ss_start s
     \<and> ctl s 1 = At (Got (Result (Some 7))) \<and> ctl s 0 \<noteq> At Aborted"
proof -
  let ?c = "ss_code False (\<lambda>_. None) [7::nat] [()]"
  have "\<exists>s. reach ?c 2 ss_start s \<and> ctl s 1 = At (Got (Result (Some 7)))"
    by (rule run_witness[where sched = "[(1,2),(1,0),(1,0),(1,0),(1,0),
        (0,4),(0,0),(0,0),(0,0),(0,0),(0,0),(1,0),(1,0),(1,0)]"])
      (simp add: run_simps shared_state_init_def claim_iff emplace_def state_ready_def ready_status_def
        outcome_of_def Let_def)
  then obtain s where s: "reach ?c 2 ss_start s" "ctl s 1 = At (Got (Result (Some 7)))" by blast
  from ss_getters_agree[OF s(1) reach_init, of 1 _ 1, OF _ s(2) _ s(2)] s show ?thesis by auto
qed

text \<open>C32. No lost wake-up: once every task is outside or asleep and the shared state has an outcome,
  nobody is asleep in \<open>wait\<close> or \<open>get\<close>.\<close>

theorem ss_no_lost_wakeup:
  assumes "reach (ss_code is_void throws vs es) n ss_start s" "settled n s (\<lambda>pc. pc = Idle)"
    and "state_ready (vars s)" "t < n"
  shows "ctl s t = At Idle"
proof -
  have h: "0 < (of_bool (state_ready (vars s)) :: int)" using assms(3) by simp
  have "wait_queue_of (ss_code is_void throws vs es pc) \<noteq> Some ()" if "ctl s t = Suspended pc" for pc
    using ss_wake.nobody_left(2)[OF assms(1,2) _ _ h that] by simp
  then have "\<not> (\<exists>pc. ctl s t = Suspended pc)"
    using settled_asleep_queued[OF reach_wf[OF assms(1)] assms(2), of t] by (metis old.unit.exhaust)
  then show ?thesis using settledD[OF assms(2,4)] by blast
qed

theorem ss_no_lost_wakeup_witness:
  "\<exists>s. reach (ss_code True (\<lambda>_. None) [()] [()]) 2 ss_start s \<and> state_ready (vars s)
     \<and> ctl s 1 = At Idle"
proof -
  let ?c = "ss_code True (\<lambda>_. None) [()] [()]"
  have "\<exists>s. reach ?c 2 ss_start s \<and> (settled 2 s (\<lambda>pc. pc = Idle) \<and> state_ready (vars s))"
    by (rule run_witness[where sched = "[(1,2),(1,0),(1,0),(1,0),(1,0),
        (0,4),(0,0),(0,0),(0,0),(0,0),(1,0),(1,0),(1,0)]"])
      (simp add: run_simps shared_state_init_def claim_iff emplace_def state_ready_def ready_status_def
        outcome_of_def Let_def settled_def all_less_small)
  then obtain s where "reach ?c 2 ss_start s" "settled 2 s (\<lambda>pc. pc = Idle)" "state_ready (vars s)"
    by blast
  with ss_no_lost_wakeup[of True "\<lambda>_. None" "[()]" "[()]" 2 s 1] show ?thesis by auto
qed

end
