(* ===== verification/Future.thy ===== *)
theory Future
  imports Shared_State
begin

text \<open>
  \<open>future\<close>, \<open>shared_future\<close>, \<open>promise\<close> and \<open>packaged_task\<close> of \<open>include/coopsync_tbb/future.hpp\<close>: the
  objects that hold a \<open>std::shared_ptr\<close> to a shared state, one operation after the other. A
  call that would suspend the task is an outcome of its own; what happens while it is suspended
  is the subject of \<open>Shared_State\<close>, and \<open>set_value_runs\<close> to \<open>break_promise_runs\<close> tie the
  functions on one shared state here to the instruction table there.
\<close>

section \<open>Errors\<close>

datatype future_errc = Promise_broken | Future_already_retrieved | Promise_already_satisfied | No_state

text \<open>Exceptions: \<open>future_error\<close>, \<open>std::bad_function_call\<close>, and those of the user.\<close>

datatype 'e exn = Future_error future_errc | Bad_function_call | User 'e

text \<open>
  Why a call does not return a result: it throws, it suspends the task, an assertion fails, or
  a null exception pointer is rethrown.
\<close>

datatype 'e failure = Thrown "'e exn" | Would_suspend | Assertion_failed | Null_rethrown

section \<open>One shared state\<close>

text \<open>The three templates: \<open>T\<close>, \<open>T&\<close> and \<open>void\<close>.\<close>

datatype kind = Object | Reference | Nothing

type_synonym ('a, 'e) cell = "('a, 'e exn) shared_state"

definition set_exception :: "'e exn \<Rightarrow> ('a, 'e) cell \<Rightarrow> ('e exn + unit) \<times> ('a, 'e) cell" where
  "set_exception e m =
     (let r = claim Transition m in
      if \<not> fst r then (Inl (Future_error Promise_already_satisfied), snd r)
      else (Inr (), (snd r)\<lparr>st_exception := Some e, st_status := Exception\<rparr>))"

definition break_promise :: "('a, 'e) cell \<Rightarrow> ('a, 'e) cell" where
  "break_promise m = snd (claim Broken m)"

definition cell_wait :: "('a, 'e) cell \<Rightarrow> 'e failure + unit" where
  "cell_wait m = (if state_ready m then Inr () else Inl Would_suspend)"

definition set_object ::
  "('a \<Rightarrow> 'e exn option) \<Rightarrow> 'a \<Rightarrow> ('a, 'e) cell \<Rightarrow> ('e exn + unit) \<times> ('a, 'e) cell"
where
  "set_object throws v m =
     (let r = claim Transition m in
      if \<not> fst r then (Inl (Future_error Promise_already_satisfied), snd r)
      else case emplace throws v (snd r) of
             Inl e \<Rightarrow> (Inr (), (snd r)\<lparr>st_exception := Some e, st_status := Exception\<rparr>)
           | Inr m' \<Rightarrow> (Inr (), m'\<lparr>st_status := Value\<rparr>))"

definition set_void :: "('a, 'e) cell \<Rightarrow> ('e exn + unit) \<times> ('a, 'e) cell" where
  "set_void m =
     (let r = claim Value m in
      if \<not> fst r then (Inl (Future_error Promise_already_satisfied), snd r) else (Inr (), snd r))"

text \<open>For \<open>T&\<close> the stored value is the address of the referenced object.\<close>

definition set_reference :: "'a \<Rightarrow> ('a, 'e) cell \<Rightarrow> ('e exn + unit) \<times> ('a, 'e) cell" where
  "set_reference p m =
     (let r = claim Transition m in
      if \<not> fst r then (Inl (Future_error Promise_already_satisfied), snd r)
      else (Inr (), (snd r)\<lparr>st_value := Some p, st_status := Value\<rparr>))"

fun set_cell ::
  "kind \<Rightarrow> ('a \<Rightarrow> 'e exn option) \<Rightarrow> 'a \<Rightarrow> ('a, 'e) cell \<Rightarrow> ('e exn + unit) \<times> ('a, 'e) cell"
where
  "set_cell Object throws v = set_object throws v"
| "set_cell Reference throws v = set_reference v"
| "set_cell Nothing throws v = set_void"

definition throw_if_exception_or_broken :: "('a, 'e) cell \<Rightarrow> 'e failure + unit" where
  "throw_if_exception_or_broken m =
     (if st_status m = Exception
      then (case st_exception m of Some e \<Rightarrow> Inl (Thrown e) | None \<Rightarrow> Inl Null_rethrown)
      else if st_status m = Broken then Inl (Thrown (Future_error Promise_broken))
      else if st_status m = Value then Inr ()
      else Inl Assertion_failed)"

section \<open>Objects\<close>

datatype handle = Fut nat | Shf nat | Prom nat | Task nat

text \<open>
  The objects of one instance of the templates, by name. \<open>ptr\<close> is the \<open>m_state\<close> of each object;
  shared states are allocated at ascending addresses, and one is released when no pointer to it is
  left, which no operation can observe. \<open>callable\<close> is the \<open>m_function\<close> of a packaged task.
  \<open>invocations\<close> counts the calls of wrapped callables.
\<close>

record ('a, 'e, 'x) world =
  ptr :: "handle \<Rightarrow> nat option"
  cells :: "nat \<Rightarrow> ('a, 'e) cell"
  fresh :: nat
  callable :: "nat \<Rightarrow> ('x \<Rightarrow> 'e exn + 'a) option"
  invocations :: nat

definition empty_world :: "('a, 'e, 'x) world" where
  "empty_world = \<lparr>ptr = (\<lambda>_. None), cells = (\<lambda>_. shared_state_init), fresh = 0,
                  callable = (\<lambda>_. None), invocations = 0\<rparr>"

type_synonym ('r, 'a, 'e, 'x) operation =
  "('a, 'e, 'x) world \<Rightarrow> ('e failure + 'r) \<times> ('a, 'e, 'x) world"

definition set_ptr :: "handle \<Rightarrow> nat option \<Rightarrow> ('a, 'e, 'x) world \<Rightarrow> ('a, 'e, 'x) world" where
  "set_ptr h p w = w\<lparr>ptr := (ptr w)(h := p)\<rparr>"

text \<open>Moving a \<open>std::shared_ptr\<close> leaves the source empty; moving it to itself changes nothing.\<close>

definition move_ptr :: "handle \<Rightarrow> handle \<Rightarrow> ('a, 'e, 'x) world \<Rightarrow> ('a, 'e, 'x) world" where
  "move_ptr to from w = w\<lparr>ptr := ((ptr w)(from := None))(to := ptr w from)\<rparr>"

definition swap_ptr :: "handle \<Rightarrow> handle \<Rightarrow> ('a, 'e, 'x) world \<Rightarrow> ('a, 'e, 'x) world" where
  "swap_ptr h k w = w\<lparr>ptr := (ptr w)(h := ptr w k, k := ptr w h)\<rparr>"

definition set_at :: "nat \<Rightarrow> ('a, 'e) cell \<Rightarrow> ('a, 'e, 'x) world \<Rightarrow> ('a, 'e, 'x) world" where
  "set_at a m w = w\<lparr>cells := (cells w)(a := m)\<rparr>"

text \<open>\<open>std::make_shared\<close> and \<open>std::allocate_shared\<close>.\<close>

definition make_state :: "handle \<Rightarrow> ('a, 'e, 'x) world \<Rightarrow> ('a, 'e, 'x) world" where
  "make_state h w =
     w\<lparr>ptr := (ptr w)(h := Some (fresh w)), cells := (cells w)(fresh w := shared_state_init),
       fresh := Suc (fresh w)\<rparr>"

text \<open>\<open>ensure_valid\<close>, then the rest of the operation on the shared state.\<close>

definition with_state :: "handle \<Rightarrow> (nat \<Rightarrow> ('r, 'a, 'e, 'x) operation) \<Rightarrow> ('r, 'a, 'e, 'x) operation" where
  "with_state h f w =
     (case ptr w h of None \<Rightarrow> (Inl (Thrown (Future_error No_state)), w) | Some a \<Rightarrow> f a w)"

text \<open>A setter on the shared state at \<open>a\<close>.\<close>

definition update_state ::
  "(('a, 'e) cell \<Rightarrow> ('e exn + unit) \<times> ('a, 'e) cell) \<Rightarrow> nat \<Rightarrow> (unit, 'a, 'e, 'x) operation"
where
  "update_state f a w = (let r = f (cells w a) in (map_sum Thrown id (fst r), set_at a (snd r) w))"

definition break_at :: "handle \<Rightarrow> ('a, 'e, 'x) world \<Rightarrow> ('a, 'e, 'x) world" where
  "break_at h w = (case ptr w h of None \<Rightarrow> w | Some a \<Rightarrow> set_at a (break_promise (cells w a)) w)"

section \<open>Futures\<close>

definition valid :: "handle \<Rightarrow> ('a, 'e, 'x) world \<Rightarrow> bool" where
  "valid h w \<longleftrightarrow> ptr w h \<noteq> None"

definition try_wait :: "handle \<Rightarrow> (bool, 'a, 'e, 'x) operation" where
  "try_wait h = with_state h (\<lambda>a w. (Inr (state_ready (cells w a)), w))"

definition wait :: "handle \<Rightarrow> (unit, 'a, 'e, 'x) operation" where
  "wait h = with_state h (\<lambda>a w. (cell_wait (cells w a), w))"

text \<open>The part of every \<open>get\<close> after \<open>ensure_valid\<close> and before the value is read.\<close>

definition readable :: "('a, 'e) cell \<Rightarrow> 'e failure + unit" where
  "readable m = and_then (cell_wait m) (\<lambda>_. throw_if_exception_or_broken m)"

text \<open>\<open>moved v\<close> is what the move constructor of \<open>T\<close> leaves of \<open>v\<close>.\<close>

definition future_get :: "('a \<Rightarrow> 'a) \<Rightarrow> nat \<Rightarrow> ('a option, 'a, 'e, 'x) operation" where
  "future_get moved f = with_state (Fut f) (\<lambda>a w.
     case readable (cells w a) of
       Inl e \<Rightarrow> (Inl e, w)
     | Inr _ \<Rightarrow>
         (case st_value (cells w a) of
            None \<Rightarrow> (Inl Assertion_failed, w)
          | Some v \<Rightarrow> (Inr (Some v), set_ptr (Fut f) None
                                     (set_at a ((cells w a)\<lparr>st_value := Some (moved v)\<rparr>) w))))"

definition future_void_get :: "nat \<Rightarrow> ('a option, 'a, 'e, 'x) operation" where
  "future_void_get f = with_state (Fut f) (\<lambda>a w.
     case readable (cells w a) of
       Inl e \<Rightarrow> (Inl e, w)
     | Inr _ \<Rightarrow> (Inr None, set_ptr (Fut f) None w))"

definition future_ref_get :: "nat \<Rightarrow> ('a option, 'a, 'e, 'x) operation" where
  "future_ref_get f = with_state (Fut f) (\<lambda>a w.
     case readable (cells w a) of
       Inl e \<Rightarrow> (Inl e, w)
     | Inr _ \<Rightarrow>
         (case st_value (cells w a) of
            None \<Rightarrow> (Inl Assertion_failed, w)
          | Some p \<Rightarrow> (Inr (Some p), set_ptr (Fut f) None w)))"

definition future_share :: "nat \<Rightarrow> nat \<Rightarrow> (unit, 'a, 'e, 'x) operation" where
  "future_share f s = with_state (Fut f) (\<lambda>a w.
     (Inr (), set_ptr (Shf s) (Some a) (set_ptr (Fut f) None w)))"

text \<open>The answers of the operations, and the operations of a future by name.\<close>

datatype 'a answer = Done | Truth bool | Taken "'a option"

definition answer :: "('r \<Rightarrow> 'a answer) \<Rightarrow> ('e failure + 'r) \<times> 'w \<Rightarrow> ('e failure + 'a answer) \<times> 'w" where
  "answer k r = (map_sum id k (fst r), snd r)"

datatype future_op =
    F_default nat | F_move nat nat | F_destroy nat
  | F_valid nat | F_try_wait nat | F_wait nat | F_get nat | F_share nat nat

fun future_base ::
  "(nat \<Rightarrow> ('a option, 'a, 'e, 'x) operation) \<Rightarrow> future_op \<Rightarrow> ('a answer, 'a, 'e, 'x) operation"
where
  "future_base get (F_default f) w = (Inr Done, set_ptr (Fut f) None w)"
| "future_base get (F_move f g) w = (Inr Done, move_ptr (Fut f) (Fut g) w)"
| "future_base get (F_destroy f) w = (Inr Done, set_ptr (Fut f) None w)"
| "future_base get (F_valid f) w = (Inr (Truth (valid (Fut f) w)), w)"
| "future_base get (F_try_wait f) w = answer Truth (try_wait (Fut f) w)"
| "future_base get (F_wait f) w = answer (\<lambda>_. Done) (wait (Fut f) w)"
| "future_base get (F_get f) w = answer Taken (get f w)"
| "future_base get (F_share f s) w = answer (\<lambda>_. Done) (future_share f s w)"

definition future :: "('a \<Rightarrow> 'a) \<Rightarrow> future_op \<Rightarrow> ('a answer, 'a, 'e, 'x) operation" where
  "future moved = future_base (future_get moved)"

definition future_void :: "future_op \<Rightarrow> ('a answer, 'a, 'e, 'x) operation" where
  "future_void = future_base future_void_get"

definition future_ref :: "future_op \<Rightarrow> ('a answer, 'a, 'e, 'x) operation" where
  "future_ref = future_base future_ref_get"

section \<open>Shared futures\<close>

definition shared_get :: "nat \<Rightarrow> ('a option, 'a, 'e, 'x) operation" where
  "shared_get s = with_state (Shf s) (\<lambda>a w.
     case readable (cells w a) of
       Inl e \<Rightarrow> (Inl e, w)
     | Inr _ \<Rightarrow> (case st_value (cells w a) of None \<Rightarrow> (Inl Assertion_failed, w) | Some v \<Rightarrow> (Inr (Some v), w)))"

definition shared_void_get :: "nat \<Rightarrow> ('a option, 'a, 'e, 'x) operation" where
  "shared_void_get s = with_state (Shf s) (\<lambda>a w.
     case readable (cells w a) of Inl e \<Rightarrow> (Inl e, w) | Inr _ \<Rightarrow> (Inr None, w))"

definition shared_ref_get :: "nat \<Rightarrow> ('a option, 'a, 'e, 'x) operation" where
  "shared_ref_get s = with_state (Shf s) (\<lambda>a w.
     case readable (cells w a) of
       Inl e \<Rightarrow> (Inl e, w)
     | Inr _ \<Rightarrow> (case st_value (cells w a) of None \<Rightarrow> (Inl Assertion_failed, w) | Some p \<Rightarrow> (Inr (Some p), w)))"

datatype shared_future_op =
    S_default nat | S_copy nat nat | S_move nat nat | S_destroy nat
  | S_valid nat | S_try_wait nat | S_wait nat | S_get nat

fun shared_base ::
  "(nat \<Rightarrow> ('a option, 'a, 'e, 'x) operation) \<Rightarrow> shared_future_op \<Rightarrow> ('a answer, 'a, 'e, 'x) operation"
where
  "shared_base get (S_default s) w = (Inr Done, set_ptr (Shf s) None w)"
| "shared_base get (S_copy s r) w = (Inr Done, set_ptr (Shf s) (ptr w (Shf r)) w)"
| "shared_base get (S_move s r) w = (Inr Done, move_ptr (Shf s) (Shf r) w)"
| "shared_base get (S_destroy s) w = (Inr Done, set_ptr (Shf s) None w)"
| "shared_base get (S_valid s) w = (Inr (Truth (valid (Shf s) w)), w)"
| "shared_base get (S_try_wait s) w = answer Truth (try_wait (Shf s) w)"
| "shared_base get (S_wait s) w = answer (\<lambda>_. Done) (wait (Shf s) w)"
| "shared_base get (S_get s) w = answer Taken (get s w)"

definition shared_future :: "shared_future_op \<Rightarrow> ('a answer, 'a, 'e, 'x) operation" where
  "shared_future = shared_base shared_get"

definition shared_future_void :: "shared_future_op \<Rightarrow> ('a answer, 'a, 'e, 'x) operation" where
  "shared_future_void = shared_base shared_void_get"

definition shared_future_ref :: "shared_future_op \<Rightarrow> ('a answer, 'a, 'e, 'x) operation" where
  "shared_future_ref = shared_base shared_ref_get"

section \<open>Promises\<close>

text \<open>\<open>mark_future_obtained\<close>, then the future is constructed from the shared state.\<close>

definition retrieve :: "handle \<Rightarrow> nat \<Rightarrow> (unit, 'a, 'e, 'x) operation" where
  "retrieve h f = with_state h (\<lambda>a w.
     let r = obtain_future (cells w a); w' = set_at a (snd r) w in
     if \<not> fst r then (Inl (Thrown (Future_error Future_already_retrieved)), w')
     else (Inr (), set_ptr (Fut f) (Some a) w'))"

datatype ('a, 'e) promise_op =
    P_construct nat | P_move_construct nat nat | P_move_assign nat nat | P_destroy nat | P_swap nat nat
  | P_get_future nat nat | P_set_value nat 'a | P_set_exception nat "'e exn"

text \<open>
  The move assignment is the defaulted one: the pointer is moved, and the shared state that the
  target had is released as it is.
\<close>

fun promise_base ::
  "('a \<Rightarrow> ('a, 'e) cell \<Rightarrow> ('e exn + unit) \<times> ('a, 'e) cell) \<Rightarrow> ('a, 'e) promise_op
    \<Rightarrow> ('a answer, 'a, 'e, 'x) operation"
where
  "promise_base store (P_construct p) w = (Inr Done, make_state (Prom p) w)"
| "promise_base store (P_move_construct p q) w = (Inr Done, move_ptr (Prom p) (Prom q) w)"
| "promise_base store (P_move_assign p q) w = (Inr Done, move_ptr (Prom p) (Prom q) w)"
| "promise_base store (P_destroy p) w = (Inr Done, set_ptr (Prom p) None (break_at (Prom p) w))"
| "promise_base store (P_swap p q) w = (Inr Done, swap_ptr (Prom p) (Prom q) w)"
| "promise_base store (P_get_future p f) w = answer (\<lambda>_. Done) (retrieve (Prom p) f w)"
| "promise_base store (P_set_value p v) w =
     answer (\<lambda>_. Done) (with_state (Prom p) (update_state (store v)) w)"
| "promise_base store (P_set_exception p e) w =
     answer (\<lambda>_. Done) (with_state (Prom p) (update_state (set_exception e)) w)"

definition promise :: "('a \<Rightarrow> 'e exn option) \<Rightarrow> ('a, 'e) promise_op \<Rightarrow> ('a answer, 'a, 'e, 'x) operation" where
  "promise throws = promise_base (set_object throws)"

definition promise_void :: "('a, 'e) promise_op \<Rightarrow> ('a answer, 'a, 'e, 'x) operation" where
  "promise_void = promise_base (\<lambda>_. set_void)"

definition promise_ref :: "('a, 'e) promise_op \<Rightarrow> ('a answer, 'a, 'e, 'x) operation" where
  "promise_ref = promise_base set_reference"

section \<open>Packaged tasks\<close>

text \<open>A call of \<open>m_function\<close>; an empty \<open>std::function\<close> throws.\<close>

definition invoke :: "nat \<Rightarrow> 'x \<Rightarrow> ('a, 'e, 'x) world \<Rightarrow> ('e exn + 'a) \<times> ('a, 'e, 'x) world" where
  "invoke t x w =
     (case callable w t of
        None \<Rightarrow> (Inl Bad_function_call, w)
      | Some f \<Rightarrow> (f x, w\<lparr>invocations := Suc (invocations w)\<rparr>))"

text \<open>The callable first, then \<open>set_value\<close> with its result; both may throw.\<close>

definition invoke_and_set ::
  "('a \<Rightarrow> ('a, 'e) cell \<Rightarrow> ('e exn + unit) \<times> ('a, 'e) cell) \<Rightarrow> nat \<Rightarrow> 'x \<Rightarrow> nat
    \<Rightarrow> (unit, 'a, 'e, 'x) operation"
where
  "invoke_and_set store t x a w =
     (let r = invoke t x w in
      case fst r of Inl e \<Rightarrow> (Inl (Thrown e), snd r) | Inr v \<Rightarrow> update_state (store v) a (snd r))"

definition task_call ::
  "('a \<Rightarrow> ('a, 'e) cell \<Rightarrow> ('e exn + unit) \<times> ('a, 'e) cell) \<Rightarrow> nat \<Rightarrow> 'x \<Rightarrow> (unit, 'a, 'e, 'x) operation"
where
  "task_call store t x = with_state (Task t) (\<lambda>a w.
     case invoke_and_set store t x a w of
       (Inl (Thrown e), w') \<Rightarrow> update_state (set_exception e) a w'
     | r \<Rightarrow> r)"

definition set_callable ::
  "nat \<Rightarrow> ('x \<Rightarrow> 'e exn + 'a) option \<Rightarrow> ('a, 'e, 'x) world \<Rightarrow> ('a, 'e, 'x) world"
where
  "set_callable t f w = w\<lparr>callable := (callable w)(t := f)\<rparr>"

definition task_construct :: "nat \<Rightarrow> ('x \<Rightarrow> 'e exn + 'a) \<Rightarrow> ('a, 'e, 'x) world \<Rightarrow> ('a, 'e, 'x) world" where
  "task_construct t f w = make_state (Task t) (set_callable t (Some f) w)"

definition task_move_construct :: "nat \<Rightarrow> nat \<Rightarrow> ('a, 'e, 'x) world \<Rightarrow> ('a, 'e, 'x) world" where
  "task_move_construct t u w =
     set_ptr (Task u) None (set_callable u None
       (move_ptr (Task t) (Task u) (set_callable t (callable w u) w)))"

definition task_move_assign :: "nat \<Rightarrow> nat \<Rightarrow> ('a, 'e, 'x) world \<Rightarrow> ('a, 'e, 'x) world" where
  "task_move_assign t u w =
     (if t = u then w
      else (let w1 = set_ptr (Task t) None (break_at (Task t) w);
                w2 = move_ptr (Task t) (Task u) (set_callable t (callable w1 u) w1)
            in set_ptr (Task u) None (set_callable u None w2)))"

definition task_destroy :: "nat \<Rightarrow> ('a, 'e, 'x) world \<Rightarrow> ('a, 'e, 'x) world" where
  "task_destroy t w = set_callable t None (set_ptr (Task t) None (break_at (Task t) w))"

definition task_swap :: "nat \<Rightarrow> nat \<Rightarrow> ('a, 'e, 'x) world \<Rightarrow> ('a, 'e, 'x) world" where
  "task_swap t u w =
     swap_ptr (Task t) (Task u) (w\<lparr>callable := (callable w)(t := callable w u, u := callable w t)\<rparr>)"

text \<open>The new shared state is made first; then the old one is broken and let go.\<close>

definition task_reset :: "nat \<Rightarrow> (unit, 'a, 'e, 'x) operation" where
  "task_reset t = with_state (Task t) (\<lambda>a w. (Inr (), make_state (Task t) (break_at (Task t) w)))"

datatype ('a, 'e, 'x) task_op =
    T_default nat | T_construct nat "'x \<Rightarrow> 'e exn + 'a" | T_move_construct nat nat | T_move_assign nat nat
  | T_destroy nat | T_valid nat | T_swap nat nat | T_get_future nat nat | T_call nat 'x | T_reset nat

fun packaged_task ::
  "('a \<Rightarrow> ('a, 'e) cell \<Rightarrow> ('e exn + unit) \<times> ('a, 'e) cell) \<Rightarrow> ('a, 'e, 'x) task_op
    \<Rightarrow> ('a answer, 'a, 'e, 'x) operation"
where
  "packaged_task store (T_default t) w = (Inr Done, set_callable t None (set_ptr (Task t) None w))"
| "packaged_task store (T_construct t f) w = (Inr Done, task_construct t f w)"
| "packaged_task store (T_move_construct t u) w = (Inr Done, task_move_construct t u w)"
| "packaged_task store (T_move_assign t u) w = (Inr Done, task_move_assign t u w)"
| "packaged_task store (T_destroy t) w = (Inr Done, task_destroy t w)"
| "packaged_task store (T_valid t) w = (Inr (Truth (valid (Task t) w)), w)"
| "packaged_task store (T_swap t u) w = (Inr Done, task_swap t u w)"
| "packaged_task store (T_get_future t f) w = answer (\<lambda>_. Done) (retrieve (Task t) f w)"
| "packaged_task store (T_call t x) w = answer (\<lambda>_. Done) (task_call store t x w)"
| "packaged_task store (T_reset t) w = answer (\<lambda>_. Done) (task_reset t w)"

section \<open>Programs\<close>

text \<open>A call of any operation on the objects of one instance, and a sequence of calls.\<close>

datatype ('a, 'e, 'x) command =
    On_future future_op | On_shared shared_future_op
  | On_promise "('a, 'e) promise_op" | On_task "('a, 'e, 'x) task_op"

fun perform ::
  "kind \<Rightarrow> ('a \<Rightarrow> 'e exn option) \<Rightarrow> ('a \<Rightarrow> 'a) \<Rightarrow> ('a, 'e, 'x) command \<Rightarrow> ('a answer, 'a, 'e, 'x) operation"
where
  "perform k throws moved (On_future op) =
     (case k of Object \<Rightarrow> future moved op | Reference \<Rightarrow> future_ref op | Nothing \<Rightarrow> future_void op)"
| "perform k throws moved (On_shared op) =
     (case k of Object \<Rightarrow> shared_future op | Reference \<Rightarrow> shared_future_ref op
      | Nothing \<Rightarrow> shared_future_void op)"
| "perform k throws moved (On_promise op) =
     (case k of Object \<Rightarrow> promise throws op | Reference \<Rightarrow> promise_ref op | Nothing \<Rightarrow> promise_void op)"
| "perform k throws moved (On_task op) = packaged_task (set_cell k throws) op"

fun perform_all ::
  "kind \<Rightarrow> ('a \<Rightarrow> 'e exn option) \<Rightarrow> ('a \<Rightarrow> 'a) \<Rightarrow> ('a, 'e, 'x) command list \<Rightarrow> ('a, 'e, 'x) world
    \<Rightarrow> ('e failure + 'a answer) list \<times> ('a, 'e, 'x) world"
where
  "perform_all k throws moved [] w = ([], w)"
| "perform_all k throws moved (c # cs) w =
     (let r = perform k throws moved c w; rs = perform_all k throws moved cs (snd r)
      in (fst r # fst rs, snd rs))"

text \<open>
  What C++ asks of the program: a constructor makes its object in a place that holds no
  valid object of the class, and a move constructor takes from another object.
\<close>

fun allowed :: "('a, 'e, 'x) command \<Rightarrow> ('a, 'e, 'x) world \<Rightarrow> bool" where
  "allowed (On_promise (P_construct p)) w \<longleftrightarrow> \<not> valid (Prom p) w"
| "allowed (On_promise (P_move_construct p q)) w \<longleftrightarrow> \<not> valid (Prom p) w \<and> p \<noteq> q"
| "allowed (On_task (T_default t)) w \<longleftrightarrow> \<not> valid (Task t) w"
| "allowed (On_task (T_construct t f)) w \<longleftrightarrow> \<not> valid (Task t) w"
| "allowed (On_task (T_move_construct t u)) w \<longleftrightarrow> \<not> valid (Task t) w \<and> t \<noteq> u"
| "allowed c w \<longleftrightarrow> True"

end
