(* ===== verification/Future_Contract.thy ===== *)
theory Future_Contract
  imports Future Machine_Run
begin

text \<open>
  What the objects of \<open>include/coopsync_tbb/future.hpp\<close> promise their users, for every
  program that uses any number of them: pointers and ownership stay well formed, a shared state
  is satisfied once, no state without a provider is left without an outcome (but for the
  defaulted move assignment of \<open>promise\<close>), and the round trip from \<open>set_value\<close> to \<open>get\<close>.
\<close>

section \<open>Shared states\<close>

lemma set_exception_iff: "set_exception e m =
    (if st_status m = Empty
     then (Inr (), m\<lparr>st_status := Exception, st_exception := Some e, wins := wins m + 1\<rparr>)
     else (Inl (Future_error Promise_already_satisfied), m))"
  by (simp add: set_exception_def claim_iff Let_def)

lemma break_promise_iff:
  "break_promise m = (if st_status m = Empty then m\<lparr>st_status := Broken, wins := wins m + 1\<rparr> else m)"
  by (simp add: break_promise_def claim_iff)

lemma set_void_iff: "set_void m =
    (if st_status m = Empty then (Inr (), m\<lparr>st_status := Value, wins := wins m + 1\<rparr>)
     else (Inl (Future_error Promise_already_satisfied), m))"
  by (simp add: set_void_def claim_iff Let_def)

lemma set_reference_iff: "set_reference p m =
    (if st_status m = Empty
     then (Inr (), m\<lparr>st_status := Value, st_value := Some p, wins := wins m + 1\<rparr>)
     else (Inl (Future_error Promise_already_satisfied), m))"
  by (simp add: set_reference_def claim_iff Let_def)

lemma set_object_iff: "set_object throws v m =
    (if st_status m = Empty
     then (Inr (), (case throws v of
            Some e \<Rightarrow> m\<lparr>st_status := Exception, st_exception := Some e, wins := wins m + 1\<rparr>
          | None \<Rightarrow> m\<lparr>st_status := Value, st_value := Some v, wins := wins m + 1\<rparr>))
     else (Inl (Future_error Promise_already_satisfied), m))"
  by (simp add: set_object_def claim_iff emplace_def Let_def split: option.splits)

lemmas cell_iffs = set_exception_iff break_promise_iff set_void_iff set_reference_iff set_object_iff

definition cell_ok :: "kind \<Rightarrow> ('a, 'e) cell \<Rightarrow> bool" where
  "cell_ok k m \<longleftrightarrow> state_ok (k = Nothing) m \<and> st_status m \<noteq> Transition"

text \<open>What an operation may do to a shared state.\<close>

definition evolves :: "kind \<Rightarrow> ('a, 'e) cell \<Rightarrow> ('a, 'e) cell \<Rightarrow> bool" where
  "evolves k m m' \<longleftrightarrow> (cell_ok k m \<longrightarrow> cell_ok k m') \<and> st_status m \<le> st_status m'
     \<and> (future_obtained m \<longrightarrow> future_obtained m')
     \<and> (state_ready m \<longrightarrow> st_exception m' = st_exception m)"

lemmas cell_defs = evolves_def cell_ok_def state_ok_def less_eq_status_def state_ready_def ready_status_def

lemma evolves_refl [simp, intro]: "evolves k m m"
  by (simp add: evolves_def)

lemma evolves_trans: "evolves k m1 m2 \<Longrightarrow> evolves k m2 m3 \<Longrightarrow> evolves k m1 m3"
  unfolding evolves_def using ready_final state_ready_def order_trans by metis

lemma evolves_ready:
  "evolves k m m' \<Longrightarrow> state_ready m \<Longrightarrow> st_status m' = st_status m"
  "evolves k m m' \<Longrightarrow> state_ready m \<Longrightarrow> state_ready m'"
proof -
  assume e: "evolves k m m'" and r: "state_ready m"
  show "st_status m' = st_status m"
    by (rule ready_final) (use e r in \<open>simp_all add: evolves_def state_ready_def\<close>)
  with r show "state_ready m'" by (simp add: state_ready_def)
qed

lemma evolves_set:
  "evolves k m (snd (set_exception e m))" "evolves k m (break_promise m)"
  "evolves k m (snd (obtain_future m))" "evolves k m (snd (set_cell k throws v m))"
  by (cases k; auto simp: cell_iffs obtain_future_iff cell_defs split: option.splits)+

lemma break_promise_ready: "cell_ok k m \<Longrightarrow> state_ready (break_promise m)"
  using status.exhaust[of "st_status m"] by (auto simp: break_promise_iff cell_defs)

text \<open>A cell that is well formed and ready gives \<open>get\<close> something to return or to throw.\<close>

lemma readable_iff:
  assumes "cell_ok k m"
  shows "readable m =
    (case st_status m of
       Empty \<Rightarrow> Inl Would_suspend
     | Exception \<Rightarrow> Inl (Thrown (the (st_exception m)))
     | Broken \<Rightarrow> Inl (Thrown (Future_error Promise_broken))
     | _ \<Rightarrow> Inr ())"
  using assms by (auto simp: readable_def cell_wait_def throw_if_exception_or_broken_def cell_defs
      split: status.splits)

section \<open>Setters as an interface\<close>

text \<open>
  What the four setters have in common: on an empty shared state they succeed and make it ready, on
  any other they throw \<open>promise_already_satisfied\<close> and change nothing.
\<close>

locale satisfier =
  fixes store :: "'i \<Rightarrow> ('a, 'e) cell \<Rightarrow> ('e exn + unit) \<times> ('a, 'e) cell"
  assumes first: "st_status m = Empty \<Longrightarrow> fst (store i m) = Inr () \<and> state_ready (snd (store i m))"
    and taken: "st_status m \<noteq> Empty \<Longrightarrow> store i m = (Inl (Future_error Promise_already_satisfied), m)"
begin

fun store_all :: "'i list \<Rightarrow> ('a, 'e) cell \<Rightarrow> ('e exn + unit) list \<times> ('a, 'e) cell" where
  "store_all [] m = ([], m)"
| "store_all (i # is) m = (let r = store i m; rs = store_all is (snd r) in (fst r # fst rs, snd rs))"

lemma taken_all:
  "st_status m \<noteq> Empty
    \<Longrightarrow> store_all is m = (replicate (length is) (Inl (Future_error Promise_already_satisfied)), m)"
  by (induction "is" arbitrary: m) (simp_all add: taken Let_def)

text \<open>Of any sequence of setters exactly the first succeeds, and the rest leave its outcome.\<close>

lemma first_wins:
  assumes "st_status m = Empty"
  shows "store_all (i # is) m =
    (Inr () # replicate (length is) (Inl (Future_error Promise_already_satisfied)), snd (store i m))"
proof -
  have "st_status (snd (store i m)) \<noteq> Empty"
    using first[OF assms, of i] by (auto simp: state_ready_def ready_status_def)
  with first[OF assms, of i] show ?thesis by (simp add: Let_def taken_all)
qed

end

datatype ('a, 'e) cell_setter = By_value 'a | By_exception "'e exn"

fun store_with ::
  "kind \<Rightarrow> ('a \<Rightarrow> 'e exn option) \<Rightarrow> ('a, 'e) cell_setter \<Rightarrow> ('a, 'e) cell
    \<Rightarrow> ('e exn + unit) \<times> ('a, 'e) cell"
where
  "store_with k throws (By_value v) = set_cell k throws v"
| "store_with k throws (By_exception e) = set_exception e"

interpretation sat: satisfier "store_with k throws" for k throws
proof
  show "fst (store_with k throws i m) = Inr () \<and> state_ready (snd (store_with k throws i m))"
    if "st_status m = Empty" for m :: "('a, 'b) cell" and i
    using that by (cases i; cases k)
      (auto simp: cell_iffs state_ready_def ready_status_def split: option.splits)
  show "store_with k throws i m = (Inl (Future_error Promise_already_satisfied), m)"
    if "st_status m \<noteq> Empty" for m :: "('a, 'b) cell" and i
    using that by (cases i; cases k) (auto simp: cell_iffs)
qed

section \<open>Well-formed worlds\<close>

fun provider :: "handle \<Rightarrow> bool" where
  "provider (Prom p) \<longleftrightarrow> True" | "provider (Task t) \<longleftrightarrow> True" | "provider _ \<longleftrightarrow> False"

abbreviation consumer :: "handle \<Rightarrow> bool" where
  "consumer h \<equiv> \<not> provider h"

text \<open>
  Pointers refer to allocated states; a state has at most one provider; a future is the only
  consumer of its state; and a state has consumers only after \<open>get_future\<close>.
\<close>

definition links_ok :: "('a, 'e, 'x) world \<Rightarrow> bool" where
  "links_ok w \<longleftrightarrow>
     (\<forall>h a. ptr w h = Some a \<longrightarrow> a < fresh w)
     \<and> (\<forall>h h' a. ptr w h = Some a \<longrightarrow> ptr w h' = Some a \<longrightarrow> provider h \<longrightarrow> provider h' \<longrightarrow> h = h')
     \<and> (\<forall>f h a. ptr w (Fut f) = Some a \<longrightarrow> ptr w h = Some a \<longrightarrow> consumer h \<longrightarrow> h = Fut f)
     \<and> (\<forall>h a. ptr w h = Some a \<longrightarrow> consumer h \<longrightarrow> future_obtained (cells w a))"

definition world_ok :: "kind \<Rightarrow> ('a, 'e, 'x) world \<Rightarrow> bool" where
  "world_ok k w \<longleftrightarrow> links_ok w \<and> (\<forall>a. cell_ok k (cells w a))
     \<and> (\<forall>t. valid (Task t) w \<longrightarrow> callable w t \<noteq> None)"

text \<open>Every state that is not ready still has a provider.\<close>

definition attended :: "('a, 'e, 'x) world \<Rightarrow> bool" where
  "attended w \<longleftrightarrow> (\<forall>a<fresh w. \<not> state_ready (cells w a) \<longrightarrow> (\<exists>h. provider h \<and> ptr w h = Some a))"

lemmas ptr_defs = set_ptr_def move_ptr_def swap_ptr_def set_at_def make_state_def set_callable_def valid_def

lemma world_empty: "world_ok k empty_world" "attended empty_world"
  by (simp_all add: world_ok_def links_ok_def attended_def empty_world_def cell_ok_def state_ok_def
      shared_state_init_def valid_def)

lemma world_evolve:
  assumes "world_ok k w" "evolves k (cells w a) m"
  shows "world_ok k (set_at a m w)"
  using assms by (auto simp: world_ok_def links_ok_def ptr_defs evolves_def)

text \<open>
  Moves, swaps, copies and destructions rename pointers: after the operation each object \<open>h\<close> has
  the pointer that the object \<open>src h\<close> had, or none.
\<close>

fun same_class :: "handle \<Rightarrow> handle \<Rightarrow> bool" where
  "same_class (Fut f) (Fut g) \<longleftrightarrow> True"
| "same_class (Shf f) (Shf g) \<longleftrightarrow> True"
| "same_class (Prom f) (Prom g) \<longleftrightarrow> True"
| "same_class (Task f) (Task g) \<longleftrightarrow> True"
| "same_class _ _ \<longleftrightarrow> False"

lemma same_classD:
  "same_class h h' \<Longrightarrow> provider h = provider h'"
  "same_class (Fut f) h' \<Longrightarrow> \<exists>g. h' = Fut g"
  "same_class h (Shf s) \<Longrightarrow> \<exists>r. h = Shf r"
  by (cases h; cases h'; auto)+

lemma links_rename:
  assumes w: "links_ok w" and p: "\<And>h. ptr w' h = Option.bind (src h) (ptr w)"
    and c: "\<And>h h0. src h = Some h0 \<Longrightarrow> same_class h h0"
    and inj: "\<And>h h' x. src h = Some x \<Longrightarrow> src h' = Some x \<Longrightarrow> \<nexists>s. x = Shf s \<Longrightarrow> h = h'"
    and o: "cells w' = cells w" "fresh w' = fresh w"
  shows "links_ok w'"
proof -
  have D: "\<exists>h0. src h = Some h0 \<and> ptr w h0 = Some a \<and> same_class h h0" if "ptr w' h = Some a" for h a
    using that p[of h] c by (auto split: bind_splits)
  have "a < fresh w'" if "ptr w' h = Some a" for h a
    using D[OF that] w o by (auto simp: links_ok_def)
  moreover have "h = h'"
    if a: "ptr w' h = Some a" "ptr w' h' = Some a" "provider h" "provider h'" for h h' a
  proof -
    obtain x y where xy: "src h = Some x" "ptr w x = Some a" "same_class h x"
      "src h' = Some y" "ptr w y = Some a" "same_class h' y" using D[OF a(1)] D[OF a(2)] by blast
    then have px: "provider x" "provider y" using a(3,4) same_classD(1) by blast+
    then have "x = y" using w xy unfolding links_ok_def by blast
    moreover have "\<nexists>s. x = Shf s" using px by auto
    ultimately show ?thesis using inj xy by blast
  qed
  moreover have "h = Fut f"
    if a: "ptr w' (Fut f) = Some a" "ptr w' h = Some a" "consumer h" for f h a
  proof -
    obtain x y where xy: "src (Fut f) = Some x" "ptr w x = Some a" "same_class (Fut f) x"
      "src h = Some y" "ptr w y = Some a" "same_class h y" using D[OF a(1)] D[OF a(2)] by blast
    obtain g where g: "x = Fut g" using same_classD(2)[OF xy(3)] by blast
    have "consumer y" using a(3) xy(6) same_classD(1) by blast
    then have "y = Fut g" using w xy g unfolding links_ok_def by blast
    then show ?thesis using inj[of h "Fut g" "Fut f"] xy g by blast
  qed
  moreover have "future_obtained (cells w' a)" if a: "ptr w' h = Some a" "consumer h" for h a
  proof -
    obtain x where "ptr w x = Some a" "same_class h x" using D[OF a(1)] by blast
    then show ?thesis using w a(2) o same_classD(1) unfolding links_ok_def by metis
  qed
  ultimately show ?thesis unfolding links_ok_def by blast
qed

definition src_move :: "handle \<Rightarrow> handle \<Rightarrow> handle \<Rightarrow> handle option" where
  "src_move to from h = (if h = to then Some from else if h = from then None else Some h)"

definition src_swap :: "handle \<Rightarrow> handle \<Rightarrow> handle \<Rightarrow> handle option" where
  "src_swap h k x = Some (if x = k then h else if x = h then k else x)"

definition src_drop :: "handle \<Rightarrow> handle \<Rightarrow> handle option" where
  "src_drop h x = (if x = h then None else Some x)"

definition src_copy :: "handle \<Rightarrow> handle \<Rightarrow> handle \<Rightarrow> handle option" where
  "src_copy to from x = Some (if x = to then from else x)"

lemma same_class_refl [simp]: "same_class h h"
  by (cases h) simp_all

lemma same_class_sym: "same_class h k \<Longrightarrow> same_class k h"
  by (cases h; cases k) simp_all

lemma links_move: "links_ok w \<Longrightarrow> same_class h k \<Longrightarrow> links_ok (move_ptr h k w)"
  by (rule links_rename[where src = "src_move h k"])
    (auto simp: src_move_def move_ptr_def split: if_splits)

lemma links_swap: "links_ok w \<Longrightarrow> same_class h k \<Longrightarrow> links_ok (swap_ptr h k w)"
  by (rule links_rename[where src = "src_swap h k"])
    (auto simp: src_swap_def swap_ptr_def same_class_sym split: if_splits)

lemma links_drop: "links_ok w \<Longrightarrow> links_ok (set_ptr h None w)"
  by (rule links_rename[where src = "src_drop h"])
    (auto simp: src_drop_def set_ptr_def split: if_splits)

lemma links_copy: "links_ok w \<Longrightarrow> links_ok (set_ptr (Shf s) (ptr w (Shf r)) w)"
  by (rule links_rename[where src = "src_copy (Shf s) (Shf r)"])
    (auto simp: src_copy_def set_ptr_def split: if_splits)

text \<open>The owner of the state changes class when a future is shared.\<close>

lemma links_share:
  assumes w: "links_ok w" and a: "ptr w (Fut f) = Some a"
  shows "links_ok (set_ptr (Shf s) (Some a) (set_ptr (Fut f) None w))"
proof -
  have other: "consumer h \<Longrightarrow> ptr w h = Some a \<Longrightarrow> h = Fut f" for h
    using w a unfolding links_ok_def by blast
  have only: "ptr w (Fut g) = Some a \<Longrightarrow> g = f" "ptr w (Shf r) \<noteq> Some a" for g r
    using other[of "Fut g"] other[of "Shf r"] by auto
  show ?thesis using w a unfolding links_ok_def ptr_defs
    by (auto split: if_splits dest: only(1) simp: only(2))
qed

lemma links_make:
  assumes "links_ok w" "provider h"
  shows "links_ok (make_state h w)"
proof -
  have "ptr w x \<noteq> Some (fresh w)" for x using assms unfolding links_ok_def by blast
  with assms show ?thesis unfolding links_ok_def ptr_defs by (auto split: if_splits simp: less_Suc_eq)
qed

lemma links_retrieve:
  assumes "links_ok w" "ptr w h = Some a" "provider h" "\<not> future_obtained (cells w a)"
  shows "links_ok (set_ptr (Fut f) (Some a) (set_at a ((cells w a)\<lparr>future_obtained := True, handed_out := x\<rparr>) w))"
  using assms unfolding links_ok_def ptr_defs by (auto split: if_splits)

section \<open>Every operation keeps the world well formed\<close>

lemma with_state_cases:
  assumes "ptr w h = None \<Longrightarrow> P (Inl (Thrown (Future_error No_state)), w)"
    and "\<And>a. ptr w h = Some a \<Longrightarrow> P (f a w)"
  shows "P (with_state h f w)"
  using assms by (simp add: with_state_def split: option.splits)

lemma world_okI:
  "world_ok k w \<Longrightarrow> links_ok w' \<Longrightarrow> cells w' = cells w
    \<Longrightarrow> (\<And>t. valid (Task t) w' \<Longrightarrow> callable w' t \<noteq> None) \<Longrightarrow> world_ok k w'"
  by (simp add: world_ok_def)

lemma world_okD:
  "world_ok k w \<Longrightarrow> links_ok w" "world_ok k w \<Longrightarrow> cell_ok k (cells w a)"
  "world_ok k w \<Longrightarrow> valid (Task t) w \<Longrightarrow> callable w t \<noteq> None"
  by (simp_all add: world_ok_def)

lemma links_callable [simp]: "links_ok (set_callable t f w) = links_ok w"
  by (simp add: links_ok_def ptr_defs)

lemma links_plain [simp]:
  "links_ok (w\<lparr>callable := c\<rparr>) = links_ok w" "links_ok (w\<lparr>invocations := i\<rparr>) = links_ok w"
  by (simp_all add: links_ok_def)

lemma answer_snd [simp]: "snd (answer k r) = snd r"
  by (simp add: answer_def)

lemma world_break: "world_ok k w \<Longrightarrow> world_ok k (break_at h w)"
  by (auto simp: break_at_def intro!: world_evolve evolves_set split: option.splits)

lemma world_update:
  "world_ok k w \<Longrightarrow> (\<And>m. evolves k m (snd (f m))) \<Longrightarrow> world_ok k (snd (update_state f a w))"
  by (simp add: update_state_def Let_def world_evolve)

lemma world_drop:
  assumes "world_ok k w"
  shows "world_ok k (set_ptr h None w)"
  by (rule world_okI[OF assms links_drop[OF world_okD(1)[OF assms]]])
    (use assms in \<open>auto simp: world_ok_def ptr_defs split: if_splits\<close>)

lemma world_move:
  assumes "world_ok k w" "same_class h g" "\<And>t. h \<noteq> Task t"
  shows "world_ok k (move_ptr h g w)"
  by (rule world_okI[OF assms(1) links_move[OF world_okD(1)[OF assms(1)] assms(2)]])
    (use assms in \<open>auto simp: world_ok_def ptr_defs split: if_splits\<close>)

lemma world_make:
  assumes "world_ok k w" "provider h" "\<And>t. h = Task t \<Longrightarrow> callable w t \<noteq> None"
  shows "world_ok k (make_state h w)"
proof -
  have "cell_ok k shared_state_init" by (simp add: cell_ok_def state_ok_def shared_state_init_def)
  with assms links_make[OF world_okD(1)[OF assms(1)] assms(2)] show ?thesis
    by (auto simp: world_ok_def ptr_defs split: if_splits)
qed

lemma world_retrieve:
  assumes w: "world_ok k w" and h: "provider h"
  shows "world_ok k (snd (retrieve h f w))"
  unfolding retrieve_def
proof (rule with_state_cases)
  fix a assume a: "ptr w h = Some a"
  show "world_ok k (snd (let r = obtain_future (cells w a); w' = set_at a (snd r) w in
     if \<not> fst r then (Inl (Thrown (Future_error Future_already_retrieved)), w')
     else (Inr (), set_ptr (Fut f) (Some a) w')))"
  proof (cases "future_obtained (cells w a)")
    case True
    with w show ?thesis by (simp add: obtain_future_iff Let_def world_evolve)
  next
    case False
    have "links_ok (set_ptr (Fut f) (Some a) (set_at a (snd (obtain_future (cells w a))) w))"
      using links_retrieve[OF world_okD(1)[OF w] a h False] False by (simp add: obtain_future_iff)
    then show ?thesis using w evolves_set(3)[of k "cells w a"] False
      by (auto simp: obtain_future_iff Let_def world_ok_def ptr_defs evolves_def split: if_splits)
  qed
qed (use w in simp)

lemma world_future:
  assumes "world_ok k w" "\<And>f. world_ok k (snd (get f w))"
  shows "world_ok k (snd (future_base get op w))"
proof (cases op)
  case (F_share f s)
  have "world_ok k (snd (future_share f s w))" unfolding future_share_def
  proof (rule with_state_cases)
    fix a assume "ptr w (Fut f) = Some a"
    from world_okI[OF assms(1) links_share[OF world_okD(1)[OF assms(1)] this]] assms(1)
    show "world_ok k (snd (Inr (), set_ptr (Shf s) (Some a) (set_ptr (Fut f) None w)))"
      by (auto simp: ptr_defs world_ok_def)
  qed (use assms in simp)
  with F_share show ?thesis by simp
qed (use assms in \<open>auto simp: try_wait_def wait_def intro!: world_drop world_move
      with_state_cases[of w _ "\<lambda>r. world_ok k (snd r)"]\<close>)

lemma world_get:
  assumes "world_ok k w"
  shows "world_ok k (snd (future_void_get f w))" "world_ok k (snd (future_ref_get f w))"
    "world_ok k (snd (future_get moved f w))"
    "snd (shared_get f w) = w" "snd (shared_void_get f w) = w" "snd (shared_ref_get f w) = w"
proof -
  have ev: "evolves k (cells w a) ((cells w a)\<lparr>st_value := Some v\<rparr>)" for a v
    by (auto simp: cell_defs)
  show "world_ok k (snd (future_void_get f w))" "world_ok k (snd (future_ref_get f w))"
    "world_ok k (snd (future_get moved f w))"
    "snd (shared_get f w) = w" "snd (shared_void_get f w) = w" "snd (shared_ref_get f w) = w"
    using assms ev
    by (auto simp: future_void_get_def future_ref_get_def future_get_def with_state_def shared_get_def
        shared_void_get_def shared_ref_get_def intro!: world_drop world_evolve split: option.splits sum.splits)
qed

lemma world_shared:
  assumes "world_ok k w" "\<And>s. snd (get s w) = w"
  shows "world_ok k (snd (shared_base get op w))"
proof (cases op)
  case (S_copy s r)
  with world_okI[OF assms(1) links_copy[OF world_okD(1)[OF assms(1)]]] assms(1) show ?thesis
    by (auto simp: ptr_defs world_ok_def)
qed (use assms in \<open>auto simp: try_wait_def wait_def with_state_def intro!: world_drop world_move
      split: option.splits\<close>)

lemma world_promise:
  assumes "world_ok k w" "\<And>v m. evolves k m (snd (store v m))"
  shows "world_ok k (snd (promise_base store op w))"
proof (cases op)
  case (P_swap p q)
  with world_okI[OF assms(1) links_swap[OF world_okD(1)[OF assms(1)], of "Prom p" "Prom q"]] assms(1)
  show ?thesis by (auto simp: ptr_defs world_ok_def)
qed (use assms in \<open>auto intro!: world_drop world_move world_make world_break world_retrieve world_update
      evolves_set with_state_cases[of w _ "\<lambda>r. world_ok k (snd r)"]\<close>)

lemma world_task_call:
  assumes w: "world_ok k w" and st: "\<And>v m. evolves k m (snd (store v m))"
  shows "world_ok k (snd (task_call store t x w))"
  unfolding task_call_def
proof (rule with_state_cases)
  fix a
  have "world_ok k (snd (invoke t x w))" using w
    by (auto simp: invoke_def world_ok_def valid_def split: option.splits)
  then have i: "world_ok k (snd (invoke_and_set store t x a w))"
    by (auto simp: invoke_and_set_def Let_def intro!: world_update st split: sum.splits)
  show "world_ok k (snd (case invoke_and_set store t x a w of
       (Inl (Thrown e), w') \<Rightarrow> update_state (set_exception e) a w' | r \<Rightarrow> r))"
  proof (cases "invoke_and_set store t x a w")
    case (Pair r w')
    with i have "world_ok k w'" by simp
    with Pair show ?thesis
      by (auto intro!: world_update evolves_set split: sum.splits failure.splits)
  qed
qed (use w in simp)

lemma world_task_move_assign:
  assumes w: "world_ok k w"
  shows "world_ok k (task_move_assign t u w)"
proof (cases "t = u")
  case False
  let ?w1 = "set_ptr (Task t) None (break_at (Task t) w)"
  have 1: "world_ok k ?w1" by (intro world_drop world_break w)
  let ?w2 = "move_ptr (Task t) (Task u) (set_callable t (callable ?w1 u) ?w1)"
  have "links_ok (set_ptr (Task u) None (set_callable u None ?w2))"
    by (intro links_drop) (simp add: links_move world_okD(1)[OF 1])
  then have "links_ok (task_move_assign t u w)" using False by (simp add: task_move_assign_def Let_def)
  from 1 this show ?thesis by (rule world_okI)
    (use 1 False in \<open>auto simp: task_move_assign_def Let_def ptr_defs world_ok_def split: if_splits\<close>)
qed (use w in \<open>simp add: task_move_assign_def\<close>)

lemma world_task:
  assumes "world_ok k w" "\<And>v m. evolves k m (snd (store v m))" "allowed (On_task op) w"
  shows "world_ok k (snd (packaged_task store op w))"
proof (cases op)
  case (T_default t)
  with assms show ?thesis by (auto simp: world_ok_def ptr_defs intro: links_drop[unfolded ptr_defs])
next
  case (T_construct t f)
  have "world_ok k (set_callable t (Some f) w)" using assms T_construct by (auto simp: world_ok_def ptr_defs links_ok_def)
  with T_construct show ?thesis by (simp add: task_construct_def, intro world_make) (auto simp: ptr_defs)
next
  case (T_move_construct t u)
  have "links_ok (task_move_construct t u w)" unfolding task_move_construct_def
    by (intro links_drop) (simp add: links_move world_okD(1)[OF assms(1)])
  from assms(1) this have "world_ok k (task_move_construct t u w)" by (rule world_okI)
    (use assms(1) in \<open>auto simp: task_move_construct_def ptr_defs world_ok_def split: if_splits\<close>)
  with T_move_construct show ?thesis by simp
next
  case (T_destroy t)
  have 1: "world_ok k (set_ptr (Task t) None (break_at (Task t) w))" by (intro world_drop world_break assms)
  then have "links_ok (task_destroy t w)" by (simp add: task_destroy_def world_okD(1))
  with 1 have "world_ok k (task_destroy t w)" by (rule world_okI)
    (use 1 in \<open>auto simp: task_destroy_def ptr_defs world_ok_def split: if_splits\<close>)
  with T_destroy show ?thesis by simp
next
  case (T_swap t u)
  have "links_ok (task_swap t u w)" unfolding task_swap_def
    by (intro links_swap) (simp_all add: world_okD(1)[OF assms(1)])
  from assms(1) this have "world_ok k (task_swap t u w)" by (rule world_okI)
    (use assms(1) in \<open>auto simp: task_swap_def ptr_defs world_ok_def split: if_splits\<close>)
  with T_swap show ?thesis by simp
next
  case (T_reset t)
  have "world_ok k (snd (task_reset t w))" unfolding task_reset_def
  proof (rule with_state_cases)
    fix a assume "ptr w (Task t) = Some a"
    then have "callable (break_at (Task t) w) t \<noteq> None"
      using world_okD(3)[OF assms(1), of t] by (simp add: break_at_def ptr_defs)
    then show "world_ok k (snd (Inr (), make_state (Task t) (break_at (Task t) w)))"
      by (auto intro!: world_make world_break assms)
  qed (use assms in simp)
  with T_reset show ?thesis by simp
qed (use assms in \<open>auto intro: world_task_move_assign world_task_call world_retrieve\<close>)

lemma world_perform:
  assumes "world_ok k w" "allowed c w"
  shows "world_ok k (snd (perform k throws moved c w))"
proof -
  have s: "evolves k m (snd (set_cell k throws v m))" for v m by (rule evolves_set)
  show ?thesis
  proof (cases c)
    case (On_future op)
    show ?thesis unfolding On_future using assms(1)
      by (cases k) (auto simp: future_def future_void_def future_ref_def intro!: world_future world_get)
  next
    case (On_shared op)
    show ?thesis unfolding On_shared using assms(1)
      by (cases k) (auto simp: shared_future_def shared_future_void_def shared_future_ref_def
          intro!: world_shared world_get)
  next
    case (On_promise op)
    show ?thesis unfolding On_promise using s assms(1)
      by (cases k) (auto simp: promise_def promise_void_def promise_ref_def intro!: world_promise)
  next
    case (On_task op)
    show ?thesis using assms(2) unfolding On_task by (auto intro!: world_task assms(1) s)
  qed
qed

section \<open>What an operation does to the states and their providers\<close>

lemma cells_simps [simp]:
  "cells (set_ptr h p w) = cells w" "cells (move_ptr h g w) = cells w" "cells (swap_ptr h g w) = cells w"
  "cells (set_callable t f w) = cells w" "cells (set_at a m w) = (cells w)(a := m)"
  "cells (make_state h w) = (cells w)(fresh w := shared_state_init)"
  by (simp_all add: ptr_defs)

lemma fresh_simps [simp]:
  "fresh (set_ptr h p w) = fresh w" "fresh (move_ptr h g w) = fresh w" "fresh (swap_ptr h g w) = fresh w"
  "fresh (set_callable t f w) = fresh w" "fresh (set_at a m w) = fresh w"
  "fresh (make_state h w) = Suc (fresh w)" "fresh (break_at h w) = fresh w"
  "fresh (snd (update_state st a w)) = fresh w"
  by (simp_all add: ptr_defs break_at_def update_state_def Let_def split: option.splits)

lemma ptr_simps [simp]:
  "ptr (set_at a m w) = ptr w" "ptr (set_callable t f w) = ptr w" "ptr (break_at h w) = ptr w"
  "ptr (snd (update_state st a w)) = ptr w"
  by (simp_all add: ptr_defs break_at_def update_state_def Let_def split: option.splits)

lemma update_cells: "cells (snd (update_state f a w)) = (cells w)(a := snd (f (cells w a)))"
  by (simp add: update_state_def Let_def)

lemma break_cells:
  "cells (break_at h w) a = (if ptr w h = Some a then break_promise (cells w a) else cells w a)"
  by (auto simp: break_at_def split: option.splits)

lemma retrieve_cells: "cells (snd (retrieve h f w)) a =
    (if ptr w h = Some a then snd (obtain_future (cells w a)) else cells w a)"
  and retrieve_ptr: "provider g \<Longrightarrow> ptr (snd (retrieve h f w)) g = ptr w g"
  and retrieve_fresh [simp]: "fresh (snd (retrieve h f w)) = fresh w"
  by (auto simp: retrieve_def with_state_def Let_def set_ptr_def split: option.splits)

lemma task_call_ptr: "ptr (snd (task_call store t x w)) = ptr w"
  and task_call_fresh: "fresh (snd (task_call store t x w)) = fresh w"
  by (auto simp: task_call_def with_state_def invoke_and_set_def invoke_def Let_def
      split: option.splits sum.splits prod.splits failure.splits dest!: arg_cong[where f = snd])

lemma task_call_evolves:
  assumes "\<And>v m. evolves k m (snd (store v m))"
  shows "evolves k (cells w a) (cells (snd (task_call store t x w)) a)"
proof -
  have 1: "evolves k (cells w a) (cells (snd (update_state f b w)) a)"
    if "\<And>m. evolves k m (snd (f m))" for f b and w :: "('a, 'b, 'c) world"
    using that by (simp add: update_cells)
  have i: "evolves k (cells w a) (cells (snd (invoke_and_set store t x b w)) a)" for b
    using assms by (auto simp: invoke_and_set_def invoke_def Let_def update_cells split: option.splits sum.splits)
  show ?thesis unfolding task_call_def
  proof (rule with_state_cases)
    fix b
    obtain r w' where r: "invoke_and_set store t x b w = (r, w')" by (cases "invoke_and_set store t x b w")
    have "evolves k (cells w' a) (cells (snd (update_state (set_exception e) b w')) a)" for e
      by (rule 1) (rule evolves_set)
    with i[of b] r show "evolves k (cells w a) (cells (snd (case invoke_and_set store t x b w of
       (Inl (Thrown e), w') \<Rightarrow> update_state (set_exception e) b w' | r \<Rightarrow> r)) a)"
      by (auto intro: evolves_trans split: sum.splits failure.splits)
  qed simp
qed

lemma consumer_ops_evolve:
  "evolves k (cells w a) (cells (snd (future_get moved f w)) a)"
  "cells (snd (future_void_get f w)) = cells w" "cells (snd (future_ref_get f w)) = cells w"
  by (auto simp: future_get_def future_void_get_def future_ref_get_def with_state_def cell_defs
      split: option.splits sum.splits)

lemma future_base_evolves:
  assumes "\<And>f. evolves k (cells w a) (cells (snd (get f w)) a)"
  shows "evolves k (cells w a) (cells (snd (future_base get op w)) a)"
  using assms by (cases op) (auto simp: try_wait_def wait_def future_share_def with_state_def split: option.splits)

lemma shared_base_cells: "(\<And>s. snd (get s w) = w) \<Longrightarrow> cells (snd (shared_base get op w)) = cells w"
  by (cases op) (auto simp: try_wait_def wait_def with_state_def split: option.splits)

lemma promise_base_evolves:
  assumes "\<And>v m. evolves k m (snd (store v m))" "a < fresh w"
  shows "evolves k (cells w a) (cells (snd (promise_base store op w)) a)"
proof (cases op)
  case (P_set_value p v)
  show ?thesis unfolding P_set_value using assms(1)
    by (auto simp: with_state_def update_cells split: option.splits)
next
  case (P_set_exception p e)
  show ?thesis unfolding P_set_exception
    by (auto simp: with_state_def update_cells intro: evolves_set split: option.splits)
qed (use assms in \<open>auto simp: break_cells retrieve_cells intro: evolves_set\<close>)

lemma task_evolves:
  assumes "\<And>v m. evolves k m (snd (store v m))" "a < fresh w"
  shows "evolves k (cells w a) (cells (snd (packaged_task store op w)) a)"
proof (cases op)
  case (T_reset t)
  show ?thesis unfolding T_reset using assms(2)
    by (auto simp: task_reset_def with_state_def break_cells intro: evolves_set split: option.splits)
qed (use assms in \<open>auto simp: task_construct_def task_move_construct_def task_move_assign_def task_destroy_def
      task_swap_def break_cells retrieve_cells swap_ptr_def Let_def intro: evolves_set task_call_evolves\<close>)

lemma perform_evolves:
  assumes "a < fresh w"
  shows "evolves k (cells w a) (cells (snd (perform k throws moved c w)) a)"
proof -
  have s: "evolves k m (snd (set_cell k throws v m))" for v m by (rule evolves_set)
  show ?thesis
  proof (cases c)
    case (On_future op)
    show ?thesis unfolding On_future
      by (cases k) (auto simp: future_def future_void_def future_ref_def consumer_ops_evolve
          intro!: future_base_evolves)
  next
    case (On_shared op)
    show ?thesis unfolding On_shared
      by (cases k) (simp_all add: shared_future_def shared_future_void_def shared_future_ref_def
          shared_base_cells shared_get_def shared_void_get_def shared_ref_get_def with_state_def
          split: option.splits sum.splits)
  next
    case (On_promise op)
    show ?thesis unfolding On_promise using s assms
      by (cases k) (auto simp: promise_def promise_void_def promise_ref_def intro!: promise_base_evolves)
  next
    case (On_task op)
    show ?thesis unfolding On_task by (auto intro!: task_evolves assms s)
  qed
qed

lemma provider_ops [simp]:
  "provider h \<Longrightarrow> ptr (set_ptr (Fut f) p w) h = ptr w h"
  "provider h \<Longrightarrow> ptr (set_ptr (Shf s) p w) h = ptr w h"
  "provider h \<Longrightarrow> ptr (move_ptr (Fut f) (Fut g) w) h = ptr w h"
  "provider h \<Longrightarrow> ptr (move_ptr (Shf s) (Shf r) w) h = ptr w h"
  by (auto simp: ptr_defs)

lemma future_base_providers:
  assumes "\<And>f. ptr (snd (get f w)) h = ptr w h" "\<And>f. fresh (snd (get f w)) = fresh w" "provider h"
  shows "ptr (snd (future_base get op w)) h = ptr w h" "fresh (snd (future_base get op w)) = fresh w"
  using assms by (cases op; auto simp: try_wait_def wait_def future_share_def with_state_def split: option.splits)+

lemma get_providers:
  assumes "provider h"
  shows "ptr (snd (future_get moved f w)) h = ptr w h" "ptr (snd (future_void_get f w)) h = ptr w h"
    "ptr (snd (future_ref_get f w)) h = ptr w h"
  using assms by (auto simp: future_get_def future_void_get_def future_ref_get_def with_state_def
      split: option.splits sum.splits)

lemma get_fresh [simp]:
  "fresh (snd (future_get moved f w)) = fresh w" "fresh (snd (future_void_get f w)) = fresh w"
  "fresh (snd (future_ref_get f w)) = fresh w"
  by (auto simp: future_get_def future_void_get_def future_ref_get_def with_state_def
      split: option.splits sum.splits)

lemma shared_base_providers:
  assumes "\<And>s. snd (get s w) = w" "provider h"
  shows "ptr (snd (shared_base get op w)) h = ptr w h" "fresh (snd (shared_base get op w)) = fresh w"
  using assms by (cases op; auto simp: try_wait_def wait_def with_state_def split: option.splits)+

text \<open>
  A program that never assigns to a promise that still has a state: the one way to lose
  a provider without breaking its promise.
\<close>

fun keeps_promises :: "('a, 'e, 'x) command \<Rightarrow> ('a, 'e, 'x) world \<Rightarrow> bool" where
  "keeps_promises (On_promise (P_move_assign p q)) w \<longleftrightarrow> p = q \<or> \<not> valid (Prom p) w"
| "keeps_promises c w \<longleftrightarrow> True"

text \<open>A provider hands its state to another one, or leaves it ready; new states have a provider.\<close>

definition hands_over :: "('a, 'e, 'x) world \<Rightarrow> ('a, 'e, 'x) world \<Rightarrow> bool" where
  "hands_over w w' \<longleftrightarrow>
     (\<forall>h a. provider h \<longrightarrow> ptr w h = Some a \<longrightarrow>
        state_ready (cells w' a) \<or> (\<exists>h'. provider h' \<and> ptr w' h' = Some a))
     \<and> (\<forall>a. fresh w \<le> a \<longrightarrow> a < fresh w' \<longrightarrow> (\<exists>h'. provider h' \<and> ptr w' h' = Some a))"

lemma hands_over_same:
  "(\<And>h. provider h \<Longrightarrow> ptr w' h = ptr w h) \<Longrightarrow> fresh w' = fresh w \<Longrightarrow> hands_over w w'"
  unfolding hands_over_def by (metis not_le)

lemma attended_step:
  assumes "attended w" "hands_over w w'" "\<And>a. a < fresh w \<Longrightarrow> evolves k (cells w a) (cells w' a)"
  shows "attended w'"
  unfolding attended_def
proof (intro allI impI)
  fix a assume a: "a < fresh w'" "\<not> state_ready (cells w' a)"
  show "\<exists>h. provider h \<and> ptr w' h = Some a"
  proof (cases "a < fresh w")
    case True
    have "\<not> state_ready (cells w a)"
      using evolves_ready(2)[OF assms(3)[OF True]] a(2) by blast
    then obtain h where "provider h" "ptr w h = Some a" using assms(1) True by (auto simp: attended_def)
    with assms(2) a(2) show ?thesis unfolding hands_over_def by blast
  qed (use assms(2) a in \<open>auto simp: hands_over_def\<close>)
qed

lemma hands_over_make:
  assumes "provider h" "\<not> valid h w"
  shows "hands_over w (make_state h w)"
  unfolding hands_over_def
proof (intro conjI allI impI)
  fix g a assume "provider g" "ptr w g = Some a"
  moreover from this assms have "g \<noteq> h" by (auto simp: valid_def)
  ultimately show "state_ready (cells (make_state h w) a) \<or> (\<exists>h'. provider h' \<and> ptr (make_state h w) h' = Some a)"
    by (intro disjI2 exI[of _ g]) (simp add: make_state_def)
next
  fix a assume "fresh w \<le> a" "a < fresh (make_state h w)"
  with assms(1) show "\<exists>h'. provider h' \<and> ptr (make_state h w) h' = Some a"
    by (intro exI[of _ h]) (simp add: make_state_def)
qed

lemma hands_over_rename:
  assumes "\<And>h a. provider h \<Longrightarrow> ptr w h = Some a \<Longrightarrow> provider (dst h) \<and> ptr w' (dst h) = Some a"
    and "fresh w' = fresh w"
  shows "hands_over w w'"
  unfolding hands_over_def using assms by (metis not_le)

lemma hands_over_destroy:
  assumes "\<And>a. cell_ok k (cells w a)" "\<And>g. g \<noteq> h \<Longrightarrow> ptr w' g = ptr w g" "fresh w' = fresh w"
    and "cells w' = cells (break_at h w)"
  shows "hands_over w w'"
  unfolding hands_over_def
proof (intro conjI allI impI)
  fix g a assume "provider g" "ptr w g = Some a"
  then show "state_ready (cells w' a) \<or> (\<exists>h'. provider h' \<and> ptr w' h' = Some a)"
    using assms(2)[of g] break_promise_ready[OF assms(1)] assms(4) by (cases "g = h") (auto simp: break_cells)
qed (use assms in auto)

lemma hands_over_promise:
  assumes "world_ok k w" "allowed (On_promise op) w" "keeps_promises (On_promise op) w"
  shows "hands_over w (snd (promise_base store op w))"
proof (cases op)
  case (P_construct p)
  with assms show ?thesis by (simp add: hands_over_make)
next
  case (P_move_construct p q)
  then show ?thesis using assms
    by (intro hands_over_rename[where dst = "\<lambda>h. if h = Prom q then Prom p else h"]) (auto simp: ptr_defs)
next
  case (P_move_assign p q)
  then show ?thesis using assms
    by (intro hands_over_rename[where dst = "\<lambda>h. if h = Prom q then Prom p else h"]) (auto simp: ptr_defs)
next
  case (P_swap p q)
  then show ?thesis
    by (intro hands_over_rename[where dst = "\<lambda>h. if h = Prom p then Prom q else if h = Prom q then Prom p else h"])
      (auto simp: ptr_defs)
next
  case (P_destroy p)
  then show ?thesis
    using world_okD(2)[OF assms(1)] by (intro hands_over_destroy[where h = "Prom p"]) (auto simp: set_ptr_def)
qed (auto intro!: hands_over_same simp: retrieve_ptr with_state_def split: option.splits)

lemma hands_over_task_move_assign:
  assumes w: "world_ok k w"
  shows "hands_over w (task_move_assign t u w)"
proof (cases "t = u")
  case False
  have "state_ready (cells (task_move_assign t u w) a) \<or> (\<exists>h'. provider h' \<and> ptr (task_move_assign t u w) h' = Some a)"
    if h: "provider h" "ptr w h = Some a" for h a
  proof (cases "h = Task t")
    case True
    with h break_promise_ready[OF world_okD(2)[OF w]] False show ?thesis
      by (simp add: task_move_assign_def Let_def break_cells)
  next
    case f: False
    with h False show ?thesis
      by (intro disjI2 exI[of _ "if h = Task u then Task t else h"])
        (auto simp: task_move_assign_def Let_def set_ptr_def move_ptr_def set_callable_def)
  qed
  then show ?thesis unfolding hands_over_def by (auto simp: task_move_assign_def Let_def)
qed (simp add: task_move_assign_def hands_over_same)

lemma hands_over_reset:
  assumes w: "world_ok k w"
  shows "hands_over w (make_state (Task t) (break_at (Task t) w))"
  unfolding hands_over_def
proof (intro conjI allI impI)
  fix h a assume h: "provider h" "ptr w h = Some a"
  then have "a \<noteq> fresh w" using world_okD(1)[OF w] by (auto simp: links_ok_def)
  with h break_promise_ready[OF world_okD(2)[OF w]]
  show "state_ready (cells (make_state (Task t) (break_at (Task t) w)) a)
      \<or> (\<exists>h'. provider h' \<and> ptr (make_state (Task t) (break_at (Task t) w)) h' = Some a)"
    by (cases "h = Task t") (auto simp: break_cells, auto simp: make_state_def intro!: exI[of _ h])
qed (auto simp: make_state_def intro!: exI[of _ "Task t"])

lemma hands_over_task:
  assumes w: "world_ok k w" and al: "allowed (On_task op) w"
  shows "hands_over w (snd (packaged_task store op w))"
proof (cases op)
  case (T_default t)
  with al show ?thesis by (intro hands_over_same) (auto simp: ptr_defs)
next
  case (T_construct t f)
  with al have "hands_over (set_callable t (Some f) w) (task_construct t f w)"
    unfolding task_construct_def by (intro hands_over_make) (auto simp: ptr_defs)
  with T_construct show ?thesis by (simp add: hands_over_def)
next
  case (T_move_construct t u)
  then show ?thesis using al
    by (intro hands_over_rename[where dst = "\<lambda>h. if h = Task u then Task t else h"])
      (auto simp: task_move_construct_def ptr_defs)
next
  case (T_destroy t)
  then show ?thesis using world_okD(2)[OF w]
    by (intro hands_over_destroy[where h = "Task t"]) (auto simp: task_destroy_def set_ptr_def set_callable_def)
next
  case (T_swap t u)
  then show ?thesis
    by (intro hands_over_rename[where dst = "\<lambda>h. if h = Task t then Task u else if h = Task u then Task t else h"])
      (auto simp: task_swap_def ptr_defs)
next
  case (T_reset t)
  with hands_over_reset[OF w] show ?thesis
    by (auto simp: task_reset_def with_state_def hands_over_same split: option.splits)
qed (auto intro!: hands_over_same hands_over_task_move_assign[OF w] simp: retrieve_ptr task_call_ptr task_call_fresh)

lemma attended_perform:
  assumes "world_ok k w" "attended w" "allowed c w" "keeps_promises c w"
  shows "attended (snd (perform k throws moved c w))"
proof -
  have "hands_over w (snd (perform k throws moved c w))"
  proof (cases c)
    case (On_future op)
    show ?thesis unfolding On_future
      by (cases k) (auto simp: future_def future_void_def future_ref_def get_providers
          intro!: hands_over_same future_base_providers[where h = "Prom 0"] future_base_providers(1))
  next
    case (On_shared op)
    have g: "snd (shared_get s w) = w" "snd (shared_void_get s w) = w" "snd (shared_ref_get s w) = w" for s
      by (rule world_get[OF assms(1)])+
    show ?thesis unfolding On_shared
      by (cases k) (auto simp: shared_future_def shared_future_void_def shared_future_ref_def g
          intro!: hands_over_same shared_base_providers[where h = "Prom 0"] shared_base_providers(1))
  next
    case (On_promise op)
    show ?thesis using assms unfolding On_promise
      by (cases k) (auto simp: promise_def promise_void_def promise_ref_def intro!: hands_over_promise)
  next
    case (On_task op)
    show ?thesis using assms unfolding On_task by (auto intro!: hands_over_task)
  qed
  from attended_step[OF assms(2) this perform_evolves] show ?thesis by blast
qed

text \<open>
  The worlds that a program can reach from \<open>w0\<close> when each of its calls is allowed and satisfies \<open>good\<close>.
\<close>

inductive worlds ::
  "kind \<Rightarrow> ('a \<Rightarrow> 'e exn option) \<Rightarrow> ('a \<Rightarrow> 'a) \<Rightarrow> (('a, 'e, 'x) command \<Rightarrow> ('a, 'e, 'x) world \<Rightarrow> bool)
    \<Rightarrow> ('a, 'e, 'x) world \<Rightarrow> ('a, 'e, 'x) world \<Rightarrow> bool"
  for k :: kind and throws :: "'a \<Rightarrow> 'e exn option" and moved :: "'a \<Rightarrow> 'a"
    and good :: "('a, 'e, 'x) command \<Rightarrow> ('a, 'e, 'x) world \<Rightarrow> bool" and w0 :: "('a, 'e, 'x) world"
where
  worlds_start: "worlds k throws moved good w0 w0"
| worlds_step: "worlds k throws moved good w0 w \<Longrightarrow> allowed c w \<Longrightarrow> good c w
    \<Longrightarrow> worlds k throws moved good w0 (snd (perform k throws moved c w))"

abbreviation any_call :: "('a, 'e, 'x) command \<Rightarrow> ('a, 'e, 'x) world \<Rightarrow> bool" where
  "any_call \<equiv> \<lambda>_ _. True"

lemma worlds_ok: "worlds k throws moved good w0 w \<Longrightarrow> world_ok k w0 \<Longrightarrow> world_ok k w"
  by (induction rule: worlds.induct) (auto intro: world_perform)

lemma worlds_trans:
  "worlds k throws moved good w1 w2 \<Longrightarrow> worlds k throws moved good w0 w1 \<Longrightarrow> worlds k throws moved good w0 w2"
  by (induction rule: worlds.induct) (auto intro: worlds_step)

lemma worlds_attended:
  "worlds k throws moved keeps_promises w0 w \<Longrightarrow> world_ok k w0 \<Longrightarrow> attended w0 \<Longrightarrow> attended w"
proof (induction rule: worlds.induct)
  case (worlds_step w c)
  show ?case
    by (rule attended_perform[OF worlds_ok[OF worlds_step.hyps(1) worlds_step.prems(1)]
          worlds_step.IH[OF worlds_step.prems] worlds_step.hyps(2,3)])
qed simp

section \<open>Frozen states\<close>

text \<open>
  A ready state that no future can take its value from any more, because its future has become a
  shared future, never changes again.
\<close>

definition frozen :: "nat \<Rightarrow> ('a, 'e, 'x) world \<Rightarrow> bool" where
  "frozen a w \<longleftrightarrow> a < fresh w \<and> state_ready (cells w a) \<and> future_obtained (cells w a)
     \<and> (\<forall>f. ptr w (Fut f) \<noteq> Some a)"

lemma ready_unchanged:
  assumes "state_ready m"
  shows "snd (set_exception e m) = m" "break_promise m = m" "snd (set_cell k throws v m) = m"
    "future_obtained m \<Longrightarrow> obtain_future m = (False, m)"
  using assms by (cases k; auto simp: cell_iffs obtain_future_iff state_ready_def ready_status_def)+

lemma update_frozen:
  "frozen a w \<Longrightarrow> (\<And>m. state_ready m \<Longrightarrow> snd (f m) = m) \<Longrightarrow> frozen a (snd (update_state f b w))
    \<and> cells (snd (update_state f b w)) a = cells w a"
  by (auto simp: frozen_def update_cells)

lemma invoke_frozen:
  "frozen a w \<Longrightarrow> frozen a (snd (invoke t x w)) \<and> cells (snd (invoke t x w)) a = cells w a"
  by (auto simp: frozen_def invoke_def split: option.splits)

lemma frozen_future:
  assumes "frozen a w"
    and "\<And>f. frozen a (snd (get f w)) \<and> cells (snd (get f w)) a = cells w a"
  shows "frozen a (snd (future_base get op w)) \<and> cells (snd (future_base get op w)) a = cells w a"
proof (cases op)
  case (F_get f)
  with assms(2)[of f] show ?thesis by simp
qed (use assms(1) in \<open>auto simp: try_wait_def wait_def future_share_def with_state_def ptr_defs frozen_def
      split: option.splits if_splits\<close>)

lemma frozen_get:
  assumes "frozen a w"
  shows "frozen a (snd (future_get moved f w)) \<and> cells (snd (future_get moved f w)) a = cells w a"
    "frozen a (snd (future_void_get f w)) \<and> cells (snd (future_void_get f w)) a = cells w a"
    "frozen a (snd (future_ref_get f w)) \<and> cells (snd (future_ref_get f w)) a = cells w a"
  using assms by (auto simp: future_get_def future_void_get_def future_ref_get_def with_state_def frozen_def
      ptr_defs split: option.splits sum.splits)

lemma frozen_shared:
  "frozen a w \<Longrightarrow> (\<And>s. snd (get s w) = w)
    \<Longrightarrow> frozen a (snd (shared_base get op w)) \<and> cells (snd (shared_base get op w)) a = cells w a"
  by (cases op) (auto simp: try_wait_def wait_def with_state_def ptr_defs frozen_def split: option.splits)

lemma frozen_retrieve:
  "frozen a w \<Longrightarrow> frozen a (snd (retrieve h f w)) \<and> cells (snd (retrieve h f w)) a = cells w a"
  by (auto simp: retrieve_def with_state_def frozen_def ready_unchanged obtain_future_iff ptr_defs Let_def
      split: option.splits)

lemma frozen_promise:
  assumes "frozen a w" "\<And>v m. state_ready m \<Longrightarrow> snd (store v m) = m"
  shows "frozen a (snd (promise_base store op w)) \<and> cells (snd (promise_base store op w)) a = cells w a"
proof (cases op)
  case (P_set_value p v)
  with assms show ?thesis by (auto simp: with_state_def update_frozen split: option.splits)
next
  case (P_set_exception p e)
  with assms show ?thesis
    by (auto simp: with_state_def update_frozen ready_unchanged split: option.splits)
next
  case (P_get_future p f)
  with assms show ?thesis by (simp add: frozen_retrieve)
qed (use assms(1) in \<open>auto simp: frozen_def break_cells ready_unchanged set_ptr_def move_ptr_def swap_ptr_def make_state_def\<close>)

lemma frozen_task_call:
  assumes w: "frozen a w" and st: "\<And>v m. state_ready m \<Longrightarrow> snd (store v m) = m"
  shows "frozen a (snd (task_call store t x w)) \<and> cells (snd (task_call store t x w)) a = cells w a"
  unfolding task_call_def
proof (rule with_state_cases)
  fix b
  obtain r w' where r: "invoke_and_set store t x b w = (r, w')" by (cases "invoke_and_set store t x b w")
  have "frozen a (snd (invoke_and_set store t x b w)) \<and> cells (snd (invoke_and_set store t x b w)) a = cells w a"
    using invoke_frozen[OF w, of t x] update_frozen[of a "snd (invoke t x w)" "store _" b] st
    by (auto simp: invoke_and_set_def Let_def split: sum.splits)
  then have f: "frozen a w'" "cells w' a = cells w a" using r by simp_all
  have "frozen a (snd (update_state (set_exception e) b w'))
      \<and> cells (snd (update_state (set_exception e) b w')) a = cells w a" for e
    using update_frozen[OF f(1), of "set_exception e"] f(2) by (simp add: ready_unchanged)
  with r f show "frozen a (snd (case invoke_and_set store t x b w of
       (Inl (Thrown e), w') \<Rightarrow> update_state (set_exception e) b w' | r \<Rightarrow> r))
     \<and> cells (snd (case invoke_and_set store t x b w of
       (Inl (Thrown e), w') \<Rightarrow> update_state (set_exception e) b w' | r \<Rightarrow> r)) a = cells w a"
    by (auto split: sum.splits failure.splits)
qed (use w in simp)

lemma frozen_task:
  assumes "frozen a w" "\<And>v m. state_ready m \<Longrightarrow> snd (store v m) = m"
  shows "frozen a (snd (packaged_task store op w)) \<and> cells (snd (packaged_task store op w)) a = cells w a"
proof (cases op)
  case (T_call t x)
  with assms show ?thesis by (simp add: frozen_task_call)
next
  case (T_get_future t f)
  with assms show ?thesis by (simp add: frozen_retrieve)
next
  case (T_reset t)
  with assms(1) show ?thesis
    by (auto simp: task_reset_def with_state_def frozen_def break_cells ready_unchanged make_state_def
        split: option.splits)
next
  case (T_move_assign t u)
  with assms(1) show ?thesis
    by (auto simp: task_move_assign_def Let_def frozen_def break_cells ready_unchanged set_ptr_def
        move_ptr_def set_callable_def break_at_def set_at_def split: option.splits)
qed (use assms(1) in \<open>auto simp: frozen_def break_cells ready_unchanged task_construct_def
      task_move_construct_def task_destroy_def task_swap_def set_ptr_def move_ptr_def swap_ptr_def
      make_state_def set_callable_def\<close>)

lemma frozen_perform:
  assumes "frozen a w"
  shows "frozen a (snd (perform k throws moved c w)) \<and> cells (snd (perform k throws moved c w)) a = cells w a"
proof -
  have s: "snd (set_cell k throws v m) = m" if "state_ready m" for v m using that by (rule ready_unchanged)
  show ?thesis
  proof (cases c)
    case (On_future op)
    show ?thesis unfolding On_future
      by (cases k) (simp_all add: future_def future_void_def future_ref_def frozen_future[OF assms]
          frozen_get[OF assms])
  next
    case (On_shared op)
    have g: "snd (shared_get s w) = w" "snd (shared_void_get s w) = w" "snd (shared_ref_get s w) = w" for s
      by (auto simp: shared_get_def shared_void_get_def shared_ref_get_def with_state_def
          split: option.splits sum.splits)
    show ?thesis unfolding On_shared
      by (cases k) (simp_all add: shared_future_def shared_future_void_def shared_future_ref_def
          frozen_shared[OF assms] g)
  next
    case (On_promise op)
    show ?thesis unfolding On_promise using s
      by (cases k) (auto simp: promise_def promise_void_def promise_ref_def frozen_promise[OF assms])
  next
    case (On_task op)
    show ?thesis unfolding On_task using frozen_task[OF assms s] by simp
  qed
qed

lemma worlds_frozen:
  "worlds k throws moved good w0 w \<Longrightarrow> frozen a w0 \<Longrightarrow> frozen a w \<and> cells w a = cells w0 a"
  by (induction rule: worlds.induct) (auto dest: frozen_perform)

end
