(* ===== verification/Future_Properties.thy ===== *)
theory Future_Properties
  imports Future_Contract
begin

text \<open>
  The properties of \<open>future\<close>, \<open>shared_future\<close>, \<open>promise\<close> and \<open>packaged_task\<close>, from the contract
  proved in \<open>Future_Contract\<close>, and the agreement of the functions on one shared state with the
  instruction table of \<open>Shared_State\<close>.
\<close>

section \<open>The machine computes the functions\<close>

lemma set_value_runs:
  "\<exists>j s. run (ss_code (k = Nothing) (if k = Reference then (\<lambda>_. None) else throws) vs es) 1 (replicate j (0, 0))
       (init_sys m (Set_value v)) = Some s
     \<and> vars s = snd (set_cell k throws v m)
     \<and> ctl s 0 = At (if fst (set_cell k throws v m) = Inr () then Idle else Set_failed)"
proof (cases "st_status m = Empty")
  case False
  then show ?thesis
    by (cases k; intro exI[of _ 1]) (simp_all add: run_simps claim_iff cell_iffs Let_def)
next
  case True
  show ?thesis
  proof (cases "k = Object \<and> throws v \<noteq> None")
    case t: True
    with True show ?thesis
      by (intro exI[of _ 6])
        (auto simp: run_simps claim_iff cell_iffs emplace_def Let_def numeral_eq_Suc split: option.splits)
  next
    case t: False
    with True show ?thesis
      by (cases k; intro exI[of _ "if k = Nothing then 3 else 5"])
        (auto simp: run_simps claim_iff cell_iffs emplace_def Let_def numeral_eq_Suc split: option.splits)
  qed
qed

lemma set_exception_runs:
  "\<exists>j s. run (ss_code vo throws vs es) 1 (replicate j (0, 0)) (init_sys m (Set_exception e)) = Some s
     \<and> vars s = snd (set_exception e m)
     \<and> ctl s 0 = At (if fst (set_exception e m) = Inr () then Idle else Set_failed)"
  by (cases "st_status m = Empty"; intro exI[of _ "if st_status m = Empty then 5 else 1"])
    (simp_all add: run_simps claim_iff cell_iffs Let_def numeral_eq_Suc)

lemma break_promise_runs:
  "\<exists>j s. run (ss_code vo throws vs es) 1 (replicate j (0, 0)) (init_sys m Break) = Some s
     \<and> vars s = break_promise m \<and> ctl s 0 = At Idle"
  by (cases "st_status m = Empty"; intro exI[of _ "if st_status m = Empty then 3 else 1"])
    (simp_all add: run_simps claim_iff cell_iffs Let_def numeral_eq_Suc)

text \<open>The outcome that \<open>get\<close> returns or throws.\<close>

fun result_of :: "('a, 'e exn) outcome \<Rightarrow> 'e failure + 'a option" where
  "result_of (Result v) = Inr v"
| "result_of (Rethrown (Some e)) = Inl (Thrown e)"
| "result_of (Rethrown None) = Inl Null_rethrown"
| "result_of Broken_promise = Inl (Thrown (Future_error Promise_broken))"

definition get_of :: "kind \<Rightarrow> nat \<Rightarrow> ('a option, 'a, 'e, 'x) operation" where
  "get_of k = (case k of Object \<Rightarrow> shared_get | Reference \<Rightarrow> shared_ref_get | Nothing \<Rightarrow> shared_void_get)"

lemma get_runs:
  assumes "cell_ok k m" "k = Nothing \<Longrightarrow> st_value m = None" "ptr w (Shf x) = Some a" "cells w a = m"
  shows "\<exists>j s. run (ss_code (k = Nothing) throws vs es) 1 (replicate j (0, 0)) (init_sys m Wait) = Some s
     \<and> vars s = m
     \<and> (if state_ready m then ctl s 0 = At (Got (outcome_of m)) \<and> fst (get_of k x w) = result_of (outcome_of m)
        else ctl s 0 = Suspended Wait \<and> fst (get_of k x w) = Inl Would_suspend)"
proof (cases "state_ready m")
  case False
  then show ?thesis using assms(3,4)
    by (intro exI[of _ 4]) (simp add: run_simps numeral_eq_Suc get_of_def shared_get_def shared_ref_get_def
        shared_void_get_def with_state_def readable_def cell_wait_def split: kind.splits)
next
  case True
  have v: "(st_status m = Value \<and> k \<noteq> Nothing) \<or> (st_status m = Value \<and> k = Nothing)
      \<or> st_status m = Exception \<or> st_status m = Broken"
    using True by (auto simp: state_ready_def ready_status_def)
  then show ?thesis using assms True
    by (intro exI[of _ "if st_status m = Value \<and> k \<noteq> Nothing then 4 else 3"])
      (elim disjE; auto simp: run_simps numeral_eq_Suc get_of_def shared_get_def shared_ref_get_def
        shared_void_get_def with_state_def readable_def cell_wait_def throw_if_exception_or_broken_def
        outcome_of_def cell_ok_def state_ok_def split: kind.splits)
qed

text \<open>What a call of \<open>set_value\<close> stores: nothing for \<open>void\<close>, an exception if the copy of the value throws.\<close>

definition stored :: "kind \<Rightarrow> ('a \<Rightarrow> 'e exn option) \<Rightarrow> 'a \<Rightarrow> 'e exn + 'a option" where
  "stored k throws v =
     (case k of
        Object \<Rightarrow> (case throws v of Some e \<Rightarrow> Inl e | None \<Rightarrow> Inr (Some v))
      | Reference \<Rightarrow> Inr (Some v)
      | Nothing \<Rightarrow> Inr None)"

section \<open>One call at a time\<close>

text \<open>
  The effect of a call in a world where the facts that decide it are known; programs are
  executed with these rules and the observations on the primitive changes of a world.
\<close>

lemma see_ptr [simp]:
  "ptr (set_ptr h p w) = (ptr w)(h := p)"
  "ptr (move_ptr to from w) = ((ptr w)(from := None))(to := ptr w from)"
  "ptr (make_state h w) = (ptr w)(h := Some (fresh w))"
  by (simp_all add: ptr_defs)

lemma see_callable [simp]:
  "callable (set_ptr h p w) = callable w" "callable (move_ptr h g w) = callable w"
  "callable (set_at a m w) = callable w" "callable (make_state h w) = callable w"
  "callable (set_callable t f w) = (callable w)(t := f)" "callable (break_at h w) = callable w"
  by (simp_all add: ptr_defs break_at_def split: option.splits)

lemma see_invocations [simp]:
  "invocations (set_ptr h p w) = invocations w" "invocations (set_at a m w) = invocations w"
  "invocations (make_state h w) = invocations w" "invocations (set_callable t f w) = invocations w"
  by (simp_all add: ptr_defs)

lemma set_at_same [simp]: "set_at a (cells w a) w = w"
  by (simp add: set_at_def)

lemma init_simps [simp]:
  "st_status shared_state_init = Empty" "future_obtained shared_state_init = False"
  by (simp_all add: shared_state_init_def)

lemma set_cell_kinds:
  "set_cell Object throws = set_object throws" "set_cell Reference throws = set_reference"
  "set_cell Nothing throws = (\<lambda>_. set_void)"
  by (simp_all add: fun_eq_iff)

lemma perform_promise: "perform k throws moved (On_promise op) w = promise_base (set_cell k throws) op w"
  by (cases k) (simp_all add: promise_def promise_void_def promise_ref_def set_cell_kinds)

lemma set_cell_sees:
  assumes "st_status m = Empty"
  shows "fst (set_cell k throws v m) = Inr ()"
    "stored k throws v = Inr r \<Longrightarrow> st_status (snd (set_cell k throws v m)) = Value"
    "stored k throws v = Inr (Some u) \<Longrightarrow> st_value (snd (set_cell k throws v m)) = Some u"
    "stored k throws v = Inl e \<Longrightarrow> st_status (snd (set_cell k throws v m)) = Exception"
    "stored k throws v = Inl e \<Longrightarrow> st_exception (snd (set_cell k throws v m)) = Some e"
    "future_obtained (snd (set_cell k throws v m)) = future_obtained m"
  using assms by (cases k; auto simp: cell_iffs stored_def split: option.splits)+

text \<open>\<open>get\<close> of the three templates of \<open>future\<close>.\<close>

definition getter :: "kind \<Rightarrow> ('a \<Rightarrow> 'a) \<Rightarrow> nat \<Rightarrow> ('a option, 'a, 'e, 'x) operation" where
  "getter k moved = (case k of Object \<Rightarrow> future_get moved | Reference \<Rightarrow> future_ref_get | Nothing \<Rightarrow> future_void_get)"

lemma perform_future: "perform k throws moved (On_future op) w = future_base (getter k moved) op w"
  by (cases k) (simp_all add: future_def future_void_def future_ref_def getter_def)

lemma getter_no_state: "ptr w (Fut f) = None \<Longrightarrow> getter k moved f w = (Inl (Thrown (Future_error No_state)), w)"
  by (cases k) (simp_all add: getter_def future_get_def future_void_get_def future_ref_get_def with_state_def)

lemma getter_fails:
  assumes "ptr w (Fut f) = Some a"
  shows "st_status (cells w a) = Exception \<Longrightarrow> st_exception (cells w a) = Some e
      \<Longrightarrow> getter k moved f w = (Inl (Thrown e), w)"
    "st_status (cells w a) = Broken \<Longrightarrow> getter k moved f w = (Inl (Thrown (Future_error Promise_broken)), w)"
  using assms by (cases k; simp add: getter_def future_get_def future_void_get_def future_ref_get_def
      with_state_def readable_def cell_wait_def throw_if_exception_or_broken_def state_ready_def
      ready_status_def)+

lemma getter_value:
  assumes "ptr w (Fut f) = Some a" "st_status (cells w a) = Value"
  shows "fst (getter Nothing moved f w) = Inr None"
    "k \<noteq> Nothing \<Longrightarrow> st_value (cells w a) = Some u \<Longrightarrow> fst (getter k moved f w) = Inr (Some u)"
    "k \<noteq> Nothing \<Longrightarrow> st_value (cells w a) = Some u \<Longrightarrow> ptr (snd (getter k moved f w)) = (ptr w)(Fut f := None)"
    "k \<noteq> Nothing \<Longrightarrow> st_value (cells w a) = Some u
      \<Longrightarrow> invocations (snd (getter k moved f w)) = invocations w"
    "ptr (snd (getter Nothing moved f w)) = (ptr w)(Fut f := None)"
    "invocations (snd (getter Nothing moved f w)) = invocations w"
  using assms by (cases k; auto simp: getter_def future_get_def future_void_get_def future_ref_get_def
      with_state_def readable_def cell_wait_def throw_if_exception_or_broken_def state_ready_def
      ready_status_def)+

lemma retrieve_first:
  assumes "ptr w h = Some a" "\<not> future_obtained (cells w a)"
  shows "fst (retrieve h f w) = Inr ()"
    "ptr (snd (retrieve h f w)) = (ptr w)(Fut f := Some a)"
    "st_status (cells (snd (retrieve h f w)) b) = st_status (cells w b)"
    "future_obtained (cells (snd (retrieve h f w)) b) = (b = a \<or> future_obtained (cells w b))"
    "callable (snd (retrieve h f w)) = callable w" "invocations (snd (retrieve h f w)) = invocations w"
  using assms by (auto simp: retrieve_def with_state_def obtain_future_iff Let_def)

lemma retrieve_again:
  "ptr w h = Some a \<Longrightarrow> future_obtained (cells w a)
    \<Longrightarrow> retrieve h f w = (Inl (Thrown (Future_error Future_already_retrieved)), w)"
  by (simp add: retrieve_def with_state_def obtain_future_iff Let_def)

lemma with_state_some: "ptr w h = Some a \<Longrightarrow> with_state h f w = f a w"
  by (simp add: with_state_def)

lemma break_status:
  "ptr w h = Some a \<Longrightarrow> st_status (cells w a) = Empty \<Longrightarrow>
     st_status (cells (break_at h w) b) = (if b = a then Broken else st_status (cells w b))"
  "future_obtained (cells (break_at h w) b) = future_obtained (cells w b)"
  by (simp_all add: break_cells break_promise_iff)

lemma answer_fst [simp]: "fst (answer g r) = map_sum id g (fst r)"
  by (simp add: answer_def)

lemma update_first:
  assumes "st_status (cells w a) = Empty"
  shows "fst (update_state (set_cell k throws v) a w) = Inr ()"
    "fst (update_state (set_exception e) a w) = Inr ()"
  using set_cell_sees(1)[OF assms] assms by (simp_all add: update_state_def set_exception_iff Let_def)

lemma update_taken:
  assumes "st_status (cells w a) \<noteq> Empty"
  shows "update_state (set_cell k throws v) a w = (Inl (Thrown (Future_error Promise_already_satisfied)), w)"
    "update_state (set_exception e) a w = (Inl (Thrown (Future_error Promise_already_satisfied)), w)"
  using sat.taken[OF assms, of k throws "By_value v"] sat.taken[OF assms, of k throws "By_exception e"]
  by (simp_all add: update_state_def Let_def)

lemma task_call_first:
  assumes "ptr w (Task t) = Some a" "callable w t = Some c" "st_status (cells w a) = Empty"
  shows "fst (task_call (set_cell k throws) t x w) = Inr ()"
    "callable (snd (task_call (set_cell k throws) t x w)) = callable w"
    "invocations (snd (task_call (set_cell k throws) t x w)) = Suc (invocations w)"
    "cells (snd (task_call (set_cell k throws) t x w)) = (cells w)(a :=
       case c x of Inl e \<Rightarrow> snd (set_exception e (cells w a)) | Inr v \<Rightarrow> snd (set_cell k throws v (cells w a)))"
  using assms set_cell_sees(1)[OF assms(3)]
  by (auto simp: task_call_def with_state_some invoke_and_set_def invoke_def update_state_def set_exception_iff
      set_at_def Let_def split: sum.splits)

lemma task_call_again:
  assumes "ptr w (Task t) = Some a" "callable w t = Some c" "st_status (cells w a) \<noteq> Empty"
  shows "task_call (set_cell k throws) t x w =
    (Inl (Thrown (Future_error Promise_already_satisfied)), w\<lparr>invocations := Suc (invocations w)\<rparr>)"
  using assms update_taken[of "w\<lparr>invocations := Suc (invocations w)\<rparr>" a]
  by (auto simp: task_call_def with_state_some invoke_and_set_def invoke_def Let_def split: sum.splits)

lemma perform_shared: "perform k throws moved (On_shared op) w = shared_base (get_of k) op w"
  by (cases k) (simp_all add: shared_future_def shared_future_void_def shared_future_ref_def get_of_def)

definition read_cell :: "kind \<Rightarrow> ('a, 'e) cell \<Rightarrow> 'e failure + 'a option" where
  "read_cell k m = (case readable m of Inl e \<Rightarrow> Inl e
     | Inr _ \<Rightarrow> if k = Nothing then Inr None
              else (case st_value m of None \<Rightarrow> Inl Assertion_failed | Some v \<Rightarrow> Inr (Some v)))"

lemma get_of_cell:
  assumes "ptr w (Shf s) = Some a"
  shows "snd (get_of k s w) = w" "fst (get_of k s w) = read_cell k (cells w a)"
  using assms by (cases k; auto simp: get_of_def shared_get_def shared_void_get_def shared_ref_get_def
      read_cell_def with_state_def split: option.splits sum.splits)+

lemma shared_frozen:
  assumes "world_ok k w" "ptr w (Shf s) = Some a" "state_ready (cells w a)"
  shows "frozen a w"
  unfolding frozen_def
proof (intro conjI allI)
  show "a < fresh w" "future_obtained (cells w a)"
    using assms provider.simps(4)[of s] unfolding world_ok_def links_ok_def by (blast, metis provider.simps)
  show "ptr w (Fut f) \<noteq> Some a" for f
    using assms unfolding world_ok_def links_ok_def by (metis handle.distinct(1) provider.simps)
qed (rule assms(3))

text \<open>Outcomes that are not a failed assertion.\<close>

definition sound :: "'e failure + 'r \<Rightarrow> bool" where
  "sound r \<longleftrightarrow> r \<noteq> Inl Assertion_failed \<and> r \<noteq> Inl Null_rethrown"

lemma sound_map [simp]: "sound (map_sum id g r) = sound r"
  by (cases r) (auto simp: sound_def)

lemma sound_simps [simp]: "sound (Inr x)" "sound (Inl (Thrown e))" "sound (Inl Would_suspend)"
  by (simp_all add: sound_def)

lemma sound_update [simp]: "sound (fst (update_state f a w))"
  by (cases "fst (f (cells w a))") (simp_all add: update_state_def Let_def)

lemma sound_readable: "cell_ok k m \<Longrightarrow> sound (readable m)"
  by (auto simp: readable_iff cell_ok_def split: status.splits)

lemma sound_gets:
  assumes "\<And>a. cell_ok k (cells w a)"
  shows "sound (fst (getter k moved f w))" "sound (fst (get_of k s w))"
proof -
  have v: "readable (cells w a) = Inr u \<Longrightarrow> k \<noteq> Nothing \<Longrightarrow> st_value (cells w a) \<noteq> None" for a u
    using assms[of a] by (auto simp: readable_def cell_wait_def throw_if_exception_or_broken_def
        cell_ok_def state_ok_def and_then_Inr_iff split: if_splits option.splits)
  have r: "readable (cells w a) = Inl e \<Longrightarrow> sound (Inl e :: 'b failure + 'a option)" for a e
    using sound_readable[OF assms[of a]] by (simp add: sound_def)
  show "sound (fst (getter k moved f w))" "sound (fst (get_of k s w))"
    using v r by (cases k; force simp: getter_def get_of_def future_get_def future_void_get_def future_ref_get_def
        shared_get_def shared_void_get_def shared_ref_get_def with_state_def split: option.splits sum.splits)+
qed

lemma sound_retrieve [simp]: "sound (fst (retrieve h f w))"
  by (auto simp: retrieve_def with_state_def Let_def split: option.splits)

lemma sound_task_call [simp]: "sound (fst (task_call store t x w))"
proof -
  have "sound (fst (invoke_and_set store t x a w))" for a
    by (auto simp: invoke_and_set_def Let_def split: sum.splits)
  then show ?thesis
    by (auto simp: task_call_def with_state_def split: option.splits sum.splits prod.splits failure.splits)
      (metis fst_conv sound_def failure.exhaust)+
qed

lemma sound_perform:
  assumes "world_ok k w"
  shows "sound (fst (perform k throws moved c w))"
proof (cases c)
  case (On_future op)
  show ?thesis unfolding On_future perform_future using sound_gets(1)[OF world_okD(2)[OF assms]]
    by (cases op) (auto simp: try_wait_def wait_def cell_wait_def future_share_def with_state_def split: option.splits)
next
  case (On_shared op)
  show ?thesis unfolding On_shared perform_shared using sound_gets(2)[OF world_okD(2)[OF assms]]
    by (cases op) (auto simp: try_wait_def wait_def cell_wait_def with_state_def split: option.splits)
next
  case (On_promise op)
  show ?thesis unfolding On_promise perform_promise
    by (cases op) (auto simp: with_state_def split: option.splits)
next
  case (On_task op)
  show ?thesis unfolding On_task
    by (cases op) (auto simp: perform.simps task_reset_def with_state_def split: option.splits)
qed

lemma empty_world_simps [simp]:
  "ptr empty_world h = None" "fresh empty_world = 0" "cells empty_world a = shared_state_init"
  by (simp_all add: empty_world_def)

declare perform.simps(1-3) [simp del]

lemmas call_steps = perform_promise perform_future try_wait_def with_state_some valid_def retrieve_first
  retrieve_again getter_no_state update_first update_taken update_cells set_cell_sees state_ready_def
  ready_status_def break_status task_construct_def task_call_first task_call_again task_call_ptr
  set_exception_iff wait_def cell_wait_def Let_def

section \<open>Properties\<close>

text \<open>The functions on a shared state against the table of \<open>Shared_State\<close>, without concurrency: on any shared state,
  a task that runs \<open>set_value\<close>, \<open>set_exception\<close> or the destructor's \<open>break_promise\<close> alone
  ends with the state and the outcome of the function, for \<open>T\<close>, \<open>T&\<close> and \<open>void\<close>.\<close>

theorem shared_state_calls_agree:
  "(\<exists>j s. run (ss_code (k = Nothing) (if k = Reference then (\<lambda>_. None) else throws) vs es) 1
        (replicate j (0, 0)) (init_sys m (Set_value v)) = Some s
      \<and> vars s = snd (set_cell k throws v m)
      \<and> ctl s 0 = At (if fst (set_cell k throws v m) = Inr () then Idle else Set_failed))
   \<and> (\<exists>j s. run (ss_code (k = Nothing) throws vs es) 1 (replicate j (0, 0)) (init_sys m (Set_exception e)) = Some s
      \<and> vars s = snd (set_exception e m)
      \<and> ctl s 0 = At (if fst (set_exception e m) = Inr () then Idle else Set_failed))
   \<and> (\<exists>j s. run (ss_code (k = Nothing) throws vs es) 1 (replicate j (0, 0)) (init_sys m Break) = Some s
      \<and> vars s = break_promise m \<and> ctl s 0 = At Idle)"
  using set_value_runs set_exception_runs break_promise_runs by (intro conjI)

text \<open>C33. Well-formed objects: whatever calls a program makes on any number of promises, tasks and futures,
  every pointer refers to an allocated shared state, a state has at most one provider, a valid
  \<open>future\<close> is the only consumer of its state, a state that is ready with a value or an exception
  holds one, a valid task has a callable, and no call, whatever it is, fails an assertion or
  rethrows a null pointer.\<close>

theorem objects_well_formed:
  assumes "worlds k throws moved any_call empty_world w"
  shows "(ptr w h = Some a \<longrightarrow> a < fresh w)
    \<and> (ptr w h = Some a \<and> ptr w h' = Some a \<and> provider h \<and> provider h' \<longrightarrow> h = h')
    \<and> (ptr w (Fut f) = Some a \<and> ptr w h = Some a \<and> \<not> provider h \<longrightarrow> h = Fut f)
    \<and> (st_status (cells w a) = Value \<and> k \<noteq> Nothing \<longrightarrow> st_value (cells w a) \<noteq> None)
    \<and> (st_status (cells w a) = Exception \<longrightarrow> st_exception (cells w a) \<noteq> None)
    \<and> (valid (Task t) w \<longrightarrow> callable w t \<noteq> None)
    \<and> fst (perform k throws moved c w) \<noteq> Inl Assertion_failed
    \<and> fst (perform k throws moved c w) \<noteq> Inl Null_rethrown"
proof -
  have w: "world_ok k w" by (rule worlds_ok[OF assms world_empty(1)])
  from sound_perform[OF w, of throws moved c] w show ?thesis
    unfolding world_ok_def links_ok_def cell_ok_def state_ok_def sound_def by blast
qed

text \<open>A task with its future, and a promise whose state is shared by two shared futures.\<close>

theorem objects_well_formed_witness:
  "\<exists>w :: (nat, unit, unit) world. worlds Object (\<lambda>_. None) id any_call empty_world w
     \<and> ptr w (Shf 0) = Some 0 \<and> ptr w (Shf 1) = Some 0 \<and> ptr w (Task 0) = Some 1 \<and> 1 < fresh w"
proof -
  let ?P = "\<lambda>c (w :: (nat, unit, unit) world). snd (perform Object (\<lambda>_. None) id c w)"
  let ?w = "?P (On_task (T_construct 0 (\<lambda>_. Inr 3))) (?P (On_shared (S_copy 1 0)) (?P (On_future (F_share 0 0))
    (?P (On_promise (P_get_future 0 0)) (?P (On_promise (P_construct 0)) empty_world))))"
  have r: "worlds Object (\<lambda>_. None) id any_call empty_world ?w"
    by (intro worlds_start worlds_step)
      (simp_all add: perform.simps empty_world_def promise_def future_def shared_future_def make_state_def retrieve_def
        with_state_def obtain_future_iff future_share_def ptr_defs shared_state_init_def Let_def)
  have p: "ptr ?w (Shf 0) = Some 0 \<and> ptr ?w (Shf 1) = Some 0 \<and> ptr ?w (Task 0) = Some 1"
    by (simp add: perform.simps empty_world_def promise_def future_def shared_future_def make_state_def
        retrieve_def with_state_def obtain_future_iff future_share_def task_construct_def ptr_defs
        shared_state_init_def Let_def)
  with objects_well_formed[OF r, of "Task 0" 1] r show ?thesis by blast
qed

text \<open>C34. The round trip: the value given to a promise comes out of the future obtained from it, once;
  an exception that the constructor of the stored value throws comes out instead. After a value
  the future is not valid and another \<open>get\<close> throws \<open>no_state\<close>; after an exception the future is
  still valid and throws again.\<close>

theorem promise_round_trip:
  "fst (perform_all k throws moved
      [On_promise (P_construct p), On_promise (P_get_future p f), On_promise (P_set_value p v),
       On_future (F_try_wait f), On_future (F_get f), On_future (F_valid f), On_future (F_get f)] w)
   = [Inr Done, Inr Done, Inr Done, Inr (Truth True)] @
     (case stored k throws v of
        Inr r \<Rightarrow> [Inr (Taken r), Inr (Truth False), Inl (Thrown (Future_error No_state))]
      | Inl e \<Rightarrow> [Inl (Thrown e), Inr (Truth True), Inl (Thrown e)])"
proof (cases "stored k throws v")
  case (Inl e)
  then show ?thesis by (simp add: call_steps getter_fails)
next
  case (Inr r)
  have "if k = Nothing then r = None else r \<noteq> None"
    using Inr by (auto simp: stored_def split: kind.splits option.splits)
  with Inr show ?thesis by (cases r) (simp_all add: call_steps getter_value del: set_cell.simps split: if_splits)
qed

text \<open>C35. A promise is kept once: on a promise without a state every setter throws \<open>no_state\<close>; on one
  whose state is no longer empty it throws \<open>promise_already_satisfied\<close>; both leave everything as
  it was. Otherwise it succeeds and the state is ready.\<close>

theorem promise_set_once:
  assumes "op = P_set_value p v \<or> op = P_set_exception p e"
  shows "case ptr w (Prom p) of
      None \<Rightarrow> perform k throws moved (On_promise op) w = (Inl (Thrown (Future_error No_state)), w)
    | Some a \<Rightarrow>
        if st_status (cells w a) \<noteq> Empty
        then perform k throws moved (On_promise op) w
           = (Inl (Thrown (Future_error Promise_already_satisfied)), w)
        else fst (perform k throws moved (On_promise op) w) = Inr Done
           \<and> state_ready (cells (snd (perform k throws moved (On_promise op) w)) a)"
proof -
  have f: "state_ready (snd (set_cell k throws v m))" "state_ready (snd (set_exception e m))"
    "fst (set_exception e m) = Inr ()" if "st_status m = Empty" for m
    using sat.first[OF that, of k throws "By_value v"] sat.first[OF that, of k throws "By_exception e"] by auto
  show ?thesis
  proof (cases "ptr w (Prom p)")
    case None
    with assms show ?thesis by (auto simp: perform_promise with_state_def answer_def)
  next
    case (Some a)
    then show ?thesis
      using assms by (cases "st_status (cells w a) = Empty")
        (auto simp: perform_promise with_state_some update_first update_taken update_cells f answer_def)
  qed
qed

theorem promise_set_once_witness:
  "perform Object (\<lambda>_. None) id (On_promise (P_set_value 0 (8::nat)))
     (snd (perform_all Object (\<lambda>_. None) id [On_promise (P_construct 0), On_promise (P_set_value 0 7)]
        (empty_world :: (nat, unit, unit) world)))
   = (Inl (Thrown (Future_error Promise_already_satisfied)),
      snd (perform_all Object (\<lambda>_. None) id [On_promise (P_construct 0), On_promise (P_set_value 0 7)]
        (empty_world :: (nat, unit, unit) world)))"
proof -
  let ?w = "snd (perform_all Object (\<lambda>_. None) id [On_promise (P_construct 0), On_promise (P_set_value 0 (7::nat))]
        (empty_world :: (nat, unit, unit) world))"
  have "ptr ?w (Prom 0) = Some 0 \<and> st_status (cells ?w 0) \<noteq> Empty"
    by (simp add: call_steps stored_def set_cell_kinds set_object_iff empty_world_def make_state_def)
  then show ?thesis
    using promise_set_once[where op = "P_set_value 0 8" and p = 0 and v = 8 and w = ?w and k = Object
        and throws = "\<lambda>_. None" and moved = id] by simp
qed

text \<open>C36. Futures are handed out once, and a promise or task that goes away unfulfilled is seen as broken:
  a second \<open>get_future\<close> throws \<open>future_already_retrieved\<close>; after the destructor, \<open>get\<close> throws
  \<open>broken_promise\<close>, and so does the future from before a \<open>reset\<close>.\<close>

theorem broken_promises_seen:
  "fst (perform_all k throws moved
      [On_promise (P_construct p), On_promise (P_get_future p f), On_promise (P_get_future p g),
       On_promise (P_destroy p), On_future (F_get f)] w)
   = [Inr Done, Inr Done, Inl (Thrown (Future_error Future_already_retrieved)), Inr Done,
      Inl (Thrown (Future_error Promise_broken))]
   \<and> fst (perform_all k throws moved
      [On_task (T_construct t c), On_task (T_get_future t f), On_task (T_get_future t g),
       On_task (T_reset t), On_future (F_get f), On_task (T_get_future t g), On_task (T_destroy t),
       On_future (F_get g)] w)
   = [Inr Done, Inr Done, Inl (Thrown (Future_error Future_already_retrieved)),
      Inr Done, Inl (Thrown (Future_error Promise_broken)), Inr Done, Inr Done,
      Inl (Thrown (Future_error Promise_broken))]"
  by (simp add: call_steps getter_fails task_reset_def task_destroy_def)

text \<open>C37. A packaged task stores what its callable returns or throws. A second call throws
  \<open>promise_already_satisfied\<close> and leaves that outcome, but it runs the callable again first.\<close>

theorem packaged_task_outcome:
  "let r = perform_all k throws moved
      [On_task (T_construct t c), On_task (T_get_future t f), On_task (T_call t x),
       On_task (T_call t y), On_future (F_get f)] w
   in fst r = [Inr Done, Inr Done, Inr Done, Inl (Thrown (Future_error Promise_already_satisfied)),
        (case c x of Inl e \<Rightarrow> Inl (Thrown e)
         | Inr v \<Rightarrow> map_sum Thrown Taken (stored k throws v))]
    \<and> invocations (snd r) = invocations w + 2"
proof (cases "c x")
  case (Inl e)
  then show ?thesis by (simp add: call_steps getter_fails)
next
  case v: (Inr v)
  show ?thesis
  proof (cases "stored k throws v")
    case (Inl e)
    with v show ?thesis by (simp add: call_steps getter_fails)
  next
    case (Inr r)
    have "if k = Nothing then r = None else r \<noteq> None"
      using Inr by (auto simp: stored_def split: kind.splits option.splits)
    with v Inr show ?thesis by (cases r) (simp_all add: call_steps getter_value del: set_cell.simps split: if_splits)
  qed
qed

text \<open>C38. Nothing waits in vain: in a program that never move-assigns to a promise that still has a
  state, a consumer whose shared state has no promise or task any more never suspends.\<close>

theorem abandoned_states_are_ready:
  assumes "worlds k throws moved keeps_promises empty_world w"
    and "ptr w h = Some a" "\<forall>g. provider g \<longrightarrow> ptr w g \<noteq> Some a"
  shows "wait h w = (Inr (), w) \<and> fst (try_wait h w) = Inr True
    \<and> (h = Fut f \<longrightarrow> fst (perform k throws moved (On_future (F_get f)) w) \<noteq> Inl Would_suspend)"
proof -
  have "a < fresh w"
    using worlds_ok[OF assms(1) world_empty(1)] assms(2) unfolding world_ok_def links_ok_def by blast
  then have "state_ready (cells w a)"
    using worlds_attended[OF assms(1) world_empty] assms(3) unfolding attended_def by blast
  then show ?thesis using assms(2)
    by (cases k) (auto simp: wait_def try_wait_def with_state_def cell_wait_def perform_future getter_def
        future_get_def future_void_get_def future_ref_get_def readable_def
        throw_if_exception_or_broken_def split: option.splits sum.splits if_splits)
qed

text \<open>The promise was destroyed without being fulfilled.\<close>

theorem abandoned_states_are_ready_witness:
  "\<exists>w :: (nat, unit, unit) world. worlds Object (\<lambda>_. None) id keeps_promises empty_world w
     \<and> valid (Fut 0) w \<and> wait (Fut 0) w = (Inr (), w)"
proof -
  let ?P = "\<lambda>c (w :: (nat, unit, unit) world). snd (perform Object (\<lambda>_. None) id (On_promise c) w)"
  let ?w = "?P (P_destroy 0) (?P (P_get_future 0 0) (?P (P_construct 0) empty_world))"
  have r: "worlds Object (\<lambda>_. None) id keeps_promises empty_world ?w"
    by (intro worlds_start worlds_step) (simp_all add: valid_def)
  have p: "ptr ?w (Fut 0) = Some 0" "\<forall>g. provider g \<longrightarrow> ptr ?w g \<noteq> Some 0"
    by (simp_all add: call_steps)
  from abandoned_states_are_ready[OF r p, of 0] r p show ?thesis by (auto simp: valid_def)
qed

text \<open>Shared futures agree for good: once \<open>get\<close> on a shared future does not suspend, every \<open>get\<close> on
  it, on its copies, or on any other shared future of the same state gives the same value or
  exception, in whatever world the program reaches later, and changes nothing.\<close>

theorem shared_futures_agree:
  assumes "worlds k throws moved any_call empty_world w0" "worlds k throws moved any_call w0 w"
    and "ptr w0 (Shf s) = Some a" "ptr w (Shf r) = Some a"
    and "fst (perform k throws moved (On_shared (S_get s)) w0) \<noteq> Inl Would_suspend"
  shows "perform k throws moved (On_shared (S_get r)) w
    = (fst (perform k throws moved (On_shared (S_get s)) w0), w)"
proof -
  have "state_ready (cells w0 a)"
    using assms(5) by (auto simp: perform_shared get_of_cell[OF assms(3)] read_cell_def readable_def cell_wait_def
        split: if_splits)
  from worlds_frozen[OF assms(2) shared_frozen[OF worlds_ok[OF assms(1) world_empty(1)] assms(3) this]]
  have "cells w a = cells w0 a" by blast
  then show ?thesis
    by (simp add: perform_shared get_of_cell[OF assms(3)] get_of_cell[OF assms(4)] answer_def)
qed

text \<open>The value 7 is read through a shared future, then through its copy after the promise is gone.\<close>

theorem shared_futures_agree_witness:
  "\<exists>w :: (nat, unit, unit) world. worlds Object (\<lambda>_. None) id any_call empty_world w
     \<and> perform Object (\<lambda>_. None) id (On_shared (S_get 1)) w = (Inr (Taken (Some 7)), w)"
proof -
  let ?P = "\<lambda>c (w :: (nat, unit, unit) world). snd (perform Object (\<lambda>_. None) id c w)"
  let ?u = "?P (On_promise (P_set_value 0 7)) (?P (On_future (F_share 0 0)) (?P (On_promise (P_get_future 0 0))
    (?P (On_promise (P_construct 0)) empty_world)))"
  let ?w = "?P (On_promise (P_destroy 0)) (?P (On_shared (S_copy 1 0)) ?u)"
  have u: "worlds Object (\<lambda>_. None) id any_call empty_world ?u"
    by (intro worlds_start worlds_step) (simp_all add: valid_def)
  have w: "worlds Object (\<lambda>_. None) id any_call w0 (?P (On_promise (P_destroy 0)) (?P (On_shared (S_copy 1 0)) w0))" for w0
    by (intro worlds_start worlds_step) simp_all
  note st = call_steps perform_shared future_share_def stored_def
  have p: "ptr ?u (Shf 0) = Some 0" "ptr ?w (Shf 1) = Some 0"
    by (simp_all add: st)
  have g: "fst (perform Object (\<lambda>_. None) id (On_shared (S_get 0)) ?u) = Inr (Taken (Some 7))"
    by (simp add: st get_of_cell read_cell_def readable_def throw_if_exception_or_broken_def
        del: set_cell.simps)
  show ?thesis
    using shared_futures_agree[OF u w p(1,2)] g worlds_trans[OF w u] by auto
qed

text \<open>The defaulted move assignment of \<open>promise\<close> loses a shared state: the promise that is assigned to
  had not been fulfilled, its state is neither made ready nor broken, no provider is left,
  and the future waits for good.\<close>

theorem promise_assignment_abandons:
  "let r = perform_all k throws moved
      [On_promise (P_construct 0), On_promise (P_get_future 0 0), On_promise (P_construct 1),
       On_promise (P_move_assign 0 1), On_future (F_wait 0)] empty_world
   in fst r = [Inr Done, Inr Done, Inr Done, Inr Done, Inl Would_suspend]
    \<and> ptr (snd r) (Fut 0) = Some 0 \<and> (\<nexists>g. provider g \<and> ptr (snd r) g = Some 0)"
  by (simp add: call_steps)

end
