(* ===== verification/Wait_For.thy ===== *)
theory Wait_For
  imports Accounting
begin

text \<open>
  \<open>wait_for\<close>, \<open>wait_for_all\<close> and \<open>wait_for_range\<close> of \<open>include/coopsync_tbb/cuda/wait_for.hpp\<close> and
  \<open>include/coopsync_tbb/hip/wait_for.hpp\<close>, and \<open>wait_for\<close> of
  \<open>include/coopsync_tbb/onnx/wait_for.hpp\<close> and \<open>include/coopsync_tbb/alpaka/wait_for.hpp\<close>: a task suspends and is resumed by callbacks that a
  device runtime calls from its own threads. The runtimes are not part of this repository: the error code of each
  registration and the status given to each callback are parameters, and a callback that was
  registered is called once, at any time, by any thread. So is the scheduler: \<open>overlap\<close> says whether a
  task that has been resumed may run while the function passed to \<open>tbb::task::suspend\<close> still does.
  Proved: the task is resumed once, after the last callback, and returns the code of every
  stream in order; if a submission throws, the task is never resumed. With \<open>overlap\<close>, \<open>wait_for_range\<close> reads its argument \<open>last\<close> after its frame is gone.
\<close>

section \<open>Several streams\<close>

text \<open>
  The variables of \<open>multi_stream_context\<close>, \<open>items\<close> and \<open>errs\<close> live in the frame of the waiting
  function until it has returned. \<open>queued\<close>: the callbacks that the runtime has accepted and not
  started. Kept for the proofs: \<open>registered\<close>, the number of streams dealt with, and \<open>written\<close>,
  the streams whose error code has been stored.
\<close>

record 'e wf_vars =
  functor_started :: bool
  functor_done :: bool
  queued :: "nat list"
  pending :: int
  errs :: "'e list"
  resumed :: int
  returned :: "'e list option"
  registered :: nat
  written :: "nat set"

definition wf_init :: "nat \<Rightarrow> 'e \<Rightarrow> 'e wf_vars" where
  "wf_init n success =
     \<lparr>functor_started = False, functor_done = False, queued = [], pending = int n,
      errs = replicate n success, resumed = 0, returned = None, registered = 0, written = {}\<rparr>"

definition frame_dead :: "'e wf_vars \<Rightarrow> bool" where
  "frame_dead v \<longleftrightarrow> returned v \<noteq> None"

text \<open>Who calls \<open>notify\<close>: the runtime, or \<open>register_callback\<close> for a stream that failed.\<close>

datatype notifier = In_runtime | In_functor nat

datatype 'e wf_pc =
    Start | Enter | Check nat | Assign nat | Launch nat
  | Notify nat 'e notifier | Decrement notifier | Resume_task notifier
  | Dangling

fun return_to :: "notifier \<Rightarrow> 'e wf_pc" where
  "return_to In_runtime = Start"
| "return_to (In_functor i) = Check (Suc i)"

text \<open>
  A thread at \<open>Start\<close> takes up the call of the waiting function, a queued callback, or the task
  after its resumption. In \<open>wait_for_range\<close> the loop condition reads the captured argument
  \<open>last\<close>; in \<open>wait_for_all\<close> the bound is a constant. \<open>Dangling\<close>: the frame was read after the
  return.
\<close>

fun wf_code ::
  "bool \<Rightarrow> bool \<Rightarrow> nat \<Rightarrow> (nat \<Rightarrow> 'e) \<Rightarrow> (nat \<Rightarrow> 'e) \<Rightarrow> 'e \<Rightarrow> 'e wf_pc \<Rightarrow> ('e wf_vars, unit, 'e wf_pc) instr"
where
  "wf_code ranged overlap n submit status success Start =
     Atomic (\<lambda>v. (if functor_started v then [] else [(v\<lparr>functor_started := True\<rparr>, Enter)])
       @ map (\<lambda>i. (v\<lparr>queued := remove1 i (queued v)\<rparr>, Notify i (status i) In_runtime)) (queued v)
       @ (if 0 < resumed v \<and> returned v = None \<and> (overlap \<or> functor_done v)
          then [(v\<lparr>returned := Some (errs v)\<rparr>, Start)] else []))"
| "wf_code ranged overlap n submit status success Enter =
     Do (\<lambda>v. if n = 0 then (v\<lparr>returned := Some (errs v), functor_done := True\<rparr>, Start) else (v, Check 0))"
| "wf_code ranged overlap n submit status success (Check i) =
     Do (\<lambda>v. if ranged \<and> frame_dead v then (v, Dangling)
             else if i < n then (v, Assign i) else (v\<lparr>functor_done := True\<rparr>, Start))"
| "wf_code ranged overlap n submit status success (Assign i) =
     Do (\<lambda>v. (v, if frame_dead v then Dangling else Launch i))"
| "wf_code ranged overlap n submit status success (Launch i) =
     Do (\<lambda>v. if submit i = success
             then (v\<lparr>registered := Suc (registered v), queued := queued v @ [i]\<rparr>, Check (Suc i))
             else (v\<lparr>registered := Suc (registered v)\<rparr>, Notify i (submit i) (In_functor i)))"
| "wf_code ranged overlap n submit status success (Notify i e c) =
     Do (\<lambda>v. if frame_dead v then (v, Dangling)
             else (v\<lparr>errs := (errs v)[i := e], written := insert i (written v)\<rparr>, Decrement c))"
| "wf_code ranged overlap n submit status success (Decrement c) =
     Do (\<lambda>v. if frame_dead v then (v, Dangling)
             else (v\<lparr>pending := (pending v - 1) mod 2 ^ 64\<rparr>,
                   if pending v = 1 then Resume_task c else return_to c))"
| "wf_code ranged overlap n submit status success (Resume_task c) =
     Do (\<lambda>v. if frame_dead v then (v, Dangling) else (v\<lparr>resumed := resumed v + 1\<rparr>, return_to c))"
| "wf_code ranged overlap n submit status success Dangling = Halt"

fun_cases wf_code_cases:
  "wf_code rg ov N sb st ok pc = Wait_if q pred k" "wf_code rg ov N sb st ok pc = Resume_one q k'"
  "wf_code rg ov N sb st ok pc = Resume_n q m k" "wf_code rg ov N sb st ok pc = Resume_all q k"

abbreviation wf_start :: "nat \<Rightarrow> 'e \<Rightarrow> ('e wf_vars, unit, 'e wf_pc) sys" where
  "wf_start n success \<equiv> init_sys (wf_init n success) Start"

text \<open>The code that stream \<open>i\<close> ends with.\<close>

definition code_of :: "(nat \<Rightarrow> 'e) \<Rightarrow> (nat \<Rightarrow> 'e) \<Rightarrow> 'e \<Rightarrow> nat \<Rightarrow> 'e" where
  "code_of submit status success i = (if submit i = success then status i else submit i)"

section \<open>Accounts\<close>

text \<open>The streams not yet counted down, the resumption due, the function that registers, and each stream.\<close>

fun undecided :: "'e wf_pc control \<Rightarrow> int" where
  "undecided (At (Notify i e c)) = 1"
| "undecided (At (Decrement c)) = 1"
| "undecided _ = 0"

fun resumer :: "'e wf_pc control \<Rightarrow> int" where
  "resumer (At (Resume_task c)) = 1"
| "resumer _ = 0"

fun by_functor :: "notifier \<Rightarrow> int" where
  "by_functor In_runtime = 0"
| "by_functor (In_functor i) = 1"

fun in_functor :: "'e wf_pc control \<Rightarrow> int" where
  "in_functor (At Enter) = 1"
| "in_functor (At (Check i)) = 1"
| "in_functor (At (Assign i)) = 1"
| "in_functor (At (Launch i)) = 1"
| "in_functor (At (Notify i e c)) = by_functor c"
| "in_functor (At (Decrement c)) = by_functor c"
| "in_functor (At (Resume_task c)) = by_functor c"
| "in_functor _ = 0"

fun notifies :: "nat \<Rightarrow> 'e wf_pc control \<Rightarrow> int" where
  "notifies i (At (Notify j e c)) = of_bool (i = j)"
| "notifies i _ = 0"

lemma weights_nonneg: "0 \<le> undecided c" "0 \<le> resumer c" "0 \<le> in_functor c" "0 \<le> notifies i c"
proof -
  have b: "0 \<le> by_functor c" for c by (cases c) simp_all
  show "0 \<le> undecided c" by (cases c rule: undecided.cases) simp_all
  show "0 \<le> resumer c" by (cases c rule: resumer.cases) simp_all
  show "0 \<le> in_functor c" by (cases c rule: in_functor.cases) (simp_all add: b)
  show "0 \<le> notifies i c" by (cases "(i, c)" rule: notifies.cases) simp_all
qed

fun position :: "'e wf_pc control \<Rightarrow> nat" where
  "position (At (Check i)) = i"
| "position (At (Assign i)) = i"
| "position (At (Launch i)) = i"
| "position (At (Notify i e (In_functor j))) = Suc j"
| "position (At (Decrement (In_functor j))) = Suc j"
| "position (At (Resume_task (In_functor j))) = Suc j"
| "position _ = 0"

text \<open>Where no thread may be: a program point that the loop bound \<open>n\<close> excludes, and \<open>Dangling\<close>.\<close>

fun beyond :: "nat \<Rightarrow> 'e wf_pc control \<Rightarrow> int" where
  "beyond n (At (Assign i)) = of_bool (n \<le> i)"
| "beyond n (At (Launch i)) = of_bool (n \<le> i)"
| "beyond n (At Dangling) = 1"
| "beyond n _ = 0"

datatype wf_account = Pending | Resumers | Functors | Stream nat | Reached | To_go | In_range

fun wf_weight :: "nat \<Rightarrow> wf_account \<Rightarrow> 'e wf_pc control \<Rightarrow> int" where
  "wf_weight n Pending = undecided"
| "wf_weight n Resumers = resumer"
| "wf_weight n Functors = in_functor"
| "wf_weight n (Stream i) = notifies i"
| "wf_weight n Reached = (\<lambda>c. int (position c))"
| "wf_weight n To_go = (\<lambda>c. if in_functor c = 1 then int (n - position c) else 0)"
| "wf_weight n In_range = beyond n"

definition registering :: "'e wf_vars \<Rightarrow> bool" where
  "registering v \<longleftrightarrow> functor_started v \<and> \<not> functor_done v"

fun wf_balance :: "bool \<Rightarrow> nat \<Rightarrow> wf_account \<Rightarrow> 'e wf_vars \<Rightarrow> int" where
  "wf_balance ov n Pending v = pending v - (int n - int (registered v)) - int (length (queued v))"
| "wf_balance ov n Resumers v = of_bool (0 < n \<and> pending v = 0) - resumed v"
| "wf_balance ov n Functors v = of_bool (registering v)"
| "wf_balance ov n (Stream i) v =
     of_bool (i < registered v) - int (count_list (queued v) i) - of_bool (i \<in> written v)"
| "wf_balance ov n Reached v = (if registering v then int (registered v) else 0)"
| "wf_balance ov n To_go v = (if registering v then int (n - registered v) else 0)"
| "wf_balance ov n In_range v =
     - of_bool (n < registered v) - of_bool (int n < pending v)
     - of_bool (frame_dead v \<and> 0 < n \<and> resumed v < 1)
     - of_bool (frame_dead v \<and> \<not> functor_done v \<and> \<not> ov)
     - of_bool (registered v \<noteq> 0 \<and> \<not> functor_started v) - of_bool (resumed v < 0)
     - of_bool (functor_done v \<and> (registered v \<noteq> n \<or> \<not> functor_started v))"

lemma wf_accounts: "(\<forall>i. P i) \<longleftrightarrow>
    P Pending \<and> P Resumers \<and> P Functors \<and> (\<forall>i. P (Stream i)) \<and> P Reached \<and> P To_go \<and> P In_range"
  using wf_account.exhaust by metis

lemma int_length_remove1: "x \<in> set xs \<Longrightarrow> int (length (remove1 x xs)) = int (length xs) - 1"
  by (induction xs) auto

lemma int_count_remove1:
  "x \<in> set xs \<Longrightarrow> int (count_list (remove1 x xs) y) = int (count_list xs y) - of_bool (x = y)"
  by (induction xs) auto

lemma wf_moves_fits:
  assumes "fits (wf_weight n) (wf_balance ov n) m v c"
  shows "undecided c \<le> pending v - (int n - int (registered v)) - int (length (queued v))"
    "resumer c \<le> of_bool (0 < n \<and> pending v = 0) - resumed v" "in_functor c \<le> of_bool (registering v)"
    "notifies i c \<le> of_bool (i < registered v) - int (count_list (queued v) i) - of_bool (i \<in> written v)"
    "int (position c) \<le> (if registering v then int (registered v) else 0)"
    "(if in_functor c = 1 then int (n - position c) else 0) \<le> (if registering v then int (n - registered v) else 0)"
    "beyond n c \<le> wf_balance ov n In_range v"
  using assms unfolding fits_def wf_accounts by simp_all

lemma wf_fits_range:
  assumes "fits (wf_weight n) (wf_balance ov n) m v c"
  shows "registered v \<le> n" "pending v \<le> int n" "frame_dead v \<Longrightarrow> n = 0 \<or> 1 \<le> resumed v"
    "frame_dead v \<Longrightarrow> functor_done v \<or> ov" "\<not> functor_started v \<Longrightarrow> registered v = 0" "beyond n c = 0"
    "0 \<le> resumed v" "functor_done v \<Longrightarrow> registered v = n"
    "functor_done v \<Longrightarrow> functor_started v"
proof -
  have b: "0 \<le> beyond n c" by (cases "(n, c)" rule: beyond.cases) simp_all
  from wf_moves_fits(7)[OF assms] b
  show "registered v \<le> n" "pending v \<le> int n" "frame_dead v \<Longrightarrow> n = 0 \<or> 1 \<le> resumed v"
    "frame_dead v \<Longrightarrow> functor_done v \<or> ov" "\<not> functor_started v \<Longrightarrow> registered v = 0" "beyond n c = 0"
    "0 \<le> resumed v" "functor_done v \<Longrightarrow> registered v = n"
    "functor_done v \<Longrightarrow> functor_started v"
    by (auto simp: of_bool_def split: if_splits)
qed

text \<open>While a stream is undecided, or the resumption is due, or the loop is below its bound, the frame lives.\<close>

lemma wf_frame_alive:
  assumes "fits (wf_weight n) (wf_balance ov n) m v c"
    and "0 < undecided c \<or> 0 < resumer c \<or> (\<exists>i. c = At (Assign i)) \<or> (\<not> ov \<and> 0 < in_functor c)"
  shows "\<not> frame_dead v"
proof
  assume d: "frame_dead v"
  note r = wf_fits_range[OF assms(1)] and w = wf_moves_fits[OF assms(1)]
  have p: "pending v = 0 \<and> 0 < n" if "n \<noteq> 0"
    using r(3)[OF d] w(2) that weights_nonneg(2)[of c] by (auto simp: of_bool_def split: if_splits)
  from assms(2) show False
  proof (elim disjE exE conjE)
    assume "0 < undecided c"
    with w(1) p r(1,2) show False by (cases "n = 0") auto
  next
    assume "0 < resumer c"
    with w(2) r(3)[OF d] r(7) p show False by (cases "n = 0") (auto simp: of_bool_def split: if_splits)
  next
    fix i assume i: "c = At (Assign i)"
    with r(6) have n: "i < n" by simp
    with w(1) p r(1) weights_nonneg(1)[of c] have "registered v = n" by auto
    moreover have "registered v \<le> i"
      using w(6) w(3) i n by (auto simp: of_bool_def split: if_splits)
    ultimately show False using n by simp
  next
    assume "\<not> ov" "0 < in_functor c"
    with w(3) r(4)[OF d] show False by (auto simp: registering_def of_bool_def split: if_splits)
  qed
qed

lemma wf_start_balance:
  assumes m: "moves pc (wf_code rg ov N sb st ok pc) v c v' c'"
    and f: "fits (wf_weight N) (wf_balance ov N) m' v c"
    and n: "int N < 2 ^ 64 \<and> (rg \<longrightarrow> \<not> ov)" and pc: "pc = Start"
  shows "wf_balance ov N i v' - wf_balance ov N i v = wf_weight N i c' - wf_weight N i c"
proof -
  note r = wf_fits_range[OF f] and w = wf_moves_fits[OF f] and alive = wf_frame_alive[OF f]
  from m pc consider
      (call) "\<not> functor_started v" "v' = v\<lparr>functor_started := True\<rparr>" "c = At Start" "c' = At Enter"
    | (callback) j where "j \<in> set (queued v)" "v' = v\<lparr>queued := remove1 j (queued v)\<rparr>"
        "c = At Start" "c' = At (Notify j (st j) In_runtime)"
    | (return) "0 < resumed v" "returned v = None" "ov \<or> functor_done v"
        "v' = v\<lparr>returned := Some (errs v)\<rparr>" "c = At Start" "c' = At Start"
    by (auto split: if_splits)
  then show ?thesis
  proof cases
    case call
    from r(9) call(1) have "\<not> functor_done v" by blast
    with call r(5)[OF call(1)] show ?thesis
      by (cases i) (auto simp: registering_def frame_dead_def)
  next
    case callback
    show ?thesis unfolding callback(2-4)
      by (cases i) (simp_all add: registering_def frame_dead_def int_length_remove1[OF callback(1)]
        int_count_remove1[OF callback(1)] del: count_list_remove1 length_remove1)
  next
    case return
    then show ?thesis by (cases i) (auto simp: registering_def frame_dead_def)
  qed
qed

lemma wf_unreturned:
  assumes "fits (wf_weight N) (wf_balance ov N) m v c" "registering v"
  shows "returned v = None \<or> ov"
  using wf_fits_range(4)[OF assms(1)] assms(2)
  by (cases "returned v") (auto simp: frame_dead_def registering_def)

lemma wf_loop_balance:
  assumes m: "moves pc (wf_code rg ov N sb st ok pc) v c v' c'"
    and f: "fits (wf_weight N) (wf_balance ov N) m' v c"
    and n: "int N < 2 ^ 64 \<and> (rg \<longrightarrow> \<not> ov)" and pc: "pc = Enter \<or> (\<exists>j. pc = Check j \<or> pc = Assign j \<or> pc = Launch j)"
  shows "wf_balance ov N i v' - wf_balance ov N i v = wf_weight N i c' - wf_weight N i c"
proof -
  note r = wf_fits_range[OF f] and w = wf_moves_fits[OF f] and alive = wf_frame_alive[OF f]
  note unreturned = wf_unreturned[OF f]
  from pc show ?thesis
  proof (cases pc)
    case Enter
    then have c: "c = At Enter" using m by simp
    then have reg: "registering v" using w(3) by (simp add: of_bool_def split: if_splits)
    have "N = 0 \<Longrightarrow> registered v = 0" using r(1) by simp
    with unreturned[OF reg] show ?thesis
      using m Enter c reg by (cases "N = 0"; cases i) (auto simp: registering_def frame_dead_def)
  next
    case (Check j)
    then have c: "c = At (Check j)" using m by simp
    have reg: "registering v" using w(3) unfolding c by (simp add: of_bool_def split: if_splits)
    have "j \<le> registered v" using w(5) reg unfolding c by simp
    moreover have "j < N \<Longrightarrow> registered v \<le> j" using w(6) reg r(1) unfolding c by simp
    ultimately have j: "registered v = j" "j \<le> N" using r(1) by linarith+
    have dead: "rg \<Longrightarrow> \<not> frame_dead v" using alive n unfolding c by simp
    have m': "v' = v \<and> c' = At (Assign j) \<and> j < N
        \<or> v' = v\<lparr>functor_done := True\<rparr> \<and> c' = At Start \<and> j = N"
      using m Check dead j by (auto split: if_splits)
    then show ?thesis
    proof (elim disjE conjE)
      assume "v' = v" "c' = At (Assign j)" "j < N"
      with c show ?thesis by (cases i) simp_all
    next
      assume "v' = v\<lparr>functor_done := True\<rparr>" "c' = At Start" "j = N"
      with c j reg unreturned[OF reg] show ?thesis by (cases i) (auto simp: registering_def frame_dead_def)
    qed
  next
    case (Assign j)
    then show ?thesis using m alive by (cases i) (auto split: if_splits)
  next
    case (Launch j)
    then have c: "c = At (Launch j)" using m by simp
    have j: "registering v" "j < N" "registered v = j"
      using w(3,5,6) r(6) unfolding c by (auto simp: of_bool_def split: if_splits)
    show ?thesis using m Launch c j
      by (cases i) (auto simp: registering_def frame_dead_def split: if_splits)
  qed (use pc in simp_all)
qed

lemma wf_notify_balance:
  assumes m: "moves pc (wf_code rg ov N sb st ok pc) v c v' c'"
    and f: "fits (wf_weight N) (wf_balance ov N) m' v c"
    and n: "int N < 2 ^ 64 \<and> (rg \<longrightarrow> \<not> ov)" and pc: "\<exists>j e k. pc = Notify j e k \<or> pc = Decrement k \<or> pc = Resume_task k"
  shows "wf_balance ov N i v' - wf_balance ov N i v = wf_weight N i c' - wf_weight N i c"
proof -
  note r = wf_fits_range[OF f] and w = wf_moves_fits[OF f] and alive = wf_frame_alive[OF f]
  from pc show ?thesis
  proof (cases pc)
    case (Notify j e k)
    then have c: "c = At (Notify j e k)" using m by simp
    have wr: "j \<notin> written v" using w(4)[of j] unfolding c by (auto simp: of_bool_def split: if_splits)
    have "\<not> frame_dead v" using alive c by simp
    then show ?thesis using m Notify c wr
      by (cases i; cases k) (auto simp: registering_def frame_dead_def)
  next
    case (Decrement k)
    then have c: "c = At (Decrement k)" using m by simp
    have d: "\<not> frame_dead v" using alive c by simp
    have p: "1 \<le> pending v" "pending v \<le> int N" using w(1) r(1,2) unfolding c by auto
    then have md: "(pending v - 1) mod 18446744073709551616 = pending v - 1"
      using n by (intro mod_pos_pos_trivial) auto
    show ?thesis using m Decrement c d p md w(2)
      by (cases i; cases k) (auto simp: registering_def frame_dead_def split: if_splits)
  next
    case (Resume_task k)
    then have c: "c = At (Resume_task k)" using m by simp
    have d: "\<not> frame_dead v" using alive c by simp
    show ?thesis using m Resume_task c d r(7)
      by (cases i; cases k) (auto simp: registering_def frame_dead_def)
  qed (use pc in simp_all)
qed

interpretation wf: accounting "wf_code rg ov N sb st ok"
  "\<lambda>_. int N < 2 ^ 64 \<and> (rg \<longrightarrow> \<not> ov)" "wf_init N ok" Start "wf_weight N" "wf_balance ov N"
  for rg ov N sb st ok
proof unfold_locales
  have b: "0 \<le> beyond N c" for c :: "'a wf_pc control"
    by (cases "(N, c)" rule: beyond.cases) simp_all
  show "0 \<le> wf_weight N i c" for i and c :: "'a wf_pc control"
    by (cases i) (simp_all add: weights_nonneg b)
  show "wf_weight N i (At Start) = 0" for i
    by (cases i) simp_all
  show "wf_balance ov N i (wf_init N ok) = 0" for i
    by (cases i) (auto simp: wf_init_def registering_def frame_dead_def)
  show "wf_balance ov N i v' - wf_balance ov N i v = wf_weight N i c' - wf_weight N i c"
    if "int N < 2 ^ 64 \<and> (rg \<longrightarrow> \<not> ov)" "moves pc (wf_code rg ov N sb st ok pc) v c v' c'"
      "fits (wf_weight N) (wf_balance ov N) m v c" for m pc v c v' c' i
    using wf_start_balance[OF that(2,3,1)] wf_loop_balance[OF that(2,3,1)] wf_notify_balance[OF that(2,3,1)] that(2)
    by (cases pc) auto
  show "wf_weight N i (Resuming (w # ws) k) + wf_weight N i (Suspended pc)
      = wf_weight N i (Resuming ws k) + wf_weight N i (At k')"
    if "wf_code rg ov N sb st ok pc = Wait_if q p k'" for pc q p k' k i w ws
    using that by (auto elim!: wf_code_cases)
qed

section \<open>What is stored\<close>

lemma nth_update_iff: "i < length xs \<Longrightarrow> xs[j := x] ! i = (if i = j then x else xs ! i)"
  by (cases "i = j") auto

definition stored_ok :: "nat \<Rightarrow> (nat \<Rightarrow> 'e) \<Rightarrow> (nat \<Rightarrow> 'e) \<Rightarrow> 'e \<Rightarrow> 'e wf_vars \<Rightarrow> bool" where
  "stored_ok n submit status success v \<longleftrightarrow>
     length (errs v) = n \<and> (\<forall>i\<in>written v. i < n \<longrightarrow> errs v ! i = code_of submit status success i)
     \<and> (\<forall>i\<in>set (queued v). submit i = success)
     \<and> (\<forall>es. returned v = Some es \<longrightarrow> es = errs v)"

fun notify_ok :: "(nat \<Rightarrow> 'e) \<Rightarrow> (nat \<Rightarrow> 'e) \<Rightarrow> 'e \<Rightarrow> 'e wf_pc control \<Rightarrow> bool" where
  "notify_ok submit status success (At (Notify i e c)) \<longleftrightarrow> e = code_of submit status success i"
| "notify_ok submit status success _ \<longleftrightarrow> True"

interpretation wf_as: assertions "wf_code rg ov N sb st ok" "wf_init N ok" Start "\<lambda>_ _ _. True" "\<lambda>_ _ _ _. True"
  "\<lambda>v c. stored_ok N sb st ok v \<and> notify_ok sb st ok c" for rg ov N sb st ok
proof unfold_locales
  show "stored_ok N sb st ok (wf_init N ok) \<and> notify_ok sb st ok (At Start)"
    by (simp add: stored_ok_def wf_init_def)
  show own: "stored_ok N sb st ok v' \<and> notify_ok sb st ok c'"
    if "moves pc (wf_code rg ov N sb st ok pc) v c v' c'" "stored_ok N sb st ok v \<and> notify_ok sb st ok c"
    for pc v c v' c'
  proof (cases pc)
    case (Notify j e k)
    with that show ?thesis
      by (auto simp: stored_ok_def frame_dead_def nth_update_iff split: if_splits)
  next
    case (Decrement k)
    with that show ?thesis by (cases k) (auto simp: stored_ok_def split: if_splits)
  next
    case (Resume_task k)
    with that show ?thesis by (cases k) (auto simp: stored_ok_def split: if_splits)
  next
    case Start
    with that show ?thesis
      by (auto simp: stored_ok_def code_of_def dest: notin_set_remove1 split: if_splits)
  qed (use that in \<open>auto simp: stored_ok_def code_of_def frame_dead_def split: if_splits\<close>)
  show "stored_ok N sb st ok v' \<and> notify_ok sb st ok d"
    if "moves pc (wf_code rg ov N sb st ok pc) v c v' c'" "stored_ok N sb st ok v \<and> notify_ok sb st ok c"
      "stored_ok N sb st ok v \<and> notify_ok sb st ok d" for pc v c v' c' d
    using own[OF that(1,2)] that(3) by simp
  show "(stored_ok N sb st ok v \<and> notify_ok sb st ok (Resuming ws k)) \<and> (stored_ok N sb st ok v \<and> notify_ok sb st ok (At k'))"
    if "wf_code rg ov N sb st ok pc = Wait_if q p k'" for pc q p k' v ws k
    using that by (auto elim!: wf_code_cases)
qed simp_all

lemma notifies_le: "notifies i c \<le> undecided c"
  by (cases c rule: undecided.cases) simp_all

lemma total_le: "(\<And>c. f c \<le> g c) \<Longrightarrow> total f n s \<le> total g n s"
  by (rule total_mono) auto

text \<open>After the resumption every stream has been dealt with and its code is stored.\<close>

lemma wf_resumed_complete:
  assumes r: "reach (wf_code rg ov N sb st ok) n (wf_start N ok) s" and small: "int N < 2 ^ 64" "rg \<longrightarrow> \<not> ov"
    and t: "0 < n" and res: "0 < resumed (vars s)"
  shows "resumed (vars s) = 1 \<and> errs (vars s) = map (code_of sb st ok) [0..<N] \<and> queued (vars s) = []"
proof -
  have sm: "int N < 2 ^ 64 \<and> (rg \<longrightarrow> \<not> ov)" using small by simp
  note ex = wf.accounts_exact[OF r sm]
  have rng: "registered (vars s) \<le> N" using wf_fits_range(1)[OF wf.reach_fits[OF r sm t]] .
  have "0 \<le> total resumer n (ctl s)" by (rule total_nonneg) (rule weights_nonneg)
  then have p: "pending (vars s) = 0" "resumed (vars s) = 1" using ex[of Resumers] res
    by (auto simp: of_bool_def split: if_splits)
  have u: "0 \<le> total undecided n (ctl s)" by (rule total_nonneg) (rule weights_nonneg)
  with ex[of Pending] p rng have q: "registered (vars s) = N" "\<not> 0 < length (queued (vars s))"
    "total undecided n (ctl s) = 0" unfolding wf_weight.simps wf_balance.simps by linarith+
  have "i \<in> written (vars s)" if "i < N" for i
  proof -
    have "total (notifies i) n (ctl s) \<le> total undecided n (ctl s)" by (rule total_le) (rule notifies_le)
    moreover have "0 \<le> total (notifies i) n (ctl s)" by (rule total_nonneg) (rule weights_nonneg)
    ultimately show ?thesis using ex[of "Stream i"] q that by (auto simp: of_bool_def split: if_splits)
  qed
  moreover have "stored_ok N sb st ok (vars s)" using wf_as.assertion_holds[OF r t] by blast
  ultimately have "errs (vars s) = map (code_of sb st ok) [0..<N]"
    by (auto simp: stored_ok_def intro: nth_equalityI)
  with p q show ?thesis by simp
qed

lemma wf_returned:
  assumes "reach (wf_code rg ov N sb st ok) n (wf_start N ok) s" "int N < 2 ^ 64" "rg \<longrightarrow> \<not> ov" "t < n"
    and es: "returned (vars s) = Some es"
  shows "es = map (code_of sb st ok) [0..<N] \<and> queued (vars s) = [] \<and> (0 < N \<longrightarrow> resumed (vars s) = 1)"
proof -
  have sm: "int N < 2 ^ 64 \<and> (rg \<longrightarrow> \<not> ov)" using assms(2,3) by simp
  have n: "0 < n" using assms(4) by simp
  note range = wf_fits_range[OF wf.reach_fits[OF assms(1) sm assms(4)]]
  have "stored_ok N sb st ok (vars s)" using wf_as.assertion_holds[OF assms(1) n] by blast
  with es have e: "es = errs (vars s)" "length (errs (vars s)) = N" by (auto simp: stored_ok_def)
  show ?thesis
  proof (cases "N = 0")
    case True
    have "\<not> 0 < length (queued (vars s))"
      using wf.accounts_exact[OF assms(1) sm, of Pending] range(1,2) True
        total_nonneg[of undecided n "ctl s", OF weights_nonneg(1)]
      unfolding wf_weight.simps wf_balance.simps by linarith
    with e True show ?thesis by simp
  next
    case False
    with range(3) es have "0 < resumed (vars s)" by (simp add: frame_dead_def)
    with wf_resumed_complete[OF assms(1-3) n] e show ?thesis by simp
  qed
qed

section \<open>One stream\<close>

text \<open>
  \<open>single_stream_context\<close> of the CUDA and HIP headers and \<open>context\<close> of the ONNX header. What a
  registration comes to: the runtime has accepted the callback, it has returned an error code, or it
  has thrown an exception, which leaves the function passed to \<open>suspend\<close>. The frame is used by
  \<open>notify\<close> only, so a resumed task may run at once.
\<close>

datatype 'e submission = Accepted | Refused 'e | Threw

record 'e one_vars =
  one_started :: bool
  accepted :: bool
  one_err :: 'e
  one_resumed :: int
  one_returned :: "'e option"

definition one_init :: "'e \<Rightarrow> 'e one_vars" where
  "one_init success =
     \<lparr>one_started = False, accepted = False, one_err = success, one_resumed = 0, one_returned = None\<rparr>"

datatype 'e one_pc = One_start | Submit | Notify_one 'e | Resume_one_task | Exception_left | One_dangling

fun one_code :: "'e submission \<Rightarrow> 'e \<Rightarrow> 'e one_pc \<Rightarrow> ('e one_vars, unit, 'e one_pc) instr" where
  "one_code submit status One_start =
     Atomic (\<lambda>v. (if one_started v then [] else [(v\<lparr>one_started := True\<rparr>, Submit)])
       @ (if accepted v then [(v\<lparr>accepted := False\<rparr>, Notify_one status)] else [])
       @ (if 0 < one_resumed v \<and> one_returned v = None
          then [(v\<lparr>one_returned := Some (one_err v)\<rparr>, One_start)] else []))"
| "one_code submit status Submit =
     Do (\<lambda>v. case submit of Accepted \<Rightarrow> (v\<lparr>accepted := True\<rparr>, One_start)
             | Refused e \<Rightarrow> (v, Notify_one e)
             | Threw \<Rightarrow> (v, Exception_left))"
| "one_code submit status (Notify_one e) =
     Do (\<lambda>v. if one_returned v \<noteq> None then (v, One_dangling) else (v\<lparr>one_err := e\<rparr>, Resume_one_task))"
| "one_code submit status Resume_one_task =
     Do (\<lambda>v. if one_returned v \<noteq> None then (v, One_dangling)
             else (v\<lparr>one_resumed := one_resumed v + 1\<rparr>, One_start))"
| "one_code submit status Exception_left = Halt"
| "one_code submit status One_dangling = Halt"

fun_cases one_code_cases:
  "one_code sb st pc = Wait_if q pred k" "one_code sb st pc = Resume_one q k'"
  "one_code sb st pc = Resume_n q m k" "one_code sb st pc = Resume_all q k"

abbreviation one_start :: "'e \<Rightarrow> ('e one_vars, unit, 'e one_pc) sys" where
  "one_start success \<equiv> init_sys (one_init success) One_start"

text \<open>What the callers of these contexts pass: a code other than success refuses the callback.\<close>

definition register_callback :: "'e \<Rightarrow> 'e \<Rightarrow> 'e submission" where
  "register_callback success err = (if err \<noteq> success then Refused err else Accepted)"

text \<open>With \<open>cudaLaunchHostFunc\<close> or \<open>hipLaunchHostFunc\<close> the callback is given no status.\<close>

definition callback_status :: "bool \<Rightarrow> 'e \<Rightarrow> 'e \<Rightarrow> 'e" where
  "callback_status host_func success status = (if host_func then success else status)"

definition cuda_wait_for ::
  "bool \<Rightarrow> 'e \<Rightarrow> 'e \<Rightarrow> 'e \<Rightarrow> 'e one_pc \<Rightarrow> ('e one_vars, unit, 'e one_pc) instr" where
  "cuda_wait_for host_func success submit status =
     one_code (register_callback success submit) (callback_status host_func success status)"

text \<open>The HIP header has its own copies of these functions.\<close>

definition hip_register_callback :: "'e \<Rightarrow> 'e \<Rightarrow> 'e submission" where
  "hip_register_callback success err = (if err \<noteq> success then Refused err else Accepted)"

definition hip_callback_status :: "bool \<Rightarrow> 'e \<Rightarrow> 'e \<Rightarrow> 'e" where
  "hip_callback_status host_func success status = (if host_func then success else status)"

lemma hip_functions: "hip_register_callback = register_callback" "hip_callback_status = callback_status"
  by (simp_all add: fun_eq_iff hip_register_callback_def register_callback_def hip_callback_status_def
      callback_status_def)

definition hip_wait_for ::
  "bool \<Rightarrow> 'e \<Rightarrow> 'e \<Rightarrow> 'e \<Rightarrow> 'e one_pc \<Rightarrow> ('e one_vars, unit, 'e one_pc) instr" where
  "hip_wait_for host_func success submit status =
     one_code (hip_register_callback success submit) (hip_callback_status host_func success status)"

definition cuda_wait_for_all ::
  "bool \<Rightarrow> bool \<Rightarrow> nat \<Rightarrow> (nat \<Rightarrow> 'e) \<Rightarrow> (nat \<Rightarrow> 'e) \<Rightarrow> 'e \<Rightarrow> 'e wf_pc \<Rightarrow> ('e wf_vars, unit, 'e wf_pc) instr"
where
  "cuda_wait_for_all host_func overlap n submit status success =
     wf_code False overlap n submit (callback_status host_func success \<circ> status) success"

definition cuda_wait_for_range ::
  "bool \<Rightarrow> bool \<Rightarrow> nat \<Rightarrow> (nat \<Rightarrow> 'e) \<Rightarrow> (nat \<Rightarrow> 'e) \<Rightarrow> 'e \<Rightarrow> 'e wf_pc \<Rightarrow> ('e wf_vars, unit, 'e wf_pc) instr"
where
  "cuda_wait_for_range host_func overlap n submit status success =
     wf_code True overlap n submit (callback_status host_func success \<circ> status) success"

definition hip_wait_for_all ::
  "bool \<Rightarrow> bool \<Rightarrow> nat \<Rightarrow> (nat \<Rightarrow> 'e) \<Rightarrow> (nat \<Rightarrow> 'e) \<Rightarrow> 'e \<Rightarrow> 'e wf_pc \<Rightarrow> ('e wf_vars, unit, 'e wf_pc) instr"
where
  "hip_wait_for_all host_func overlap n submit status success =
     wf_code False overlap n submit (hip_callback_status host_func success \<circ> status) success"

definition hip_wait_for_range ::
  "bool \<Rightarrow> bool \<Rightarrow> nat \<Rightarrow> (nat \<Rightarrow> 'e) \<Rightarrow> (nat \<Rightarrow> 'e) \<Rightarrow> 'e \<Rightarrow> 'e wf_pc \<Rightarrow> ('e wf_vars, unit, 'e wf_pc) instr"
where
  "hip_wait_for_range host_func overlap n submit status success =
     wf_code True overlap n submit (hip_callback_status host_func success \<circ> status) success"

text \<open>The C function of ONNX Runtime returns a status, null for success; the C++ one throws.\<close>

text \<open>A null status is success; a submission status that is not null goes to the callback function at once.\<close>

definition onnx_submission :: "'e option \<Rightarrow> ('e option) submission" where
  "onnx_submission submit = (if submit \<noteq> None then Refused submit else Accepted)"

definition onnx_wait_for :: "'e option \<Rightarrow> 'e option \<Rightarrow> ('e option) one_pc \<Rightarrow> (('e option) one_vars, unit, ('e option) one_pc) instr" where
  "onnx_wait_for submit status = one_code (onnx_submission submit) status"

definition onnx_wait_for_cxx ::
  "bool \<Rightarrow> 'e option \<Rightarrow> ('e option) one_pc \<Rightarrow> (('e option) one_vars, unit, ('e option) one_pc) instr" where
  "onnx_wait_for_cxx throws status = one_code (if throws then Threw else Accepted) status"

definition onnx_cxx_result :: "('e option) one_vars \<Rightarrow> ('e + unit) option" where
  "onnx_cxx_result v =
     map_option (\<lambda>status. case status of None \<Rightarrow> Inr () | Some e \<Rightarrow> Inl e) (one_returned v)"

definition alpaka_wait_for :: "bool \<Rightarrow> unit one_pc \<Rightarrow> (unit one_vars, unit, unit one_pc) instr" where
  "alpaka_wait_for throws = one_code (if throws then Threw else Accepted) ()"

subsection \<open>Accounts\<close>

text \<open>The one right to resume the task: with the call, the runtime, a program point or used up.\<close>

fun right_to_resume :: "'e one_pc control \<Rightarrow> int" where
  "right_to_resume (At Submit) = 1"
| "right_to_resume (At (Notify_one e)) = 1"
| "right_to_resume (At Resume_one_task) = 1"
| "right_to_resume (At Exception_left) = 1"
| "right_to_resume _ = 0"

fun one_dangles :: "'e one_pc control \<Rightarrow> int" where
  "one_dangles (At One_dangling) = 1"
| "one_dangles _ = 0"

fun one_weight :: "bool \<Rightarrow> 'e one_pc control \<Rightarrow> int" where
  "one_weight True = right_to_resume"
| "one_weight False = one_dangles"

fun one_balance :: "bool \<Rightarrow> 'e one_vars \<Rightarrow> int" where
  "one_balance True v = of_bool (one_started v) - of_bool (accepted v) - one_resumed v"
| "one_balance False v = - of_bool (one_resumed v < 0) - of_bool (one_returned v \<noteq> None \<and> one_resumed v < 1)"

lemma one_weights_nonneg: "0 \<le> right_to_resume c" "0 \<le> one_dangles c" "0 \<le> one_weight i c"
proof -
  show r: "0 \<le> right_to_resume c" by (cases c rule: right_to_resume.cases) simp_all
  show d: "0 \<le> one_dangles c" by (cases c rule: one_dangles.cases) simp_all
  from r d show "0 \<le> one_weight i c" by (cases i) simp_all
qed

lemma one_fits:
  assumes "fits one_weight one_balance m v c"
  shows "right_to_resume c \<le> of_bool (one_started v) - of_bool (accepted v) - one_resumed v"
    "0 \<le> one_resumed v" "one_returned v \<noteq> None \<Longrightarrow> 1 \<le> one_resumed v" "one_dangles c = 0"
proof -
  have t: "right_to_resume c \<le> one_balance True v" "one_dangles c \<le> one_balance False v"
    using assms unfolding fits_def by (metis one_weight.simps)+
  from t(1) show "right_to_resume c \<le> of_bool (one_started v) - of_bool (accepted v) - one_resumed v" by simp
  from t(2) one_weights_nonneg(2)[of c]
  show "0 \<le> one_resumed v" "one_returned v \<noteq> None \<Longrightarrow> 1 \<le> one_resumed v" "one_dangles c = 0"
    by (auto simp: of_bool_def split: if_splits)
qed

interpretation one: accounting "one_code sb st" "\<lambda>_. True" "one_init ok" One_start one_weight one_balance
  for sb :: "'e submission" and st ok
proof unfold_locales
  show "0 \<le> one_weight i c" for i and c :: "'e one_pc control" by (rule one_weights_nonneg)
  show "one_weight i (At One_start) = 0" for i by (cases i) simp_all
  show "one_balance i (one_init ok) = 0" for i by (cases i) (simp_all add: one_init_def)
  show "one_balance i v' - one_balance i v = one_weight i c' - one_weight i c"
    if m: "moves pc (one_code sb st pc) v c v' c'" and f: "fits one_weight one_balance m v c"
    for m pc v c v' c' i
  proof (cases pc)
    case (Notify_one e)
    with m have c: "c = At (Notify_one e)" by simp
    with one_fits(1)[OF f] one_fits(2,3)[OF f] have "one_returned v = None"
      by (cases "one_returned v") (auto simp: of_bool_def split: if_splits)
    with m Notify_one c show ?thesis by (cases i) auto
  next
    case Resume_one_task
    with m have c: "c = At Resume_one_task" by simp
    with one_fits(1)[OF f] one_fits(2,3)[OF f] have "one_returned v = None" "\<not> one_resumed v < 0"
      by (cases "one_returned v"; auto simp: of_bool_def split: if_splits)+
    with m Resume_one_task c show ?thesis by (cases i) auto
  next
    case Submit
    with m have "c = At Submit" by simp
    with one_fits(1,2)[OF f] have "\<not> accepted v" by (auto simp: of_bool_def split: if_splits)
    with m Submit show ?thesis by (cases i) (auto split: submission.splits)
  next
    case One_start
    with m show ?thesis by (cases i) (auto split: if_splits)
  qed (use m in auto)
  show "one_weight i (Resuming (w # ws) k) + one_weight i (Suspended pc)
      = one_weight i (Resuming ws k) + one_weight i (At k')"
    if "one_code sb st pc = Wait_if q p k'" for pc q p k' k i w ws
    using that by (auto elim!: one_code_cases)
qed

fun one_outcome :: "'e submission \<Rightarrow> 'e \<Rightarrow> 'e option" where
  "one_outcome Accepted status = Some status"
| "one_outcome (Refused e) status = Some e"
| "one_outcome Threw status = None"

fun one_stored :: "'e option \<Rightarrow> 'e one_vars \<Rightarrow> 'e one_pc control \<Rightarrow> bool" where
  "one_stored r v (At (Notify_one e)) \<longleftrightarrow> r = Some e"
| "one_stored r v (At Resume_one_task) \<longleftrightarrow> r = Some (one_err v)"
| "one_stored r v _ \<longleftrightarrow> True"

definition one_ok :: "'e submission \<Rightarrow> 'e \<Rightarrow> 'e one_vars \<Rightarrow> bool" where
  "one_ok submit status v \<longleftrightarrow> (accepted v \<longrightarrow> submit = Accepted)
     \<and> (0 < one_resumed v \<longrightarrow> one_outcome submit status = Some (one_err v))
     \<and> (\<forall>e. one_returned v = Some e \<longrightarrow> one_outcome submit status = Some e)"

interpretation one_as: assertions "one_code sb st" "one_init ok" One_start "\<lambda>_ _ _. True" "\<lambda>_ _ _ _. True"
  "\<lambda>v c. one_ok sb st v \<and> one_stored (one_outcome sb st) v c" for sb :: "'e submission" and st ok
proof unfold_locales
  show "one_ok sb st (one_init ok) \<and> one_stored (one_outcome sb st) (one_init ok) (At One_start)"
    by (simp add: one_ok_def one_init_def)
  show own: "one_ok sb st v' \<and> one_stored (one_outcome sb st) v' c'"
    if "moves pc (one_code sb st pc) v c v' c'" "one_ok sb st v \<and> one_stored (one_outcome sb st) v c"
    for pc v c v' c'
    using that by (cases pc) (auto simp: one_ok_def split: if_splits submission.splits)
  show "one_ok sb st v' \<and> one_stored (one_outcome sb st) v' d"
    if "moves pc (one_code sb st pc) v c v' c'" "one_ok sb st v \<and> one_stored (one_outcome sb st) v c"
      "one_ok sb st v \<and> one_stored (one_outcome sb st) v d" for pc v c v' c' d
  proof -
    have "one_stored (one_outcome sb st) v' d"
      using that by (cases pc; cases "(one_outcome sb st, v, d)" rule: one_stored.cases)
        (auto split: if_splits submission.splits)
    with own[OF that(1,2)] show ?thesis by blast
  qed
  show "(one_ok sb st v \<and> one_stored (one_outcome sb st) v (Resuming ws k))
      \<and> (one_ok sb st v \<and> one_stored (one_outcome sb st) v (At k'))"
    if "one_code sb st pc = Wait_if q p k'" for pc q p k' v ws k
    using that by (auto elim!: one_code_cases)
qed simp_all

section \<open>Properties\<close>

text \<open>C39. \<open>wait_for_all\<close>, and \<open>wait_for_range\<close> if a resumed task waits for the function that suspended it,
  are right for any number of streams: the task is resumed at most once; when it returns, every
  callback has run, the result holds for each stream in order the error of its registration or
  the status of its callback; and nothing is read from the frame after the return.\<close>

theorem wait_for_all_correct:
  assumes "reach (wf_code ranged overlap n submit status success) m (wf_start n success) s"
    and "int n < 2 ^ 64" "ranged \<longrightarrow> \<not> overlap" "t < m"
  shows "resumed (vars s) \<le> 1 \<and> ctl s t \<noteq> At Dangling
    \<and> (\<forall>es. returned (vars s) = Some es \<longrightarrow>
          es = map (code_of submit status success) [0..<n] \<and> queued (vars s) = []
          \<and> (0 < n \<longrightarrow> resumed (vars s) = 1))"
proof -
  have sm: "int n < 2 ^ 64 \<and> (ranged \<longrightarrow> \<not> overlap)" using assms(2,3) by simp
  have m: "0 < m" using assms(4) by simp
  note comp = wf_resumed_complete[OF assms(1-3) m]
  note range = wf_fits_range[OF wf.reach_fits[OF assms(1) sm assms(4)]]
  have "es = map (code_of submit status success) [0..<n] \<and> queued (vars s) = []
      \<and> (0 < n \<longrightarrow> resumed (vars s) = 1)" if "returned (vars s) = Some es" for es
    by (rule wf_returned[OF assms(1-4) that])
  moreover have "resumed (vars s) \<le> 1" using comp by (cases "0 < resumed (vars s)") auto
  moreover have "ctl s t \<noteq> At Dangling" using range(6) by auto
  ultimately show ?thesis by blast
qed

text \<open>Two streams; the first accepts the callback, the second fails at registration with code 9.\<close>

theorem wait_for_all_correct_witness:
  "\<exists>s. reach (cuda_wait_for_range False False 2 (\<lambda>i. if i = 1 then 9 else 0) (\<lambda>_. 5) (0::nat)) 2 (wf_start 2 0) s
     \<and> returned (vars s) = Some [5, 9] \<and> ctl s 0 \<noteq> At Dangling"
proof -
  let ?c = "wf_code True False 2 (\<lambda>i. if i = 1 then 9 else 0) (\<lambda>_. 5) (0::nat)"
  have c: "cuda_wait_for_range False False 2 (\<lambda>i. if i = 1 then 9 else 0) (\<lambda>_. 5) 0 = ?c"
    by (simp add: cuda_wait_for_range_def callback_status_def o_def)
  have "\<exists>s. reach ?c 2 (wf_start 2 0) s \<and> returned (vars s) = Some [5, 9]"
    by (rule run_witness[where sched = "[(0,0),(0,0),(0,0),(0,0),(0,0),(1,0),(0,0),(0,0),(0,0),(1,0),
        (0,0),(0,0),(0,0),(1,0),(1,0),(1,0)]"])
      (simp add: run_simps wf_init_def frame_dead_def numeral_2_eq_2)
  then obtain s where "reach ?c 2 (wf_start 2 0) s" "returned (vars s) = Some [5, 9]" by blast
  with wait_for_all_correct[OF this(1), of 0] show ?thesis unfolding c by auto
qed

text \<open>C40. No wait is lost: when the function passed to \<open>suspend\<close> has ended, every thread of the runtime is
  idle and no callback is queued, the task has been resumed, whichever registrations failed.\<close>

theorem wait_for_all_resumes:
  assumes "reach (wf_code ranged overlap n submit status success) m (wf_start n success) s"
    and "int n < 2 ^ 64" "ranged \<longrightarrow> \<not> overlap" "0 < m" "0 < n"
    and "settled m s (\<lambda>pc. pc = Start)" "functor_started (vars s)" "queued (vars s) = []"
  shows "resumed (vars s) = 1"
proof -
  have sm: "int n < 2 ^ 64 \<and> (ranged \<longrightarrow> \<not> overlap)" using assms(2,3) by simp
  note ex = wf.accounts_exact[OF assms(1) sm]
  have z: "total undecided m (ctl s) = 0" "total resumer m (ctl s) = 0" "total in_functor m (ctl s) = 0"
    by (rule settled_total[OF assms(6)]; simp)+
  have "functor_done (vars s)" using ex[of Functors] z(3) assms(7) by (simp add: registering_def)
  then have "registered (vars s) = n"
    using wf_fits_range(8)[OF wf.reach_fits[OF assms(1) sm assms(4)]] by blast
  with ex[of Pending] z(1) assms(8) have "pending (vars s) = 0" by simp
  with ex[of Resumers] z(2) assms(5) show ?thesis by simp
qed

text \<open>Both registrations failed.\<close>

theorem wait_for_all_resumes_witness:
  "\<exists>s. reach (hip_wait_for_all True True 2 (\<lambda>_. 9) (\<lambda>_. 5) (0::nat)) 1 (wf_start 2 0) s
     \<and> resumed (vars s) = 1 \<and> errs (vars s) = [9, 9]"
proof -
  let ?c = "wf_code False True 2 (\<lambda>_. 9) (\<lambda>_. 0) (0::nat)"
  have c: "hip_wait_for_all True True 2 (\<lambda>_. 9) (\<lambda>_. 5) 0 = ?c"
    by (simp add: hip_wait_for_all_def hip_callback_status_def o_def)
  have "\<exists>s. reach ?c 1 (wf_start 2 0) s \<and> (settled 1 s (\<lambda>pc. pc = Start) \<and> functor_started (vars s)
      \<and> queued (vars s) = [] \<and> errs (vars s) = [9, 9])"
    by (rule run_witness[where sched = "replicate 14 (0,0)"])
      (simp add: run_simps wf_init_def frame_dead_def settled_def all_less_small numeral_eq_Suc)
  then obtain s where "reach ?c 1 (wf_start 2 0) s" "settled 1 s (\<lambda>pc. pc = Start)"
    "functor_started (vars s)" "queued (vars s) = []" "errs (vars s) = [9, 9]" by blast
  with wait_for_all_resumes[OF this(1)] show ?thesis unfolding c by auto
qed

text \<open>A dependence on the scheduler. If it lets a resumed task run while the function passed to \<open>suspend\<close> is still running,
  \<open>wait_for_range\<close> reads its argument \<open>last\<close> after it has returned: the callback of the only stream
  runs and resumes the task, the task returns, and the loop then compares \<open>it\<close> with \<open>last\<close>.\<close>

theorem wait_for_range_dangling:
  "\<exists>s. reach (cuda_wait_for_range False True 1 (\<lambda>_. 0) (\<lambda>_. 5) (0::nat)) 2 (wf_start 1 0) s
     \<and> ctl s 0 = At Dangling \<and> returned (vars s) = Some [5]"
proof -
  have c: "cuda_wait_for_range False True 1 (\<lambda>_. 0) (\<lambda>_. 5) (0::nat) = wf_code True True 1 (\<lambda>_. 0) (\<lambda>_. 5) 0"
    by (simp add: cuda_wait_for_range_def callback_status_def o_def)
  show ?thesis unfolding c
    by (rule run_witness[where sched = "[(0,0),(0,0),(0,0),(0,0),(0,0),(1,0),(1,0),(1,0),(1,0),(1,0),(0,0)]"])
      (simp add: run_simps wf_init_def frame_dead_def)
qed

text \<open>\<open>wait_for\<close> on one stream or session.\<close>

lemma one_correct:
  assumes "reach (one_code submit status) m (one_start success) s" "0 < m"
  shows "one_resumed (vars s) \<le> 1 \<and> (\<nexists>t. t < m \<and> ctl s t = At One_dangling)
    \<and> (\<forall>e. one_returned (vars s) = Some e \<longrightarrow> one_resumed (vars s) = 1 \<and> one_outcome submit status = Some e)
    \<and> (settled m s (\<lambda>pc. pc = One_start) \<longrightarrow> one_started (vars s) \<longrightarrow> \<not> accepted (vars s)
        \<longrightarrow> one_resumed (vars s) = 1)"
proof -
  note ex = one.accounts_exact[OF assms(1) TrueI]
  note f = one_fits[OF one.reach_fits[OF assms(1) TrueI]]
  have ok: "one_ok submit status (vars s)" using one_as.assertion_holds[OF assms] by blast
  have nn: "0 \<le> total right_to_resume m (ctl s)" by (rule total_nonneg) (rule one_weights_nonneg)
  with ex[of True] have le: "one_resumed (vars s) \<le> 1" by (simp add: of_bool_def split: if_splits)
  moreover have "\<nexists>t. t < m \<and> ctl s t = At One_dangling" using f(4) by fastforce
  moreover have "one_resumed (vars s) = 1 \<and> one_outcome submit status = Some e"
    if "one_returned (vars s) = Some e" for e
    using f(3)[OF assms(2)] le ok that by (auto simp: one_ok_def)
  moreover have "one_resumed (vars s) = 1"
    if "settled m s (\<lambda>pc. pc = One_start)" "one_started (vars s)" "\<not> accepted (vars s)"
  proof -
    have "total right_to_resume m (ctl s) = 0" by (rule settled_total[OF that(1)]) simp_all
    with ex[of True] that(2,3) show ?thesis by simp
  qed
  ultimately show ?thesis by blast
qed

text \<open>\<open>cuda::wait_for\<close> and \<open>hip::wait_for\<close>: the task is resumed at most once, and it is when nobody has
  anything left to do; it returns the code of the failed registration or the status of the callback, and
  no callback uses the context after the return.\<close>

theorem wait_for_correct:
  assumes "code = cuda_wait_for host_func success submit status \<or> code = hip_wait_for host_func success submit status"
    and "reach code m (one_start success) s" "0 < m"
  shows "one_resumed (vars s) \<le> 1 \<and> (\<nexists>t. t < m \<and> ctl s t = At One_dangling)
    \<and> (\<forall>e. one_returned (vars s) = Some e \<longrightarrow> one_resumed (vars s) = 1
          \<and> e = (if submit \<noteq> success then submit else if host_func then success else status))
    \<and> (settled m s (\<lambda>pc. pc = One_start) \<longrightarrow> one_started (vars s) \<longrightarrow> \<not> accepted (vars s)
        \<longrightarrow> one_resumed (vars s) = 1)"
proof -
  have c: "code = one_code (register_callback success submit) (callback_status host_func success status)"
    using assms(1) by (auto simp: cuda_wait_for_def hip_wait_for_def hip_functions)
  from one_correct[OF assms(2)[unfolded c] assms(3)] show ?thesis
    by (auto simp: register_callback_def callback_status_def split: if_splits)
qed

text \<open>The callback is accepted, and called with status 5.\<close>

theorem wait_for_correct_witness:
  "\<exists>s. reach (cuda_wait_for False 0 0 (5::nat)) 1 (one_start 0) s
     \<and> one_returned (vars s) = Some 5 \<and> one_resumed (vars s) = 1"
proof -
  let ?c = "cuda_wait_for False 0 0 (5::nat)"
  have "\<exists>s. reach ?c 1 (one_start 0) s \<and> one_returned (vars s) = Some 5"
    by (rule run_witness[where sched = "replicate 6 (0,0)"])
      (simp add: run_simps one_init_def cuda_wait_for_def register_callback_def callback_status_def
        numeral_eq_Suc)
  then obtain s where "reach ?c 1 (one_start 0) s" "one_returned (vars s) = Some 5" by blast
  with wait_for_correct[OF disjI1[OF refl] this(1)] show ?thesis by auto
qed

text \<open>The C form of \<open>onnx::wait_for\<close> returns the status of the submission if it is not null, and else
  the one given to the callback; the C++ form throws that one.\<close>

theorem onnx_wait_for_result:
  assumes "reach (onnx_wait_for submit status) m (one_start None) s" "0 < m" "one_returned (vars s) = Some e"
  shows "e = (if submit \<noteq> None then submit else status)"
  using one_correct[OF assms(1)[unfolded onnx_wait_for_def] assms(2)] assms(3)
  by (auto simp: onnx_submission_def split: if_splits)

lemma threw_not_resumed:
  assumes "reach (one_code Threw status) m (one_start x) s" "0 < m"
  shows "one_resumed (vars s) \<le> 0 \<and> one_returned (vars s) = None"
proof -
  have "one_ok Threw status (vars s)" using one_as.assertion_holds[OF assms] by blast
  then show ?thesis by (cases "one_returned (vars s)") (auto simp: one_ok_def)
qed

text \<open>If the submission throws, nobody resumes the task: in the C++ form of \<open>onnx::wait_for\<close> and in
  \<open>alpaka::wait_for\<close> the exception leaves the function passed to \<open>suspend\<close>, and no code calls
  \<open>resume\<close>, at once or later.\<close>

theorem throwing_submission_never_resumed:
  assumes "reach (onnx_wait_for_cxx True status) m (one_start None) s" "0 < m"
    and "reach (alpaka_wait_for True) m (one_start ()) s'"
  shows "one_resumed (vars s) \<le> 0 \<and> onnx_cxx_result (vars s) = None
    \<and> one_resumed (vars s') \<le> 0 \<and> one_returned (vars s') = None"
  using threw_not_resumed[of status m None s] threw_not_resumed[of "()" m "()" s'] assms
  by (simp add: onnx_wait_for_cxx_def alpaka_wait_for_def onnx_cxx_result_def)

theorem throwing_submission_never_resumed_witness:
  "\<exists>s s'. reach (onnx_wait_for_cxx True (Some (3::nat))) 1 (one_start None) s
     \<and> ctl s 0 = At Exception_left \<and> onnx_cxx_result (vars s) = None
     \<and> reach (alpaka_wait_for True) 1 (one_start ()) s' \<and> ctl s' 0 = At Exception_left
     \<and> one_resumed (vars s') \<le> 0"
proof -
  have "\<exists>s. reach (onnx_wait_for_cxx True (Some (3::nat))) 1 (one_start None) s \<and> ctl s 0 = At Exception_left"
    by (rule run_witness[where sched = "replicate 2 (0,0)"])
      (simp add: run_simps one_init_def onnx_wait_for_cxx_def numeral_eq_Suc)
  then obtain s where s: "reach (onnx_wait_for_cxx True (Some (3::nat))) 1 (one_start None) s"
    "ctl s 0 = At Exception_left" by blast
  have "\<exists>s. reach (alpaka_wait_for True) 1 (one_start ()) s \<and> ctl s 0 = At Exception_left"
    by (rule run_witness[where sched = "replicate 2 (0,0)"])
      (simp add: run_simps one_init_def alpaka_wait_for_def numeral_eq_Suc)
  then obtain s' where s': "reach (alpaka_wait_for True) 1 (one_start ()) s'" "ctl s' 0 = At Exception_left"
    by blast
  from throwing_submission_never_resumed[OF s(1) _ s'(1)] s s' show ?thesis by auto
qed

end
