(* ===== verification/Atomic_Ref.thy ===== *)
theory Atomic_Ref
  imports Atomic_Condition
begin

text \<open>
  \<open>atomic_ref_condition\<close> (\<open>include/coopsync_tbb/atomic_ref_condition.hpp\<close>): objects that refer to values
  kept elsewhere. Objects are created for a value or as copies of other objects; all objects of a value
  read and change the same value, but each has its own wait queue. Proved: if every change is followed by
  \<open>notify_all\<close> on all objects of the value, then once everybody has settled nobody sleeps waiting for a change of
  bytes that the value no longer has (a change undone before the waiter looks may be missed, as documented);
  a replay shows that a notification on one object does not reach the waiters of its copy.
\<close>

section \<open>State and operations\<close>

text \<open>Values are numbered by their location, objects in the order of their construction; \<open>ref_objects\<close>
  gives the location each object's \<open>std::atomic_ref\<close> refers to.\<close>

record 'a ref_state =
  ref_values :: "nat \<Rightarrow> 'a"
  ref_objects :: "nat list"

definition ref_construct :: "nat \<Rightarrow> 'a ref_state \<Rightarrow> 'a ref_state" where
  "ref_construct l v = v\<lparr>ref_objects := ref_objects v @ [l]\<rparr>"

definition ref_copy_construct :: "nat \<Rightarrow> 'a ref_state \<Rightarrow> 'a ref_state" where
  "ref_copy_construct i v = v\<lparr>ref_objects := ref_objects v @ [ref_objects v ! i]\<rparr>"

definition ref_load :: "nat \<Rightarrow> 'a ref_state \<Rightarrow> 'a" where
  "ref_load i v = ref_values v (ref_objects v ! i)"

text \<open>A change of the value through \<open>atomic()\<close>, \<open>operator*\<close> or \<open>operator->\<close>.\<close>

definition ref_change :: "nat \<Rightarrow> ('a \<Rightarrow> 'a) \<Rightarrow> 'a ref_state \<Rightarrow> 'a ref_state" where
  "ref_change i f v = v\<lparr>ref_values := (ref_values v)(ref_objects v ! i := f (ref_load i v))\<rparr>"

datatype 'a ref_call =
    Ref_construct nat | Ref_copy_construct nat
  | Ref_wait nat 'a memory_order | Ref_change nat "'a \<Rightarrow> 'a"
  | Ref_notify_one nat | Ref_notify_all nat

datatype 'a ref_pc =
    R_idle
  | R_construct nat | R_copy_construct nat | R_constructed nat
  | R_wait nat 'a memory_order | R_loop nat 'a | R_sleep nat 'a | R_passed nat 'a
  | R_change nat "'a \<Rightarrow> 'a" | R_notify_all "nat list" | R_notify_one nat
  | R_aborted

text \<open>A call names an object that exists. \<open>policy v i\<close>: the objects on which a caller calls \<open>notify_all\<close>
  after it has changed the value of object \<open>i\<close>.\<close>

fun ref_enter :: "'a ref_state \<Rightarrow> 'a ref_call \<Rightarrow> 'a ref_pc list" where
  "ref_enter v (Ref_construct l) = [R_construct l]"
| "ref_enter v (Ref_copy_construct i) = (if i < length (ref_objects v) then [R_copy_construct i] else [])"
| "ref_enter v (Ref_wait i old order) = (if i < length (ref_objects v) then [R_wait i old order] else [])"
| "ref_enter v (Ref_change i f) = (if i < length (ref_objects v) then [R_change i f] else [])"
| "ref_enter v (Ref_notify_one i) = (if i < length (ref_objects v) then [R_notify_one i] else [])"
| "ref_enter v (Ref_notify_all i) = (if i < length (ref_objects v) then [R_notify_all [i]] else [])"

definition ref_calls :: "'a ref_call list \<Rightarrow> 'a ref_state \<Rightarrow> ('a ref_state \<times> 'a ref_pc) list" where
  "ref_calls calls v = map (Pair v) (concat (map (ref_enter v) calls))"

fun ref_code ::
  "('a \<Rightarrow> 8 word list) \<Rightarrow> ('a ref_state \<Rightarrow> nat \<Rightarrow> nat list) \<Rightarrow> 'a ref_call list \<Rightarrow> 'a ref_pc
    \<Rightarrow> ('a ref_state, nat, 'a ref_pc) instr"
where
  "ref_code bytes policy calls R_idle = Atomic (ref_calls calls)"
| "ref_code bytes policy calls (R_construct l) =
     Do (\<lambda>v. (ref_construct l v, R_constructed (length (ref_objects v))))"
| "ref_code bytes policy calls (R_copy_construct i) =
     Do (\<lambda>v. (ref_copy_construct i v, R_constructed (length (ref_objects v))))"
| "ref_code bytes policy calls (R_constructed i) = Goto [R_idle]"
| "ref_code bytes policy calls (R_wait i old order) =
     Do (\<lambda>v. (v, if order = Release \<or> order = Acq_rel then R_aborted else R_loop i old))"
| "ref_code bytes policy calls (R_loop i old) =
     Do (\<lambda>v. (v, if \<not> same_bytes bytes (ref_load i v) old then R_passed i old else R_sleep i old))"
| "ref_code bytes policy calls (R_sleep i old) =
     Wait_if i (\<lambda>v. (v, same_bytes bytes (ref_load i v) old)) (R_loop i old)"
| "ref_code bytes policy calls (R_passed i old) = Goto [R_idle]"
| "ref_code bytes policy calls (R_change i f) = Do (\<lambda>v. (ref_change i f v, R_notify_all (policy v i)))"
| "ref_code bytes policy calls (R_notify_all []) = Goto [R_idle]"
| "ref_code bytes policy calls (R_notify_all (i # is)) = Resume_all i (R_notify_all is)"
| "ref_code bytes policy calls (R_notify_one i) = Resume_one i (\<lambda>_. R_idle)"
| "ref_code bytes policy calls R_aborted = Halt"

fun_cases ref_code_cases:
  "ref_code bytes policy calls pc = Atomic f" "ref_code bytes policy calls pc = Wait_if q pred k"
  "ref_code bytes policy calls pc = Resume_one q k'" "ref_code bytes policy calls pc = Resume_n q m k"
  "ref_code bytes policy calls pc = Resume_all q k"

abbreviation ref_start :: "(nat \<Rightarrow> 'a) \<Rightarrow> ('a ref_state, nat, 'a ref_pc) sys" where
  "ref_start vals \<equiv> init_sys \<lparr>ref_values = vals, ref_objects = []\<rparr> R_idle"

text \<open>The callers that notify all objects of the value, and those that notify the object they used.\<close>

definition notify_sharing :: "'a ref_state \<Rightarrow> nat \<Rightarrow> nat list" where
  "notify_sharing v i = filter (\<lambda>j. ref_objects v ! j = ref_objects v ! i) [0..<length (ref_objects v)]"

definition notify_own :: "'a ref_state \<Rightarrow> nat \<Rightarrow> nat list" where
  "notify_own v i = [i]"

section \<open>Whoever sleeps has a reason\<close>

text \<open>A task about to use object \<open>i\<close>, or asleep in it, knows that the object exists.\<close>

fun ref_uses :: "'a ref_pc \<Rightarrow> nat option" where
  "ref_uses (R_copy_construct i) = Some i"
| "ref_uses (R_wait i old order) = Some i"
| "ref_uses (R_loop i old) = Some i"
| "ref_uses (R_sleep i old) = Some i"
| "ref_uses (R_change i f) = Some i"
| "ref_uses _ = None"

definition ref_exists :: "'a ref_state \<Rightarrow> 'a ref_pc control \<Rightarrow> bool" where
  "ref_exists v c \<longleftrightarrow> (\<forall>i. ref_uses (pc_of c) = Some i \<longrightarrow> i < length (ref_objects v))"

definition sharing_notified :: "('a ref_state \<Rightarrow> nat \<Rightarrow> nat list) \<Rightarrow> bool" where
  "sharing_notified policy \<longleftrightarrow> (\<forall>v i j. j < length (ref_objects v) \<longrightarrow> ref_objects v ! j = ref_objects v ! i
     \<longrightarrow> j \<in> set (policy v i))"

lemma notify_sharing_notified: "sharing_notified notify_sharing"
  by (auto simp: sharing_notified_def notify_sharing_def)

text \<open>A move creates objects or changes one value; the objects that exist keep their location.\<close>

lemma ref_move_objects:
  assumes "moves pc (ref_code bytes policy calls pc) v c v' c'"
  shows "\<exists>ls. ref_objects v' = ref_objects v @ ls"
  using assms
proof (cases pc)
  case (R_notify_all js)
  with assms show ?thesis by (cases js) auto
qed (auto simp: ref_calls_def ref_construct_def ref_copy_construct_def ref_change_def)

lemma ref_exists_stable:
  "ref_exists v d \<Longrightarrow> ref_objects v' = ref_objects v @ ls \<Longrightarrow> ref_exists v' d"
  by (auto simp: ref_exists_def)

interpretation ref_as: assertions "ref_code bytes policy calls" "\<lparr>ref_values = vals, ref_objects = []\<rparr>" R_idle
  "\<lambda>_ _ _. True" "\<lambda>_ _ _ _. True" ref_exists for bytes policy calls vals
proof unfold_locales
  show "ref_exists v' c'" if m: "moves pc (ref_code bytes policy calls pc) v c v' c'" and e: "ref_exists v c"
    for pc v c v' c'
  proof (cases pc)
    case R_idle
    have "ref_exists v (At pc')" if "pc' \<in> set (ref_enter v call)" for call pc'
      using that by (cases call) (auto simp: ref_exists_def split: if_splits)
    with R_idle m show ?thesis by (auto simp: ref_calls_def)
  next
    case (R_notify_all js)
    with m show ?thesis by (cases js) (auto simp: ref_exists_def)
  qed (use m e in \<open>auto simp: ref_exists_def ref_change_def split: if_splits\<close>)
  show "ref_exists v' d" if "moves pc (ref_code bytes policy calls pc) v c v' c'" "ref_exists v d" for pc v c v' c' d
    using ref_move_objects[OF that(1)] ref_exists_stable[OF that(2)] by blast
qed (auto simp: ref_exists_def elim!: ref_code_cases)

fun ref_reason :: "('a \<Rightarrow> 8 word list) \<Rightarrow> nat \<Rightarrow> 'a ref_pc \<Rightarrow> 'a ref_state \<Rightarrow> bool" where
  "ref_reason bytes i (R_sleep j old) v \<longleftrightarrow> j = i \<longrightarrow> same_bytes bytes (ref_load i v) old"
| "ref_reason bytes i _ v \<longleftrightarrow> True"

fun ref_notifier :: "nat \<Rightarrow> 'a ref_pc control \<Rightarrow> int" where
  "ref_notifier i (At (R_notify_all is)) = of_bool (i \<in> set is)"
| "ref_notifier i (Resuming ws (R_notify_all is)) = of_bool (i \<in> set is)"
| "ref_notifier i _ = 0"

lemma ref_notifier_nonneg: "0 \<le> ref_notifier i c"
  by (cases "(i, c)" rule: ref_notifier.cases) simp_all

text \<open>A change of the value of an object is announced on every object of that value.\<close>

lemma ref_announce:
  assumes m: "moves pc (ref_code bytes policy calls pc) v c v' c'" and p: "sharing_notified policy"
    and i: "i < length (ref_objects v)"
  shows "ref_load i v' = ref_load i v \<or> 0 < ref_notifier i c'"
proof (cases pc)
  case (R_notify_all js)
  with m show ?thesis by (cases js) auto
next
  case (R_change j f)
  have "i \<in> set (policy v j)" if "ref_objects v ! i = ref_objects v ! j"
    using p i that by (auto simp: sharing_notified_def)
  with R_change m show ?thesis by (auto simp: ref_change_def ref_load_def)
qed (use m i in \<open>auto simp: ref_calls_def ref_construct_def ref_copy_construct_def ref_load_def nth_append\<close>)

lemma ref_reason_cong: "ref_load i v' = ref_load i v \<Longrightarrow> ref_reason bytes i pc v' \<longleftrightarrow> ref_reason bytes i pc v"
  by (cases pc) simp_all

interpretation ref: notifications "ref_code bytes (\<lambda>v i. notify_sharing v i @ extra v i) calls"
  "\<lparr>ref_values = vals, ref_objects = []\<rparr>" R_idle i "ref_reason bytes i" "ref_notifier i" ref_exists
  for bytes extra calls vals i
proof unfold_locales
  let ?c = "ref_code bytes (\<lambda>v i. notify_sharing v i @ extra v i) calls"
  show "ref_exists (vars s) (ctl s t)" if "reach ?c n (ref_start vals) s" "t < n" for n s t
    using that by (rule ref_as.assertion_holds)
  show "0 \<le> ref_notifier i c" for c :: "'a ref_pc control" by (rule ref_notifier_nonneg)
  show "ref_reason bytes i pc v'" if "?c pc = Wait_if i pred k" "pred v = (v', True)" for pc pred k v v'
    using that by (auto elim!: ref_code_cases)
  show "ref_reason bytes i pc' v' \<or> 0 < ref_notifier i c'"
    if "moves pc (?c pc) v c v' c'" "wait_queue_of (?c pc') = Some i" "ref_exists v d"
      "d = Pushing pc' \<or> d = Suspended pc'" "ref_reason bytes i pc' v" for pc v c v' c' pc' d
  proof -
    have "sharing_notified (\<lambda>v i. notify_sharing v i @ extra v i)"
      using notify_sharing_notified by (auto simp: sharing_notified_def)
    moreover have "i < length (ref_objects v)"
      using that(2-4) by (auto simp: wait_queue_of_Some ref_exists_def elim!: ref_code_cases)
    ultimately show ?thesis using ref_announce[OF that(1)] ref_reason_cong that(5) by blast
  qed
  show "0 < ref_notifier i c'"
    if m: "moves pc (?c pc) v c v' c'" and e: "\<not> empties i (?c pc) c" and p: "0 < ref_notifier i c" for pc v c v' c'
  proof (cases pc)
    case (R_notify_all js)
    with m e p show ?thesis by (cases js) (auto split: if_splits)
  qed (use m p in auto)
  show "ref_notifier i (Resuming (y # ws) k) + ref_notifier i (Suspended pc)
      \<le> ref_notifier i (Resuming ws k) + ref_notifier i (At k')" for y ws k pc k'
    using ref_notifier_nonneg[of i "At k'"] by (cases k) simp_all
qed

section \<open>Properties\<close>

text \<open>C27. No wait outlasts a change that stays: if every change of a value is followed by \<open>notify_all\<close> on all objects that
  refer to it, then once everybody has settled nobody sleeps in \<open>wait(old)\<close> while the value has other bytes
  than \<open>old\<close>, through whichever object it was changed and whenever the objects were made. A change that is undone
  before the waiter has looked may be missed, as the documentation of \<open>wait\<close> says.\<close>

theorem ref_sleepers_unchanged:
  assumes "reach (ref_code bytes (\<lambda>v i. notify_sharing v i @ extra v i) calls) n (ref_start vals) s"
    and "settled n s (\<lambda>pc. pc = R_idle)" "t < n" "ctl s t = Suspended (R_sleep i old)"
  shows "same_bytes bytes (ref_load i (vars s)) old"
  using ref.sleepers_have_reason[OF assms(1,2) _ _ assms(3,4), of i] by simp

text \<open>Task 0 makes an object and its copy and sleeps on the copy until task 1 changes the value from 0 to 1 through
  the first object; task 0 returns, and now sleeps on the copy waiting for a change of 1.\<close>

theorem ref_sleepers_unchanged_witness:
  "\<exists>s. reach (ref_code (\<lambda>w. [w]) (\<lambda>v i. notify_sharing v i @ []) [Ref_construct 5, Ref_copy_construct 0, Ref_wait 1 0 Seq_cst,
        Ref_change 0 (\<lambda>w. 1 - w), Ref_wait 1 1 Seq_cst]) 2 (ref_start (\<lambda>_. 0)) s
     \<and> ctl s 0 = Suspended (R_sleep 1 1) \<and> same_bytes (\<lambda>w. [w]) (ref_load 1 (vars s)) 1"
proof -
  let ?c = "ref_code (\<lambda>w :: 8 word. [w]) (\<lambda>v i. notify_sharing v i @ [])
    [Ref_construct 5, Ref_copy_construct 0, Ref_wait 1 0 Seq_cst, Ref_change 0 (\<lambda>w. 1 - w), Ref_wait 1 1 Seq_cst]"
  have "\<exists>s. reach ?c 2 (ref_start (\<lambda>_. 0)) s
     \<and> (settled 2 s (\<lambda>pc. pc = R_idle) \<and> ctl s 0 = Suspended (R_sleep 1 1))"
    by (rule run_witness[where sched = "[(0,0),(0,0),(0,0),(0,1),(0,0),(0,0),
        (0,2),(0,0),(0,0),(0,0),(0,0),(0,0),(0,0),
        (1,3),(1,0),(1,0),(1,0),(1,0),(1,0),(1,0),(1,0),(0,0),(0,0),
        (0,4),(0,0),(0,0),(0,0),(0,0),(0,0),(0,0)]"])
      (simp add: run_simps ref_calls_def ref_construct_def ref_copy_construct_def ref_load_def ref_change_def
        notify_sharing_def same_bytes_def settled_def all_less_small)
  then obtain s where "reach ?c 2 (ref_start (\<lambda>_. 0)) s" "settled 2 s (\<lambda>pc. pc = R_idle)"
    "ctl s 0 = Suspended (R_sleep 1 1)" by blast
  with ref_sleepers_unchanged[OF this(1,2) _ this(3)] show ?thesis by auto
qed

text \<open>A caller that notifies only the object it used leaves a waiter of the copy asleep although the
  value has changed.\<close>

theorem ref_copy_not_notified:
  "\<exists>s. reach (ref_code (\<lambda>w. [w]) notify_own
          [Ref_construct 0, Ref_copy_construct 0, Ref_wait 1 0 Seq_cst, Ref_change 0 (\<lambda>_. 7)]) 2 (ref_start (\<lambda>_. 0)) s
     \<and> settled 2 s (\<lambda>pc. pc = R_idle) \<and> ctl s 1 = Suspended (R_sleep 1 0)
     \<and> ref_objects (vars s) = [0, 0] \<and> \<not> same_bytes (\<lambda>w. [w]) (ref_load 1 (vars s)) 0"
  by (rule run_witness[where sched = "[(0,0),(0,0),(0,0),(0,1),(0,0),(0,0),
      (1,2),(1,0),(1,0),(1,0),(1,0),(1,0),(1,0),(0,3),(0,0),(0,0),(0,0),(0,0)]"])
    (simp add: run_simps ref_calls_def ref_construct_def ref_copy_construct_def ref_load_def ref_change_def
      notify_own_def same_bytes_def settled_def all_less_small)

end
