(* ===== verification/Destruction.thy ===== *)
theory Destruction
  imports Mutex Shared_Mutex Semaphore Binary_Semaphore Latch Barrier Atomic_Ref Condition_Variable
begin

text \<open>
  The destructors. None of them resumes anybody; they assert that the wait queues are empty, and
  \<open>~shared_mutex\<close> also that the lock is free. Proved: the assertions hold under the documented condition,
  that no task waits on the object. A replay shows what the condition does not cover: a call
  that has done its last change of the atomics but still has to look at the wait queue.
\<close>

section \<open>Assertions\<close>

definition wait_queue_destroy :: "('v, 'q, 'pc) sys \<Rightarrow> 'q \<Rightarrow> bool" where
  "wait_queue_destroy s q \<longleftrightarrow> m_waiters s q = []"

definition mutex_destroy :: "(mutex, unit, mutex_pc) sys \<Rightarrow> bool" where
  "mutex_destroy s \<longleftrightarrow> wait_queue_destroy s ()"

definition shared_mutex_destroy :: "(shared_mutex, smx_queue, smx_pc) sys \<Rightarrow> bool" where
  "shared_mutex_destroy s \<longleftrightarrow>
     smx_state (vars s) = 0 \<and> wait_queue_destroy s Writers \<and> wait_queue_destroy s Readers"

definition sem_destroy :: "(semaphore, unit, sem_pc) sys \<Rightarrow> bool" where
  "sem_destroy s \<longleftrightarrow> wait_queue_destroy s ()"

definition bsem_destroy :: "(binary_semaphore, unit, bsem_pc) sys \<Rightarrow> bool" where
  "bsem_destroy s \<longleftrightarrow> wait_queue_destroy s ()"

definition latch_destroy :: "(latch, unit, latch_pc) sys \<Rightarrow> bool" where
  "latch_destroy s \<longleftrightarrow> wait_queue_destroy s ()"

definition bar_destroy :: "(barrier, unit, bar_pc) sys \<Rightarrow> bool" where
  "bar_destroy s \<longleftrightarrow> wait_queue_destroy s ()"

definition ac_destroy :: "('a atomic_value, nat, 'a ac_pc) sys \<Rightarrow> nat \<Rightarrow> bool" where
  "ac_destroy s i \<longleftrightarrow> wait_queue_destroy s i"

definition ref_destroy :: "('a ref_state, nat, 'a ref_pc) sys \<Rightarrow> nat \<Rightarrow> bool" where
  "ref_destroy s i \<longleftrightarrow> wait_queue_destroy s i"

definition flag_destroy :: "(flag_state, unit, flag_pc) sys \<Rightarrow> bool" where
  "flag_destroy s \<longleftrightarrow> wait_queue_destroy s ()"

definition cv_destroy :: "('d cv_state, cv_queue, 'd cv_pc) sys \<Rightarrow> bool" where
  "cv_destroy s \<longleftrightarrow> wait_queue_destroy s Cond_q"

lemmas destroy_defs = mutex_destroy_def sem_destroy_def bsem_destroy_def latch_destroy_def
  bar_destroy_def ac_destroy_def ref_destroy_def flag_destroy_def cv_destroy_def

section \<open>Nobody waits\<close>

fun waiting :: "'pc control \<Rightarrow> bool" where
  "waiting (At pc) \<longleftrightarrow> False"
| "waiting (Resuming ws pc) \<longleftrightarrow> False"
| "waiting _ \<longleftrightarrow> True"

definition nobody_waits :: "nat \<Rightarrow> ('v, 'q, 'pc) sys \<Rightarrow> bool" where
  "nobody_waits n s \<longleftrightarrow> (\<nexists>t. t < n \<and> waiting (ctl s t))"

lemma sleeps_on_waiting: "sleeps_on code c = Some q \<Longrightarrow> waiting c"
  by (cases c) simp_all

text \<open>For every program: the queues hold waiting tasks only, so without them they are empty.\<close>

lemma wait_queue_destroy_ok:
  assumes "reach code n (init_sys v pc0) s" "nobody_waits n s"
  shows "wait_queue_destroy s q"
proof -
  have "t \<notin> set (m_waiters s q)" for t
  proof
    assume "t \<in> set (m_waiters s q)"
    then have "sleeps_on code (ctl s t) = Some q"
      using reach_wf[OF assms(1)] by (simp add: wf_def wf_queued_def)
    then have w: "waiting (ctl s t)" by (rule sleeps_on_waiting)
    then have "t < n" using reach_wf[OF assms(1)]
      by (auto simp: wf_def wf_outside_def not_less dest!: spec[where x = t])
    with w assms(2) show False by (auto simp: nobody_waits_def)
  qed
  then show ?thesis unfolding wait_queue_destroy_def by (cases "m_waiters s q") auto
qed

section \<open>Properties\<close>

text \<open>The assertions of the destructors that look at their queue only.\<close>

theorem mutex_destructor: "reach mutex_code n mutex_start s \<Longrightarrow> nobody_waits n s \<Longrightarrow> mutex_destroy s"
  unfolding destroy_defs by (rule wait_queue_destroy_ok)

theorem sem_destructor: "reach (sem_code N us) n (sem_start N d) s \<Longrightarrow> nobody_waits n s \<Longrightarrow> sem_destroy s"
  unfolding destroy_defs by (rule wait_queue_destroy_ok)

theorem bsem_destructor: "reach (bsem_code us) n (bsem_start d) s \<Longrightarrow> nobody_waits n s \<Longrightarrow> bsem_destroy s"
  unfolding destroy_defs by (rule wait_queue_destroy_ok)

theorem latch_destructor: "reach (latch_code us) n (latch_start e) s \<Longrightarrow> nobody_waits n s \<Longrightarrow> latch_destroy s"
  unfolding destroy_defs by (rule wait_queue_destroy_ok)

theorem bar_destructor: "reach (bar_code ag us) n (bar_start e p) s \<Longrightarrow> nobody_waits n s \<Longrightarrow> bar_destroy s"
  unfolding destroy_defs by (rule wait_queue_destroy_ok)

theorem ac_destructor:
  "reach (ac_code bytes wrappers calls) n (ac_start x) s \<Longrightarrow> nobody_waits n s \<Longrightarrow> ac_destroy s i"
  unfolding destroy_defs by (rule wait_queue_destroy_ok)

theorem ref_destructor:
  "reach (ref_code bytes policy calls) n (ref_start vals) s \<Longrightarrow> nobody_waits n s \<Longrightarrow> ref_destroy s i"
  unfolding destroy_defs by (rule wait_queue_destroy_ok)

theorem flag_destructor:
  "reach flag_code n (init_sys flag_init F_idle) s \<Longrightarrow> nobody_waits n s \<Longrightarrow> flag_destroy s"
  unfolding destroy_defs by (rule wait_queue_destroy_ok)

theorem cv_destructor: "reach (cv_code pred ds) n (cv_start d) s \<Longrightarrow> nobody_waits n s \<Longrightarrow> cv_destroy s"
  unfolding destroy_defs by (rule wait_queue_destroy_ok)

text \<open>When every task has returned from its last call and released what it held, all three
  assertions of \<open>~shared_mutex\<close> hold: no call leaves the transition value or the value of a
  handed-over lock behind.\<close>

theorem shared_mutex_destructor:
  assumes "reach smx_code n smx_start s" "int n \<le> smax 32"
    and idle: "\<nexists>t. t < n \<and> ctl s t \<noteq> At smx_pc.Idle"
  shows "shared_mutex_destroy s"
proof -
  have z: "total writer n (ctl s) = 0" "total transit n (ctl s) = 0" "total reader n (ctl s) = 0"
    using idle by (auto intro!: total_eq_0)
  have "nobody_waits n s" using idle by (auto simp: nobody_waits_def dest!: spec)
  note ex = smx.accounts_exact[OF assms(1,2)]
  have "smx_state (vars s) = 0"
    using ex[of smx_account.Exclusive] ex[of smx_account.Transitions] ex[of smx_account.Shared] z
      smx_range[OF assms(1,2)]
    by (auto simp: of_bool_def k_writer_locked_def k_transition_def split: if_splits)
  with wait_queue_destroy_ok[OF assms(1) \<open>nobody_waits n s\<close>] show ?thesis
    by (simp add: shared_mutex_destroy_def)
qed

text \<open>A reader and a writer have come and gone.\<close>

theorem shared_mutex_destructor_witness:
  "\<exists>s. reach smx_code 2 smx_start s \<and> ctl s 0 = At smx_pc.Idle \<and> ctl s 1 = At smx_pc.Idle
     \<and> shared_mutex_destroy s"
proof -
  have "\<exists>s. reach smx_code 2 smx_start s \<and> (ctl s 0 = At smx_pc.Idle \<and> ctl s 1 = At smx_pc.Idle)"
    by (rule run_witness[where sched = "(0,2) # replicate 10 (0,0) @ (1,1) # replicate 7 (1,0)"])
      (simp add: run_simps smx_init_def smx_try_lock_iff smx_try_shared_step_def smx_unlock_shared_step_def
        compare_exchange_weak_def k_transition_def k_writer_locked_def swrap_def numeral_eq_Suc)
  then obtain s where s: "reach smx_code 2 smx_start s" "ctl s 0 = At smx_pc.Idle" "ctl s 1 = At smx_pc.Idle"
    by blast
  have "shared_mutex_destroy s"
  proof (rule shared_mutex_destructor[OF s(1)])
    show "\<nexists>t. t < 2 \<and> ctl s t \<noteq> At smx_pc.Idle" using s(2,3) less_2_cases by fastforce
  qed (simp add: smax_values)
  with s show ?thesis by blast
qed

text \<open>The documented condition (nobody waits, the mutex is not locked) does not cover an \<open>unlock\<close> that is
  still under way: task 1 has locked and unlocked the mutex after the store in task 0's \<open>unlock\<close> and may
  destroy it, its assertion holds, and task 0 calls \<open>m_wait_queue.resume_one()\<close> next.\<close>

theorem mutex_destroyed_during_unlock:
  "\<exists>s. reach mutex_code 2 mutex_start s \<and> nobody_waits 2 s \<and> \<not> m_locked (vars s) \<and> mutex_destroy s
     \<and> ctl s 1 = At mutex_pc.Idle \<and> ctl s 0 = At mutex_pc.Unlock_resume"
  by (rule run_witness[where sched = "[(0,1),(0,0),(0,0),(0,0),(0,0),(1,1),(1,0),(1,0),(1,0),(1,0),(1,0)]"])
    (simp add: run_simps mutex_init_def mutex_try_lock_def compare_exchange_strong_def mutex_destroy_def
      wait_queue_destroy_def nobody_waits_def less_2_cases_iff)

text \<open>The same for a latch: task 1 has returned from \<open>try_wait\<close> with true, and \<open>count_down\<close> in task 0 calls
  \<open>m_waiters.resume_all()\<close> next.\<close>

theorem latch_destroyed_during_count_down:
  "\<exists>s. reach (latch_code [1]) 2 (latch_start 1) s \<and> nobody_waits 2 s \<and> latch_destroy s
     \<and> ctl s 1 = At latch_pc.Passed \<and> ctl s 0 = At (latch_pc.Cd_resume False)"
  by (rule run_witness[where sched = "[(0,2),(0,0),(0,0),(0,0),(1,0),(1,0)]"])
    (simp add: run_simps latch_init_def latch_try_wait_def latch_fetch_sub_def swrap_def
      latch_destroy_def wait_queue_destroy_def nobody_waits_def less_2_cases_iff)

end
