(* ===== verification/Lock_Refinement.thy ===== *)
theory Lock_Refinement
  imports Mutex Shared_Mutex
begin

text \<open>
  What a lock promises, without queues, atomics or suspension: a specification with a set of writers
  and a set of readers. Proved once for a contract that both mutexes meet: every step of
  the program is a step of the specification by the same task, or leaves it as it is.
\<close>

section \<open>The specification\<close>

record rw_lock =
  writing :: "tid set"
  reading :: "tid set"

text \<open>\<open>pass\<close>: the owner hands the lock to another task without releasing it.\<close>

inductive rw_step :: "rw_lock \<Rightarrow> tid \<Rightarrow> rw_lock \<Rightarrow> bool" where
  acquire: "rw_step \<lparr>writing = {}, reading = {}\<rparr> t \<lparr>writing = {t}, reading = {}\<rparr>"
| release: "rw_step \<lparr>writing = {t}, reading = {}\<rparr> t \<lparr>writing = {}, reading = {}\<rparr>"
| pass: "u \<noteq> t \<Longrightarrow> rw_step \<lparr>writing = {t}, reading = {}\<rparr> t \<lparr>writing = {u}, reading = {}\<rparr>"
| acquire_shared: "t \<notin> rs \<Longrightarrow> rw_step \<lparr>writing = {}, reading = rs\<rparr> t \<lparr>writing = {}, reading = insert t rs\<rparr>"
| release_shared: "t \<in> rs \<Longrightarrow> rw_step \<lparr>writing = {}, reading = rs\<rparr> t \<lparr>writing = {}, reading = rs - {t}\<rparr>"

text \<open>The lock that a state of the program stands for; \<open>w\<close> and \<open>r\<close> tell the owners.\<close>

definition owners :: "('pc control \<Rightarrow> int) \<Rightarrow> nat \<Rightarrow> (tid \<Rightarrow> 'pc control) \<Rightarrow> tid set" where
  "owners w n c = {t. t < n \<and> w (c t) \<noteq> 0}"

definition rw_of ::
  "('pc control \<Rightarrow> int) \<Rightarrow> ('pc control \<Rightarrow> int) \<Rightarrow> nat \<Rightarrow> ('v, 'q, 'pc) sys \<Rightarrow> rw_lock"
where
  "rw_of w r n s = \<lparr>writing = owners w n (ctl s), reading = owners r n (ctl s)\<rparr>"

lemma owners_upd:
  "t < n \<Longrightarrow> owners w n (c(t := x)) = (if w x \<noteq> 0 then insert t (owners w n c) else owners w n c - {t})"
  by (auto simp: owners_def)

lemma owners_keep: "t < n \<Longrightarrow> (w x = 0 \<longleftrightarrow> w (c t) = 0) \<Longrightarrow> owners w n (c(t := x)) = owners w n c"
  by (auto simp: owners_def)

lemma owners_2: "owners w 2 c = (if w (c 0) \<noteq> 0 then {0} else {}) \<union> (if w (c 1) \<noteq> 0 then {1} else {})"
proof (rule set_eqI)
  fix t
  show "t \<in> owners w 2 c \<longleftrightarrow> t \<in> (if w (c 0) \<noteq> 0 then {0} else {}) \<union> (if w (c 1) \<noteq> 0 then {1} else {})"
    by (cases "t = 0"; cases "t = 1") (auto simp: owners_def)
qed

section \<open>The contract\<close>

text \<open>
  How a move of one task may change what it owns: not at all, or acquire what is free, or release.
\<close>

definition change_ok :: "int \<Rightarrow> int \<Rightarrow> int \<Rightarrow> int \<Rightarrow> bool \<Rightarrow> bool \<Rightarrow> bool" where
  "change_ok w r w' r' free opn \<longleftrightarrow>
     (w' = 0 \<longleftrightarrow> w = 0) \<and> (r' = 0 \<longleftrightarrow> r = 0)
     \<or> w' \<noteq> 0 \<and> w = 0 \<and> r = 0 \<and> free
     \<or> w \<noteq> 0 \<and> w' = 0 \<and> r' = 0
     \<or> r' \<noteq> 0 \<and> r = 0 \<and> w = 0 \<and> opn
     \<or> r \<noteq> 0 \<and> r' = 0 \<and> w' = 0"

lemma change_ok_simps [simp]:
  "change_ok w r w r free opn" "change_ok 1 0 0 0 free opn" "change_ok 0 1 0 0 free opn"
  "change_ok 0 0 1 0 free opn \<longleftrightarrow> free" "change_ok 0 0 0 1 free opn \<longleftrightarrow> opn"
  by (simp_all add: change_ok_def)

text \<open>
  \<open>free v\<close> and \<open>opn v\<close>: the atomics say that nobody owns the lock, or nobody exclusively; \<open>K\<close>: what is
  known about a task.
\<close>

locale lock_table =
  fixes code :: "'pc \<Rightarrow> ('v, 'q, 'pc) instr"
    and v0 :: 'v
    and pc0 :: 'pc
    and small :: "nat \<Rightarrow> bool"
    and w r :: "'pc control \<Rightarrow> int"
    and free opn :: "'v \<Rightarrow> bool"
    and K :: "nat \<Rightarrow> 'v \<Rightarrow> 'pc control \<Rightarrow> bool"
  assumes known: "reach code n (init_sys v0 pc0) s \<Longrightarrow> small n \<Longrightarrow> t < n \<Longrightarrow> K n (vars s) (ctl s t)"
    and nobody: "reach code n (init_sys v0 pc0) s \<Longrightarrow> small n \<Longrightarrow> free (vars s) \<Longrightarrow> t < n
      \<Longrightarrow> w (ctl s t) = 0 \<and> r (ctl s t) = 0"
    and no_writer: "reach code n (init_sys v0 pc0) s \<Longrightarrow> small n \<Longrightarrow> opn (vars s) \<Longrightarrow> t < n \<Longrightarrow> w (ctl s t) = 0"
    and alone: "reach code n (init_sys v0 pc0) s \<Longrightarrow> small n \<Longrightarrow> t < n \<Longrightarrow> u < n \<Longrightarrow> t \<noteq> u
      \<Longrightarrow> w (ctl s t) \<noteq> 0 \<Longrightarrow> w (ctl s u) = 0 \<and> r (ctl s u) = 0"
    and one_mode: "w c = 0 \<or> r c = 0"
    and change: "small n \<Longrightarrow> moves pc (code pc) v c v' c' \<Longrightarrow> K n v c
      \<Longrightarrow> change_ok (w c) (r c) (w c') (r c') (free v) (opn v)"
    and hand: "code pc = Wait_if q pred k' \<Longrightarrow> continues code q k \<Longrightarrow> K n v (Resuming (x # ws) k) \<Longrightarrow>
      w (Suspended pc) = 0 \<and> r (Suspended pc) = 0 \<and> r (Resuming (x # ws) k) = 0
      \<and> w (Resuming ws k) = 0 \<and> r (Resuming ws k) = 0 \<and> r (At k') = 0
      \<and> (w (At k') = 0 \<longleftrightarrow> w (Resuming (x # ws) k) = 0)"
begin

lemma refines_move:
  assumes reach: "reach code n (init_sys v0 pc0) s" and small: "small n" and t: "t < n"
    and move: "moves pc (code pc) (vars s) (ctl s t) (vars s') c'" "ctl s' = (ctl s)(t := c')"
  shows "rw_of w r n s' = rw_of w r n s \<or> rw_step (rw_of w r n s) t (rw_of w r n s')"
proof -
  have sole: "owners w n (ctl s) = {t} \<and> owners r n (ctl s) = {}" if "w (ctl s t) \<noteq> 0"
    using alone[OF reach small t _ _ that] that t one_mode[of "ctl s t"] by (auto simp: owners_def)
  have unwritten: "owners w n (ctl s) = {}" if "r (ctl s t) \<noteq> 0"
    using alone[OF reach small _ t] that one_mode[of "ctl s t"] t by (fastforce simp: owners_def)
  from change[OF small move(1) known[OF reach small t]] show ?thesis unfolding change_ok_def
  proof (elim disjE conjE)
    assume "w c' = 0 \<longleftrightarrow> w (ctl s t) = 0" "r c' = 0 \<longleftrightarrow> r (ctl s t) = 0"
    then show ?thesis using t by (simp add: rw_of_def move(2) owners_keep)
  next
    assume a: "w c' \<noteq> 0" "free (vars s)"
    then have "owners w n (ctl s) = {}" "owners r n (ctl s) = {}"
      using nobody[OF reach small] by (auto simp: owners_def)
    then show ?thesis using a t one_mode[of c']
      by (auto simp: rw_of_def move(2) owners_upd intro: rw_step.acquire)
  next
    assume "w (ctl s t) \<noteq> 0" "w c' = 0" "r c' = 0"
    then show ?thesis using sole t
      by (auto simp: rw_of_def move(2) owners_upd intro: rw_step.release)
  next
    assume a: "r c' \<noteq> 0" "r (ctl s t) = 0" "opn (vars s)"
    then have "owners w n (ctl s) = {}" using no_writer[OF reach small] by (auto simp: owners_def)
    moreover have "t \<notin> owners r n (ctl s)" using a by (simp add: owners_def)
    ultimately show ?thesis using a t one_mode[of c']
      by (auto simp: rw_of_def move(2) owners_upd intro: rw_step.acquire_shared)
  next
    assume a: "r (ctl s t) \<noteq> 0" "r c' = 0" "w c' = 0"
    then have "t \<in> owners r n (ctl s)" using t by (simp add: owners_def)
    then show ?thesis using a t unwritten
      by (auto simp: rw_of_def move(2) owners_upd intro: rw_step.release_shared)
  qed
qed

lemma refines_lock:
  assumes reach: "reach code n (init_sys v0 pc0) s" and small: "small n" and step: "mstep code n s t s'"
  shows "rw_of w r n s' = rw_of w r n s \<or> rw_step (rw_of w r n s) t (rw_of w r n s')"
  using step reach_wf[OF reach]
proof (cases rule: mstep_moves)
  case (move pc c')
  with refines_move[OF reach small mstep_inside[OF step]] show ?thesis by blast
next
  case (handover y ws k q pc pred k')
  note t = mstep_inside[OF step]
  have h: "w (ctl s y) = 0" "r (ctl s y) = 0" "r (ctl s t) = 0" "w (Resuming ws k) = 0"
    "r (Resuming ws k) = 0" "r (At k') = 0" "w (At k') = 0 \<longleftrightarrow> w (ctl s t) = 0"
    using hand[OF handover(3,4), of n "vars s" y ws] known[OF reach small t] handover(1,2) by auto
  have rd: "owners r n (ctl s') = owners r n (ctl s)"
    using h t handover(5,6) by (simp add: handover(8) owners_keep)
  show ?thesis
  proof (cases "w (ctl s t) = 0")
    case True
    then have "owners w n (ctl s') = owners w n (ctl s)"
      using h t handover(5,6) by (simp add: handover(8) owners_keep)
    with rd show ?thesis by (simp add: rw_of_def)
  next
    case False
    have "owners w n (ctl s) = {t}" "owners r n (ctl s) = {}"
      using alone[OF reach small t _ _ False] False t one_mode[of "ctl s t"] by (auto simp: owners_def)
    moreover have "owners w n (ctl s') = {y}"
      using calculation(1) h False t handover(5,6) by (auto simp: handover(8) owners_upd)
    ultimately show ?thesis using rd handover(5) by (simp add: rw_of_def rw_step.pass)
  qed
qed

end

section \<open>Both mutexes\<close>

interpretation mutex_lock: lock_table mutex_code mutex_init mutex_pc.Idle "\<lambda>_. True" owner "\<lambda>_. 0"
  "\<lambda>m. \<not> m_locked m" "\<lambda>_. False" "fits mutex_weight mutex_balance"
proof unfold_locales
  show "fits mutex_weight mutex_balance n (vars s) (ctl s t)"
    if "reach mutex_code n mutex_start s" "t < n" for n s t
    using that by (rule mtx.reach_fits[OF _ TrueI])
  show "owner (ctl s t) = 0 \<and> (0::int) = 0"
    if "reach mutex_code n mutex_start s" "\<not> m_locked (vars s)" "t < n" for n s t
    using mtx.reach_fits[OF that(1) TrueI that(3)] that(2) owner_nonneg[of "ctl s t"]
    by (auto simp: fits_def mutex_accounts)
  show "owner (ctl s u) = 0 \<and> (0::int) = 0"
    if "reach mutex_code n mutex_start s" "t < n" "u < n" "t \<noteq> u" "owner (ctl s t) \<noteq> 0" for n s t u
    using mtx.reach_pair[OF that(1) TrueI that(2-4), of Owners] that(5) owner_nonneg[of "ctl s t"]
      owner_nonneg[of "ctl s u"] by (auto simp: of_bool_def split: if_splits)
  show "change_ok (owner c) 0 (owner c') 0 (\<not> m_locked v) False"
    if "moves pc (mutex_code pc) v c v' c'" for pc v c v' c'
    using that by (cases pc) (auto simp: mutex_try_lock_iff split: if_splits)
qed (auto simp: mutex_continues elim!: mutex_code_cases)

lemma smx_fits:
  assumes "fits smx_weight smx_balance n v c"
  shows "writer c \<le> of_bool (smx_state v = k_writer_locked)" "transit c \<le> of_bool (smx_state v = k_transition)"
    "reader c \<le> max 0 (smx_state v)" "stale c \<le> 0"
  using assms by (simp_all add: fits_def smx_accounts)

text \<open>A reader whose \<open>unlock_shared\<close> found no other reader stops being one when it sets the transition value,
  and takes the lock exclusively when it goes on to look for a writer.\<close>

interpretation smx_lock: lock_table smx_code smx_init smx_pc.Idle "\<lambda>n. int n \<le> smax 32" writer reader
  "\<lambda>m. smx_state m = 0 \<or> smx_state m = k_transition" "\<lambda>m. 0 \<le> smx_state m" "fits smx_weight smx_balance"
proof unfold_locales
  note nn = smx_weights_nonneg
  show "fits smx_weight smx_balance n (vars s) (ctl s t)"
    if "reach smx_code n smx_start s" "int n \<le> smax 32" "t < n" for n s t
    using that by (rule smx.reach_fits)
  show "writer (ctl s t) = 0 \<and> reader (ctl s t) = 0"
    if "reach smx_code n smx_start s" "int n \<le> smax 32"
      "smx_state (vars s) = 0 \<or> smx_state (vars s) = k_transition" "t < n" for n s t
    using smx.reach_fits[OF that(1,2,4)] that(3) nn(1,3)[of "ctl s t"]
    by (auto simp: fits_def smx_accounts k_transition_def k_writer_locked_def)
  show "writer (ctl s t) = 0"
    if "reach smx_code n smx_start s" "int n \<le> smax 32" "0 \<le> smx_state (vars s)" "t < n" for n s t
    using smx.reach_fits[OF that(1,2,4)] that(3) nn(1)[of "ctl s t"]
    by (auto simp: fits_def smx_accounts k_writer_locked_def)
  show "writer (ctl s u) = 0 \<and> reader (ctl s u) = 0"
    if "reach smx_code n smx_start s" "int n \<le> smax 32" "t < n" "u < n" "t \<noteq> u" "writer (ctl s t) \<noteq> 0"
    for n s t u
  proof -
    note pos = nn(1)[of "ctl s t"] nn(1)[of "ctl s u"] nn(3)[of "ctl s u"]
    from smx.reach_pair[OF that(1-5), of Exclusive] that(6) pos
    have "writer (ctl s u) = 0" "smx_state (vars s) = k_writer_locked"
      by (auto simp: of_bool_def split: if_splits)
    moreover have "reader (ctl s u) \<le> max 0 (smx_state (vars s))"
      using smx.reach_fits[OF that(1,2,4)] by (auto simp: fits_def smx_accounts)
    ultimately show ?thesis using pos by (simp add: k_writer_locked_def)
  qed
  show "writer c = 0 \<or> reader c = 0" for c
    by (cases c rule: reader.cases) simp_all
  show "change_ok (writer c) (reader c) (writer c') (reader c')
      (smx_state v = 0 \<or> smx_state v = k_transition) (0 \<le> smx_state v)"
    if "moves pc (smx_code pc) v c v' c'" "fits smx_weight smx_balance n v c" for n pc v c v' c'
  proof (cases "pc = Us_store")
    case True
    with that(1) smx_fits(2)[OF that(2)] show ?thesis by (auto simp: of_bool_def split: if_splits)
  next
    case False
    with that(1) show ?thesis
      by (cases pc) (auto simp: smx_atomic split: if_splits smx_caller.splits)
  qed
  show "writer (Suspended pc) = 0 \<and> reader (Suspended pc) = 0 \<and> reader (Resuming (x # ws) k) = 0
      \<and> writer (Resuming ws k) = 0 \<and> reader (Resuming ws k) = 0 \<and> reader (At k') = 0
      \<and> (writer (At k') = 0 \<longleftrightarrow> writer (Resuming (x # ws) k) = 0)"
    if "smx_code pc = Wait_if q pred k'" "continues smx_code q k"
      "fits smx_weight smx_balance n v (Resuming (x # ws) k)" for pc q pred k' k n v x ws
  proof -
    have "writer (Resuming (x # ws) k) \<le> 1"
      using smx_fits(1)[OF that(3)] by (simp add: of_bool_def split: if_splits)
    with that(1,2) show ?thesis by (auto simp: smx_continues elim!: smx_code_cases)
  qed
qed

section \<open>Properties\<close>

text \<open>\<open>mutex\<close>: a step acquires the free lock, releases the caller's lock, or does nothing.\<close>

theorem mutex_refines_lock:
  assumes "reach mutex_code n mutex_start s" "mstep mutex_code n s t s'"
  shows "rw_of owner (\<lambda>_. 0) n s' = rw_of owner (\<lambda>_. 0) n s
    \<or> rw_step (rw_of owner (\<lambda>_. 0) n s) t (rw_of owner (\<lambda>_. 0) n s')"
  by (rule mutex_lock.refines_lock[OF assms(1) TrueI assms(2)])

text \<open>C7. \<open>shared_mutex\<close> implements the readers-writer lock: starting from the lock nobody owns, every step of
  any task is the acquisition of a free lock, a release by an owner, a handover by the owner, an
  acquisition for reading while nobody writes, a release by a reader, or invisible.\<close>

theorem smx_refines_lock:
  assumes "reach smx_code n smx_start s" "int n \<le> smax 32" "mstep smx_code n s t s'"
  shows "rw_of writer reader n smx_start = \<lparr>writing = {}, reading = {}\<rparr>
    \<and> (rw_of writer reader n s' = rw_of writer reader n s
       \<or> rw_step (rw_of writer reader n s) t (rw_of writer reader n s'))"
  using smx_lock.refines_lock[OF assms] by (simp add: rw_of_def owners_def init_sys_def)

text \<open>Task 0 hands the lock to task 1, which sleeps in \<open>lock\<close>.\<close>

theorem smx_refines_lock_witness:
  "\<exists>s s'. reach smx_code 2 smx_start s \<and> mstep smx_code 2 s 0 s'
     \<and> rw_of writer reader 2 s = \<lparr>writing = {0}, reading = {}\<rparr>
     \<and> rw_of writer reader 2 s' = \<lparr>writing = {1}, reading = {}\<rparr>
     \<and> rw_step (rw_of writer reader 2 s) 0 (rw_of writer reader 2 s')"
proof -
  have "\<exists>s. reach smx_code 2 smx_start s
      \<and> (ctl s 0 = Resuming [1] Handed_off \<and> ctl s 1 = Suspended Lock_wait)"
    by (rule run_witness[where sched = "[(0,1),(0,0),(1,1),(1,0),(1,0),(1,0),(1,0),(1,0),(0,0),(0,0),(0,0)]"])
      (simp add: run_simps smx_init_def smx_atomic)
  then obtain s where s: "reach smx_code 2 smx_start s" "ctl s 0 = Resuming [1] Handed_off"
    "ctl s 1 = Suspended Lock_wait" by blast
  let ?s = "s\<lparr>ctl := (ctl s)(1 := At Lock_assert, 0 := Resuming [] Handed_off)\<rparr>"
  have m: "mstep smx_code 2 s 0 ?s" by (rule resume_next[OF _ s(2,3)]) simp_all
  have a: "rw_of writer reader 2 s = \<lparr>writing = {0}, reading = {}\<rparr>"
    "rw_of writer reader 2 ?s = \<lparr>writing = {1}, reading = {}\<rparr>"
    using s(2,3) by (simp_all add: rw_of_def owners_2)
  from smx_refines_lock[OF s(1) _ m] a have "rw_step (rw_of writer reader 2 s) 0 (rw_of writer reader 2 ?s)"
    by (simp add: smax_values)
  with s(1) m a show ?thesis by blast
qed

end
