(* ===== verification/Cell_Refinement.thy ===== *)
theory Cell_Refinement
  imports Shared_State
begin

text \<open>
  An abstract specification of the shared state of futures: a cell that is written once. A task offers an
  outcome, which an unset cell takes at once or reserves for the task that offered it; a reserved cell is
  filled by its owner with what it offered; every later offer is refused; reading gives the outcome.
  Every step of the concurrent code is a step of this cell by the same task.
\<close>

section \<open>The abstract cell\<close>

datatype 'r cell = Unset | Claimed tid 'r | Fixed 'r

datatype 'r cell_event = Offer 'r | Store | Refuse | Observe 'r | Internal

inductive cell_step :: "'r cell \<Rightarrow> tid \<Rightarrow> 'r cell_event \<Rightarrow> 'r cell \<Rightarrow> bool" where
  take: "cell_step Unset t (Offer r) (Fixed r)"
| reserve: "cell_step Unset t (Offer r) (Claimed t r)"
| store: "cell_step (Claimed t r) t Store (Fixed r)"
| refuse: "c \<noteq> Unset \<Longrightarrow> cell_step c t Refuse c"
| observe: "cell_step (Fixed r) t (Observe r) (Fixed r)"
| internal: "cell_step c t Internal c"

code_pred cell_step .

inductive_simps cell_step_simps [simp]:
  "cell_step c t (Offer r) c'" "cell_step c t Store c'" "cell_step c t Refuse c'"
  "cell_step c t (Observe r) c'" "cell_step c t Internal c'"

section \<open>The abstraction\<close>

text \<open>What \<open>set_value v\<close> stores: the value, or the exception of its constructor; nothing for \<open>void\<close>.\<close>

definition offered :: "bool \<Rightarrow> ('a \<Rightarrow> 'e option) \<Rightarrow> 'a \<Rightarrow> ('a, 'e) outcome" where
  "offered is_void throws v =
     (if is_void then Result None else case throws v of Some e \<Rightarrow> Rethrown (Some e) | None \<Rightarrow> Result (Some v))"

text \<open>What the setter in transition is about to publish.\<close>

fun intends ::
  "bool \<Rightarrow> ('a \<Rightarrow> 'e option) \<Rightarrow> ('a, 'e) shared_state \<Rightarrow> ('a, 'e) ss_pc control \<Rightarrow> ('a, 'e) outcome"
where
  "intends is_void throws m (At (Sv_emplace v)) = offered is_void throws v"
| "intends is_void throws m (At (Sv_catch e)) = Rethrown (Some e)"
| "intends is_void throws m (At (Se_assign e)) = Rethrown (Some e)"
| "intends is_void throws m (At Se_store) = Rethrown (st_exception m)"
| "intends is_void throws m _ = Result (st_value m)"

definition setter_of :: "nat \<Rightarrow> (tid \<Rightarrow> ('a, 'e) ss_pc control) \<Rightarrow> tid" where
  "setter_of n c = hd (filter (\<lambda>t. setter (c t) = 1) [0..<n])"

definition cell_at ::
  "bool \<Rightarrow> ('a \<Rightarrow> 'e option) \<Rightarrow> ('a, 'e) shared_state \<Rightarrow> tid \<Rightarrow> ('a, 'e) ss_pc control
    \<Rightarrow> ('a, 'e) outcome cell"
where
  "cell_at is_void throws m t c =
     (if st_status m = Empty then Unset
      else if st_status m = Transition then Claimed t (intends is_void throws m c)
      else Fixed (outcome_of m))"

definition cell_of ::
  "bool \<Rightarrow> ('a \<Rightarrow> 'e option) \<Rightarrow> nat \<Rightarrow> (('a, 'e) shared_state, unit, ('a, 'e) ss_pc) sys \<Rightarrow> ('a, 'e) outcome cell"
where
  "cell_of is_void throws n s =
     (let t = setter_of n (ctl s) in cell_at is_void throws (vars s) t (ctl s t))"

text \<open>What a step of a task does, from where the task is before and after it.\<close>

fun observed :: "('a, 'e) ss_pc control \<Rightarrow> ('a, 'e) outcome cell_event" where
  "observed (At (Got r)) = Observe r"
| "observed _ = Internal"

fun ss_event ::
  "bool \<Rightarrow> ('a \<Rightarrow> 'e option) \<Rightarrow> ('a, 'e) ss_pc control \<Rightarrow> ('a, 'e) ss_pc control \<Rightarrow> ('a, 'e) outcome cell_event"
where
  "ss_event is_void throws (At (Set_value v)) c' =
     (if c' = At Set_failed then Refuse else Offer (offered is_void throws v))"
| "ss_event is_void throws (At (Set_exception e)) c' =
     (if c' = At Set_failed then Refuse else Offer (Rethrown (Some e)))"
| "ss_event is_void throws (At Break) c' = (if c' = At ss_pc.Idle then Refuse else Offer Broken_promise)"
| "ss_event is_void throws (At Sv_store) c' = Store"
| "ss_event is_void throws (At Se_store) c' = Store"
| "ss_event is_void throws c c' = observed c'"

section \<open>The proof\<close>

text \<open>For \<open>void\<close> no value is ever stored.\<close>

interpretation ss_void: assertions "ss_code vo th vs es" shared_state_init ss_pc.Idle "\<lambda>_ _ _. True"
  "\<lambda>_ _ _ _. True" "\<lambda>m c. vo \<longrightarrow> st_value m = None \<and> (\<forall>v. c \<noteq> At (Sv_emplace v))" for vo th vs es
proof unfold_locales
  show "vo \<longrightarrow> st_value v' = None \<and> (\<forall>x. c' \<noteq> At (Sv_emplace x))"
    if "moves pc (ss_code vo th vs es pc) v c v' c'" "vo \<longrightarrow> st_value v = None \<and> (\<forall>x. c \<noteq> At (Sv_emplace x))"
    for pc v c v' c'
    using that
    by (cases pc) (auto simp: claim_iff obtain_future_iff emplace_def Let_def split: if_splits option.splits)
  show "vo \<longrightarrow> st_value v' = None \<and> (\<forall>x. d \<noteq> At (Sv_emplace x))"
    if "moves pc (ss_code vo th vs es pc) v c v' c'" "vo \<longrightarrow> st_value v = None \<and> (\<forall>x. c \<noteq> At (Sv_emplace x))"
      "vo \<longrightarrow> st_value v = None \<and> (\<forall>x. d \<noteq> At (Sv_emplace x))" for pc v c v' c' d
    using that
    by (cases pc) (auto simp: claim_iff obtain_future_iff emplace_def Let_def split: if_splits option.splits)
qed (auto simp: shared_state_init_def dest: ss_wait_if)

lemma setter_of_eq:
  assumes "reach (ss_code vo th vs es) n ss_start s" "t < n" "setter (ctl s t) = 1"
  shows "setter_of n (ctl s) = t"
proof -
  have "t \<in> set (filter (\<lambda>u. setter (ctl s u) = 1) [0..<n])" using assms(2,3) by simp
  then have "setter_of n (ctl s) \<in> set (filter (\<lambda>u. setter (ctl s u) = 1) [0..<n])"
    unfolding setter_of_def by (intro hd_in_set) (metis empty_iff empty_set)
  then show ?thesis using ss_setter_pair[OF assms(1,2), of "setter_of n (ctl s)"] assms(3) by auto
qed

text \<open>A step of the setter, and a step of any other task.\<close>

lemma cell_of_setter:
  assumes "reach (ss_code vo th vs es) n ss_start s" "t < n" "setter (ctl s t) = 1"
  shows "cell_of vo th n s = cell_at vo th (vars s) t (ctl s t)"
  by (simp add: cell_of_def setter_of_eq[OF assms])

lemma setter_binary: "setter c = 0 \<or> setter c = 1"
  by (cases c rule: setter.cases) simp_all

lemma setter_exists:
  assumes "reach (ss_code vo th vs es) n ss_start s" "st_status (vars s) = Transition"
  obtains u where "u < n" "setter (ctl s u) = 1"
proof -
  have "total setter n (ctl s) = 1" using ss.accounts_exact[OF assms(1) TrueI, of Setters] assms(2) by simp
  then obtain u where "u < n" "setter (ctl s u) \<noteq> 0" using total_eq_0[of n setter "ctl s"] by fastforce
  with that setter_binary show thesis by blast
qed

text \<open>While another task is the setter, the cell stays as it is.\<close>

lemma cell_kept:
  assumes r: "reach (ss_code vo th vs es) n ss_start s" and st: "mstep (ss_code vo th vs es) n s t s'"
    and u: "u < n" "u \<noteq> t" "setter (ctl s u) = 1"
  shows "cell_of vo th n s' = cell_of vo th n s"
proof -
  have "ctl s' u = ctl s u \<and> st_value (vars s') = st_value (vars s) \<and> st_exception (vars s') = st_exception (vars s)"
    using st reach_wf[OF r]
  proof (cases rule: mstep_moves)
    case (move pc c')
    with ss_move_mono(3)[OF move(1) ss_known_reach[OF r mstep_inside[OF st]]]
      ss_setter_pair[OF r mstep_inside[OF st] u(1)] u show ?thesis by auto
  next
    case (handover w ws k q pc pred k')
    with u show ?thesis by auto
  qed
  then show ?thesis
    using cell_of_setter[OF r u(1,3)] cell_of_setter[OF reach_step[OF r st] u(1)] u(3)
      ss_known_reach[OF r u(1)] ss_known_reach[OF reach_step[OF r st] u(1)]
    by (cases "ctl s u" rule: setter.cases) (auto simp: cell_at_def ss_known_def of_bool_def split: if_splits)
qed


text \<open>When nobody else is the setter, the cell is what the moving task makes of it.\<close>

lemma cell_of_self:
  assumes "reach (ss_code vo th vs es) n ss_start s"
    and "\<And>u. u < n \<Longrightarrow> u \<noteq> t \<Longrightarrow> setter (ctl s u) = 0"
  shows "cell_of vo th n s = cell_at vo th (vars s) t (ctl s t)"
proof (cases "st_status (vars s) = Transition")
  case True
  then obtain u where "u < n" "setter (ctl s u) = 1" by (rule setter_exists[OF assms(1)])
  with assms(2)[of u] cell_of_setter[OF assms(1), of t] show ?thesis by (cases "u = t") auto
qed (simp add: cell_of_def cell_at_def Let_def)

lemma ss_cell_move:
  assumes "moves pc (ss_code vo th vs es pc) v c v' c'" "ss_known n v c" "ss_local v c"
    and "vo \<longrightarrow> st_value v = None \<and> (\<forall>x. c \<noteq> At (Sv_emplace x))" "st_status v = Transition \<Longrightarrow> setter c = 1"
  shows "cell_step (cell_at vo th v t c) t (ss_event vo th c c') (cell_at vo th v' t c')"
  using assms
  by (cases pc) (auto simp: claim_iff obtain_future_iff emplace_def Let_def cell_at_def offered_def outcome_of_def
      ss_known_def state_ready_def ready_status_def split: if_splits option.splits)


lemma ss_known_setter:
  assumes "reach (ss_code vo th vs es) n ss_start s" "u < n" "setter (ctl s u) = 1"
  shows "st_status (vars s) = Transition"
  using ss_known_reach[OF assms(1,2)] assms(3) by (simp add: ss_known_def of_bool_def split: if_splits)

lemma mstep_setter_others:
  assumes "mstep (ss_code vo th vs es) n s t s'" "wf (ss_code vo th vs es) n s" "u \<noteq> t"
  shows "setter (ctl s' u) = setter (ctl s u)"
  using assms(1,2)
proof (cases rule: mstep_moves)
  case (handover w ws k q pc pred k')
  with ss_wait_if[OF handover(3)] assms(3) show ?thesis by simp
qed (use assms(3) in simp)

lemma ss_others_event:
  assumes r: "reach (ss_code vo th vs es) n ss_start s" and st: "mstep (ss_code vo th vs es) n s t s'"
    and u: "u < n" "u \<noteq> t" "setter (ctl s u) = 1"
  shows "ss_event vo th (ctl s t) (ctl s' t) \<in> {Refuse, Internal}"
  using st reach_wf[OF r]
proof (cases rule: mstep_moves)
  case (move pc c')
  have "setter (ctl s t) = 0" using ss_setter_pair[OF r mstep_inside[OF st] u(1)] u by auto
  with move ss_known_setter[OF r u(1,3)] ss_as.assertion_holds[OF r mstep_inside[OF st]] show ?thesis
    by (cases pc) (auto simp: claim_iff obtain_future_iff Let_def state_ready_def ready_status_def split: if_splits)
qed auto

section \<open>Properties\<close>

text \<open>C30. The shared state implements a cell that is written once: every step of any task offers its outcome
  to the unset cell, fills the cell it has reserved with what it offered, is refused because
  the cell is not unset, reads exactly the outcome in the cell, or leaves the cell as it is.\<close>

theorem ss_refines_cell:
  assumes r: "reach (ss_code is_void throws vs es) n ss_start s"
    and st: "mstep (ss_code is_void throws vs es) n s t s'"
  shows "cell_step (cell_of is_void throws n s) t (ss_event is_void throws (ctl s t) (ctl s' t))
    (cell_of is_void throws n s')"
proof (cases "\<exists>u<n. u \<noteq> t \<and> setter (ctl s u) = 1")
  case True
  then obtain u where u: "u < n" "u \<noteq> t" "setter (ctl s u) = 1" by blast
  from ss_others_event[OF r st u] show ?thesis
    by (auto simp: cell_kept[OF r st u] cell_of_setter[OF r u(1,3)] cell_at_def ss_known_setter[OF r u(1,3)])
next
  case False
  have others: "setter (ctl s' u) = 0 \<and> setter (ctl s u) = 0" if "u < n" "u \<noteq> t" for u
    using False that setter_binary mstep_setter_others[OF st reach_wf[OF r]] by metis
  note t = mstep_inside[OF st]
  have "cell_of is_void throws n s = cell_at is_void throws (vars s) t (ctl s t)"
    "cell_of is_void throws n s' = cell_at is_void throws (vars s') t (ctl s' t)"
    using cell_of_self[OF r] cell_of_self[OF reach_step[OF r st]] others by blast+
  moreover from st reach_wf[OF r]
  have "cell_step (cell_at is_void throws (vars s) t (ctl s t)) t (ss_event is_void throws (ctl s t) (ctl s' t))
      (cell_at is_void throws (vars s') t (ctl s' t))"
  proof (cases rule: mstep_moves)
    case (move pc c')
    have "setter (ctl s t) = 1" if "st_status (vars s) = Transition"
      using setter_exists[OF r that] others by (metis zero_neq_one)
    with ss_cell_move[OF move(1) ss_known_reach[OF r t]] move(2) ss_as.assertion_holds[OF r t]
      ss_void.assertion_holds[OF r t] show ?thesis by simp
  next
    case (handover w ws k q pc pred k')
    then show ?thesis by (simp add: cell_at_def)
  qed
  ultimately show ?thesis by simp
qed

text \<open>Task 0 has reserved the cell for 7 and stored the value; its next step publishes it.\<close>

theorem ss_refines_cell_witness:
  "\<exists>s s'. reach (ss_code False (\<lambda>_. None) [7::nat] [()]) 2 ss_start s
     \<and> mstep (ss_code False (\<lambda>_. None) [7] [()]) 2 s 0 s'
     \<and> cell_of False (\<lambda>_. None) 2 s = Claimed 0 (Result (Some 7))
     \<and> cell_step (cell_of False (\<lambda>_. None) 2 s) 0 Store (cell_of False (\<lambda>_. None) 2 s')
     \<and> cell_of False (\<lambda>_. None) 2 s' = Fixed (Result (Some 7))"
proof -
  let ?c = "ss_code False (\<lambda>_. None) [7::nat] [()]" and ?cell = "cell_of False (\<lambda>_. None) 2"
  have "\<exists>s. reach ?c 2 ss_start s \<and> (ctl s 0 = At Sv_store \<and> ?cell s = Claimed 0 (Result (Some 7))
      \<and> (\<exists>s'. exec_step ?c 2 0 0 s = Some s'))"
    by (rule run_witness[where sched = "[(0,4),(0,0),(0,0)]"])
      (simp add: run_simps shared_state_init_def claim_iff emplace_def cell_of_def setter_of_def cell_at_def
        upt_rec Let_def)
  then obtain s s' where s: "reach ?c 2 ss_start s" "ctl s 0 = At Sv_store"
    "?cell s = Claimed 0 (Result (Some 7))" and e: "exec_step ?c 2 0 0 s = Some s'" by blast
  from exec_step_sound[OF e] have m: "mstep ?c 2 s 0 s'" .
  from ss_refines_cell[OF s(1) m] s(2) have c: "cell_step (?cell s) 0 Store (?cell s')" by simp
  with s(3) have "?cell s' = Fixed (Result (Some 7))" by simp
  with s m c show ?thesis by blast
qed

end
