(* ===== verification/Termination.thy ===== *)
theory Termination
  imports Shared_Mutex Semaphore
begin

text \<open>
  The loops of \<open>shared_mutex\<close> and \<open>counting_semaphore\<close> end. \<open>try_lock_shared\<close>, \<open>unlock_shared\<close> and
  \<open>try_acquire\<close> retry a weak compare-exchange; \<open>lock_shared\<close> and \<open>acquire\<close> wait and retry. Here one task
  runs while the others stand still. A spurious failure of the exchange leaves the task where it is; every
  other step lowers a rank, so that the call returns or suspends after a number of
  steps that is bounded by the number of waiters it has to resume.
\<close>

section \<open>A task that runs alone\<close>

definition at_rest :: "('pc \<Rightarrow> bool) \<Rightarrow> 'pc control \<Rightarrow> bool" where
  "at_rest rest c \<longleftrightarrow> (\<exists>pc. c = At pc \<and> rest pc) \<or> (\<exists>pc. c = Suspended pc)"

text \<open>A step of task \<open>t\<close> inside a call that is not a spurious failure.\<close>

definition alone ::
  "('pc \<Rightarrow> ('v, 'q, 'pc) instr) \<Rightarrow> nat \<Rightarrow> ('pc \<Rightarrow> bool) \<Rightarrow> tid
    \<Rightarrow> ('v, 'q, 'pc) sys \<Rightarrow> ('v, 'q, 'pc) sys \<Rightarrow> bool"
where
  "alone code n rest t s s' \<longleftrightarrow>
     mstep code n s t s' \<and> ctl s' t \<noteq> ctl s t \<and> \<not> at_rest rest (ctl s t)"

text \<open>No other task holds a spin mutex.\<close>

definition undisturbed :: "('v, 'q, 'pc) sys \<Rightarrow> tid \<Rightarrow> bool" where
  "undisturbed s t \<longleftrightarrow> (\<forall>q u. m_waiters_mutex s q = Some u \<longrightarrow> u = t)"

lemma undisturbed_step: "mstep code n s t s' \<Longrightarrow> undisturbed s t \<Longrightarrow> undisturbed s' t"
  by (cases rule: mstep.cases, assumption) (auto simp: undisturbed_def)

text \<open>
  The client gives a rank of the atomics, the lengths of the queues and the place of the task. No
  instruction may be its own successor except by a spurious failure.
\<close>

locale bounded_calls =
  fixes code :: "'pc \<Rightarrow> ('v, 'q, 'pc) instr"
    and v0 :: 'v
    and pc0 :: 'pc
    and small :: "nat \<Rightarrow> bool"
    and rest :: "'pc \<Rightarrow> bool"
    and rank :: "'v \<Rightarrow> ('q \<Rightarrow> tid list) \<Rightarrow> 'pc control \<Rightarrow> nat"
  assumes decreases: "reach code n (init_sys v0 pc0) s \<Longrightarrow> small n \<Longrightarrow> mstep code n s t s'
      \<Longrightarrow> ctl s' t \<noteq> ctl s t \<Longrightarrow> \<not> at_rest rest (ctl s t)
      \<Longrightarrow> rank (vars s') (m_waiters s') (ctl s' t) < rank (vars s) (m_waiters s) (ctl s t)"
    and atomic_advances: "code pc = Atomic f \<Longrightarrow> \<not> rest pc \<Longrightarrow> \<exists>v' pc'. (v', pc') \<in> set (f v) \<and> pc' \<noteq> pc"
    and wait_advances: "code pc = Wait_if q pred k \<Longrightarrow> k \<noteq> pc"
    and one_advances: "code pc = Resume_one q k' \<Longrightarrow> k' b \<noteq> pc"
    and n_advances: "code pc = Resume_n q m k \<Longrightarrow> k \<noteq> pc"
    and all_advances: "code pc = Resume_all q k \<Longrightarrow> k \<noteq> pc"
begin

lemma alone_step_exists:
  assumes r: "reach code n (init_sys v0 pc0) s" and t: "t < n" and u: "undisturbed s t"
    and inside: "\<not> at_rest rest (ctl s t)"
  shows "\<exists>s'. alone code n rest t s s'"
proof (cases "\<exists>pc f. ctl s t = At pc \<and> code pc = Atomic f")
  case True
  then obtain pc f where c: "ctl s t = At pc" "code pc = Atomic f" by blast
  with inside have "\<not> rest pc" by (auto simp: at_rest_def)
  from atomic_advances[OF c(2) this] obtain v' pc' where o: "(v', pc') \<in> set (f (vars s))" "pc' \<noteq> pc" by blast
  let ?s = "s\<lparr>vars := v', ctl := (ctl s)(t := At pc')\<rparr>"
  have "mstep code n s t ?s" using mstep.atomic[of t n s pc code f v' pc'] t c o(1) by simp
  with o(2) c(1) inside have "alone code n rest t s ?s" by (simp add: alone_def)
  then show ?thesis ..
next
  case False
  have wf: "wf code n s" by (rule reach_wf[OF r])
  obtain w where w: "enabled code n s w" "w = t \<or> locks code (ctl s w) \<noteq> None"
    using progress[OF wf t] False inside by (auto simp: at_rest_def)
  have "w = t"
    using w(2) u wf by (auto simp: undisturbed_def wf_def dest: mutexD)
  with w obtain s' where m: "mstep code n s t s'" by (auto simp: enabled_def)
  then have "ctl s' t \<noteq> ctl s t"
    using False
    by (cases rule: mstep.cases)
      (auto dest: wait_advances one_advances n_advances all_advances)
  with m inside show ?thesis by (auto simp: alone_def)
qed

lemma alone_decreases:
  assumes "reach code n (init_sys v0 pc0) s" "small n" "alone code n rest t s s'"
  shows "rank (vars s') (m_waiters s') (ctl s' t) < rank (vars s) (m_waiters s) (ctl s t)"
  using decreases[OF assms(1,2)] assms(3) by (auto simp: alone_def)

lemma alone_reach:
  assumes "reach code n (init_sys v0 pc0) s" "alone code n rest t s s'"
  shows "reach code n (init_sys v0 pc0) s'"
  using assms by (auto simp: alone_def intro: reach_step)

text \<open>However the task runs, it makes at most \<open>rank\<close> steps inside the call.\<close>

lemma alone_bounded:
  assumes "(alone code n rest t ^^ j) s s'" "reach code n (init_sys v0 pc0) s" "small n"
  shows "j + rank (vars s') (m_waiters s') (ctl s' t) \<le> rank (vars s) (m_waiters s) (ctl s t)"
  using assms(1,2)
proof (induction j arbitrary: s)
  case (Suc j)
  then obtain s1 where s1: "alone code n rest t s s1" "(alone code n rest t ^^ j) s1 s'"
    by (metis relpowp_Suc_E2)
  from Suc.IH[OF s1(2) alone_reach[OF Suc.prems(2) s1(1)]] alone_decreases[OF Suc.prems(2) assms(3) s1(1)]
  show ?case by simp
qed simp

text \<open>And it gets there: it returns or suspends.\<close>

lemma alone_returns:
  assumes "reach code n (init_sys v0 pc0) s" "small n" "t < n" "undisturbed s t"
  shows "\<exists>j s'. (alone code n rest t ^^ j) s s' \<and> at_rest rest (ctl s' t)"
  using assms(1,4)
proof (induction "rank (vars s) (m_waiters s) (ctl s t)" arbitrary: s rule: less_induct)
  case less
  show ?case
  proof (cases "at_rest rest (ctl s t)")
    case True
    then show ?thesis by (intro exI[of _ 0] exI[of _ s]) simp
  next
    case False
    then obtain s1 where s1: "alone code n rest t s s1"
      using alone_step_exists[OF less.prems(1) assms(3) less.prems(2)] by blast
    then have "undisturbed s1 t" using less.prems(2) undisturbed_step by (auto simp: alone_def)
    with less.hyps[OF alone_decreases[OF less.prems(1) assms(2) s1] alone_reach[OF less.prems(1) s1]]
    obtain j s' where "(alone code n rest t ^^ j) s1 s'" "at_rest rest (ctl s' t)" by blast
    with s1 show ?thesis by (meson relpowp_Suc_I2)
  qed
qed

lemma alone_steps:
  assumes "reach code n (init_sys v0 pc0) s" "small n" "(alone code n rest t ^^ j) s s'"
  shows "j \<le> rank (vars s) (m_waiters s) (ctl s t)"
  using alone_bounded[OF assms(3,1,2)] by simp

end

section \<open>\<open>shared_mutex\<close>\<close>

text \<open>
  \<open>x\<close> is the value of the state, \<open>l\<close> the number of sleeping readers. The ranks of the shared loop depend
  on whether the lock is open to readers.
\<close>

fun smx_pc_rank :: "int \<Rightarrow> nat \<Rightarrow> smx_pc \<Rightarrow> nat" where
  "smx_pc_rank x l Try_lock = 1"
| "smx_pc_rank x l Lock = 6"
| "smx_pc_rank x l Lock_wait = 5"
| "smx_pc_rank x l Lock_assert = 1"
| "smx_pc_rank x l (Shared_load c) = (if 0 \<le> x then 2 else 6)"
| "smx_pc_rank x l (Shared_cas c st) =
     (if 0 \<le> x then (if st = x then 1 else 4) else (if st < 0 then 5 else 6))"
| "smx_pc_rank x l Shared_wait = (if 0 \<le> x then 3 else 4)"
| "smx_pc_rank x l Unlock = l + 5"
| "smx_pc_rank x l Unlock_handoff = l + 4"
| "smx_pc_rank x l Unlock_store = l + 3"
| "smx_pc_rank x l Unlock_shared = l + 7"
| "smx_pc_rank x l (Us_loop st) = (if st = x then l + 6 else l + 7)"
| "smx_pc_rank x l Us_store = l + 5"
| "smx_pc_rank x l Us_handoff = l + 4"
| "smx_pc_rank x l Us_unlock = l + 3"
| "smx_pc_rank x l Wake_readers = l + 2"
| "smx_pc_rank x l Handed_off = 1"
| "smx_pc_rank x l _ = 0"

fun smx_rank :: "shared_mutex \<Rightarrow> (smx_queue \<Rightarrow> tid list) \<Rightarrow> smx_pc control \<Rightarrow> nat" where
  "smx_rank m qs (At pc) = smx_pc_rank (smx_state m) (length (qs Readers)) pc"
| "smx_rank m qs (Suspending pc) = (if pc = Shared_wait then if 0 \<le> smx_state m then 5 else 3 else 4)"
| "smx_rank m qs (Checking pc) = (if pc = Shared_wait then if 0 \<le> smx_state m then 4 else 2 else 3)"
| "smx_rank m qs (Self_resume pc) = (if pc = Shared_wait then if 0 \<le> smx_state m then 3 else 7 else 2)"
| "smx_rank m qs (Pushing pc) = 1"
| "smx_rank m qs (Suspended pc) = 0"
| "smx_rank m qs (Resuming ws k) =
     length ws + 1 + smx_pc_rank (smx_state m) (length (qs Readers)) k"

text \<open>Outside the calls.\<close>

fun smx_rest :: "smx_pc \<Rightarrow> bool" where
  "smx_rest smx_pc.Idle \<longleftrightarrow> True"
| "smx_rest W_held \<longleftrightarrow> True"
| "smx_rest R_held \<longleftrightarrow> True"
| "smx_rest smx_pc.Aborted \<longleftrightarrow> True"
| "smx_rest _ \<longleftrightarrow> False"

lemma smx_atomic_rank:
  assumes "smx_code pc = Atomic f" "(v', pc') \<in> set (f v)" "pc' \<noteq> pc" "\<not> smx_rest pc"
  shows "smx_pc_rank (smx_state v') l pc' < smx_pc_rank (smx_state v) l pc"
  using assms
  by (cases pc) (auto simp: smx_atomic split: if_splits smx_caller.splits)

interpretation smx_calls: bounded_calls smx_code smx_init smx_pc.Idle "\<lambda>_. True" smx_rest smx_rank
proof unfold_locales
  fix pc :: smx_pc and f q pred k m b and k' :: "bool \<Rightarrow> smx_pc" and v :: shared_mutex
  show "\<exists>v' pc'. (v', pc') \<in> set (f v) \<and> pc' \<noteq> pc" if "smx_code pc = Atomic f" "\<not> smx_rest pc"
  proof (cases pc)
    case (Shared_cas c st)
    with that(1) show ?thesis
      by (cases "st < 0"; cases "st = smx_state v") (auto simp: smx_try_shared_step_iff ex_disj_distrib conj_disj_distribR split: smx_caller.splits)
  next
    case (Us_loop st)
    with that(1) show ?thesis
      by (cases "st < 1"; cases "st = smx_state v"; cases "st = 1") (auto simp: smx_unlock_shared_step_iff ex_disj_distrib conj_disj_distribR)
  qed (use that in \<open>auto simp: Let_def smx_try_lock_iff split: smx_caller.splits\<close>)
  show "k \<noteq> pc" if "smx_code pc = Wait_if q pred k" using that by (auto elim!: smx_code_cases)
  show "k' b \<noteq> pc" if "smx_code pc = Resume_one q k'" using that by (auto elim!: smx_code_cases split: if_splits)
  show "k \<noteq> pc" if "smx_code pc = Resume_n q m k" using that by (auto elim!: smx_code_cases)
  show "k \<noteq> pc" if "smx_code pc = Resume_all q k" using that by (auto elim!: smx_code_cases)
next
  fix n t and s s' :: "(shared_mutex, smx_queue, smx_pc) sys"
  assume m: "mstep smx_code n s t s'" and c: "ctl s' t \<noteq> ctl s t" "\<not> at_rest smx_rest (ctl s t)"
  from m show "smx_rank (vars s') (m_waiters s') (ctl s' t) < smx_rank (vars s) (m_waiters s) (ctl s t)"
  proof (cases rule: mstep.cases)
    case (atomic pc f v pc')
    with smx_atomic_rank[of pc f v pc' "vars s" "length (m_waiters s Readers)"] c show ?thesis
      by (auto simp: at_rest_def)
  qed (auto elim!: smx_code_cases simp: smx_try_lock_iff split: if_splits)
qed

section \<open>\<open>counting_semaphore\<close>\<close>

fun sem_pc_rank :: "int \<Rightarrow> nat \<Rightarrow> sem_pc \<Rightarrow> nat" where
  "sem_pc_rank x l (Acquire_load c) = (if 0 < x then 2 else 6)"
| "sem_pc_rank x l (Acquire_cas c current) =
     (if 0 < x then (if current = x then 1 else 4) else (if current \<le> 0 then 5 else 6))"
| "sem_pc_rank x l Acquire_wait = (if 0 < x then 3 else 4)"
| "sem_pc_rank x l (Release u) = l + 5"
| "sem_pc_rank x l (Release_add u) = l + 4"
| "sem_pc_rank x l (Release_check u prev) = l + 3"
| "sem_pc_rank x l (Release_resume u) = l + 2"
| "sem_pc_rank x l _ = 0"

fun sem_rank :: "semaphore \<Rightarrow> (unit \<Rightarrow> tid list) \<Rightarrow> sem_pc control \<Rightarrow> nat" where
  "sem_rank m qs (At pc) = sem_pc_rank (m_counter m) (length (qs ())) pc"
| "sem_rank m qs (Suspending pc) = (if 0 < m_counter m then 5 else 3)"
| "sem_rank m qs (Checking pc) = (if 0 < m_counter m then 4 else 2)"
| "sem_rank m qs (Self_resume pc) = (if 0 < m_counter m then 3 else 7)"
| "sem_rank m qs (Pushing pc) = 1"
| "sem_rank m qs (Suspended pc) = 0"
| "sem_rank m qs (Resuming ws k) = length ws + 1 + sem_pc_rank (m_counter m) (length (qs ())) k"

fun sem_rest :: "sem_pc \<Rightarrow> bool" where
  "sem_rest Idle \<longleftrightarrow> True"
| "sem_rest Aborted \<longleftrightarrow> True"
| "sem_rest _ \<longleftrightarrow> False"

lemma sem_atomic_rank:
  assumes "sem_code N us pc = Atomic f" "(v', pc') \<in> set (f v)" "pc' \<noteq> pc" "\<not> sem_rest pc"
  shows "sem_pc_rank (m_counter v') l pc' < sem_pc_rank (m_counter v) l pc"
  using assms
  by (cases pc) (auto simp: sem_try_step_iff Let_def split: if_splits sem_caller.splits)

interpretation sem_calls: bounded_calls "sem_code N us" "sem_init N d" sem_pc.Idle
  "\<lambda>_. sem_arguments_ok N d" sem_rest sem_rank for N us d
proof unfold_locales
  fix pc :: sem_pc and f q pred k m b and k' :: "bool \<Rightarrow> sem_pc" and v :: semaphore
  show "\<exists>v' pc'. (v', pc') \<in> set (f v) \<and> pc' \<noteq> pc" if "sem_code N us pc = Atomic f" "\<not> sem_rest pc"
  proof (cases pc)
    case (Acquire_cas c current)
    with that(1) show ?thesis
      by (cases "0 < current"; cases "current = m_counter v") (auto simp: sem_try_step_iff ex_disj_distrib conj_disj_distribR split: sem_caller.splits)
  qed (use that in \<open>auto simp: Let_def split: sem_caller.splits\<close>)
  show "k \<noteq> pc" if "sem_code N us pc = Wait_if q pred k" using that by (auto elim!: sem_code_cases)
  show "k' b \<noteq> pc" if "sem_code N us pc = Resume_one q k'" using that by (auto elim!: sem_code_cases)
  show "k \<noteq> pc" if "sem_code N us pc = Resume_n q m k" using that by (auto elim!: sem_code_cases)
  show "k \<noteq> pc" if "sem_code N us pc = Resume_all q k" using that by (auto elim!: sem_code_cases)
next
  fix n t and s s' :: "(semaphore, unit, sem_pc) sys"
  assume r: "reach (sem_code N us) n (sem_start N d) s" and ok: "sem_arguments_ok N d"
    and m: "mstep (sem_code N us) n s t s'" and c: "ctl s' t \<noteq> ctl s t" "\<not> at_rest sem_rest (ctl s t)"
  have x: "0 \<le> m_counter (vars s)" using sem_facts[OF r ok] by simp
  from m show "sem_rank (vars s') (m_waiters s') (ctl s' t) < sem_rank (vars s) (m_waiters s) (ctl s t)"
  proof (cases rule: mstep.cases)
    case (atomic pc f v pc')
    with sem_atomic_rank[of N us pc f v pc' "vars s" "length (m_waiters s ())"] c show ?thesis
      by (auto simp: at_rest_def)
  qed (use x in \<open>auto elim!: sem_code_cases split: if_splits\<close>)
qed

section \<open>Properties\<close>

lemma smx_pc_rank_le: "smx_pc_rank x l pc \<le> l + 7"
  by (cases pc) auto

lemma sem_pc_rank_le: "sem_pc_rank x l pc \<le> l + 7"
  by (cases pc) auto

text \<open>C8. Every operation of \<open>shared_mutex\<close>, called in any reachable state and run without interference,
  returns or suspends: no spurious failures apart, any run of its steps inside the call has at most
  seven of them more than there are sleeping readers to resume, and some run reaches the end.\<close>

theorem smx_calls_terminate:
  assumes "reach smx_code n smx_start s" "t < n" "undisturbed s t" "ctl s t = At pc"
  shows "(\<exists>j s'. (alone smx_code n smx_rest t ^^ j) s s' \<and> at_rest smx_rest (ctl s' t))
    \<and> (\<forall>j s'. (alone smx_code n smx_rest t ^^ j) s s' \<longrightarrow> j \<le> length (m_waiters s Readers) + 7)"
proof (intro conjI allI impI)
  show "\<exists>j s'. (alone smx_code n smx_rest t ^^ j) s s' \<and> at_rest smx_rest (ctl s' t)"
    by (rule smx_calls.alone_returns[OF assms(1) TrueI assms(2,3)])
  fix j s'
  assume "(alone smx_code n smx_rest t ^^ j) s s'"
  from smx_calls.alone_steps[OF assms(1) TrueI this] smx_pc_rank_le assms(4)
  show "j \<le> length (m_waiters s Readers) + 7" by (metis le_trans smx_rank.simps(1))
qed

text \<open>A writer unlocks while a reader sleeps.\<close>

theorem smx_calls_terminate_witness:
  "\<exists>s. reach smx_code 2 smx_start s \<and> ctl s 0 = At Unlock \<and> m_waiters s Readers = [1]
     \<and> (\<exists>j s'. (alone smx_code 2 smx_rest 0 ^^ j) s s' \<and> at_rest smx_rest (ctl s' 0))
     \<and> (\<forall>j s'. (alone smx_code 2 smx_rest 0 ^^ j) s s' \<longrightarrow> j \<le> 8)"
proof -
  have "\<exists>s. reach smx_code 2 smx_start s \<and> (ctl s 0 = At Unlock \<and> m_waiters s Readers = [1]
      \<and> m_waiters_mutex s = (\<lambda>_. None))"
    by (rule run_witness[where sched = "[(0,1),(0,0),(0,0),(1,3),(1,0),(1,0),(1,0),(1,0),(1,0),(1,0)]"])
      (simp add: run_simps smx_init_def smx_try_lock_iff smx_try_shared_step_def fun_eq_iff)
  then obtain s where s: "reach smx_code 2 smx_start s" "ctl s 0 = At Unlock" "m_waiters s Readers = [1]"
    "m_waiters_mutex s = (\<lambda>_. None)" by blast
  from s(4) have "undisturbed s 0" by (simp add: undisturbed_def)
  from smx_calls_terminate[OF s(1) _ this s(2)] s show ?thesis by auto
qed

text \<open>The same for \<open>counting_semaphore\<close>: \<open>release\<close> resumes at most the waiters there are.\<close>

theorem sem_calls_terminate:
  assumes "reach (sem_code N us) n (sem_start N d) s" "sem_arguments_ok N d" "t < n" "undisturbed s t"
    and "ctl s t = At pc"
  shows "(\<exists>j s'. (alone (sem_code N us) n sem_rest t ^^ j) s s' \<and> at_rest sem_rest (ctl s' t))
    \<and> (\<forall>j s'. (alone (sem_code N us) n sem_rest t ^^ j) s s' \<longrightarrow> j \<le> length (m_waiters s ()) + 7)"
proof (intro conjI allI impI)
  show "\<exists>j s'. (alone (sem_code N us) n sem_rest t ^^ j) s s' \<and> at_rest sem_rest (ctl s' t)"
    by (rule sem_calls.alone_returns[OF assms(1-4)])
  fix j s'
  assume "(alone (sem_code N us) n sem_rest t ^^ j) s s'"
  from sem_calls.alone_steps[OF assms(1,2) this] sem_pc_rank_le assms(5)
  show "j \<le> length (m_waiters s ()) + 7" by (metis le_trans sem_rank.simps(1))
qed

end
