(* ===== verification/Bounded_Calls.thy ===== *)
theory Bounded_Calls
  imports Termination Binary_Semaphore Latch Barrier Atomic_Ref Condition_Variable Shared_State
begin

text \<open>
  The calls of the other primitives end too, when nobody interferes: \<open>mutex\<close>, \<open>counting_semaphore<1>\<close>,
  \<open>condition_variable\<close>, \<open>latch\<close>, \<open>barrier\<close>, \<open>atomic_condition\<close>, \<open>atomic_flag\<close> and the shared state of
  futures. Their predicates do not change the atomics, so a rank of the program points is enough:
  those of the stages of \<open>wait_if\<close> and of the resumptions follow from it.
\<close>

section \<open>Ranks of program points\<close>

definition lengths :: "('q \<Rightarrow> tid list) \<Rightarrow> 'q \<Rightarrow> nat" where
  "lengths qs q = length (qs q)"

fun stage_rank ::
  "('v \<Rightarrow> ('q \<Rightarrow> nat) \<Rightarrow> 'pc \<Rightarrow> nat) \<Rightarrow> 'v \<Rightarrow> ('q \<Rightarrow> nat) \<Rightarrow> ('v, 'q, 'pc) instr \<Rightarrow> nat \<Rightarrow> nat"
where
  "stage_rank pr v l (Wait_if q pred k) d = (if snd (pred v) then d else pr v l k + d)"
| "stage_rank pr v l _ d = d"

fun after_wait ::
  "('v \<Rightarrow> ('q \<Rightarrow> nat) \<Rightarrow> 'pc \<Rightarrow> nat) \<Rightarrow> 'v \<Rightarrow> ('q \<Rightarrow> nat) \<Rightarrow> ('v, 'q, 'pc) instr \<Rightarrow> nat"
where
  "after_wait pr v l (Wait_if q pred k) = pr v l k + 1"
| "after_wait pr v l _ = 1"

fun control_rank ::
  "('pc \<Rightarrow> ('v, 'q, 'pc) instr) \<Rightarrow> ('v \<Rightarrow> ('q \<Rightarrow> nat) \<Rightarrow> 'pc \<Rightarrow> nat) \<Rightarrow> 'v \<Rightarrow> ('q \<Rightarrow> tid list)
    \<Rightarrow> 'pc control \<Rightarrow> nat"
where
  "control_rank code pr v qs (At pc) = pr v (lengths qs) pc"
| "control_rank code pr v qs (Suspending pc) = stage_rank pr v (lengths qs) (code pc) 3"
| "control_rank code pr v qs (Checking pc) = stage_rank pr v (lengths qs) (code pc) 2"
| "control_rank code pr v qs (Self_resume pc) = after_wait pr v (lengths qs) (code pc)"
| "control_rank code pr v qs (Pushing pc) = 1"
| "control_rank code pr v qs (Suspended pc) = 0"
| "control_rank code pr v qs (Resuming ws k) = length ws + 1 + pr v (lengths qs) k"

lemma lengths_upd: "lengths (qs(q := ws)) = (lengths qs)(q := length ws)"
  by (simp add: lengths_def fun_eq_iff)

text \<open>The call that task \<open>t\<close> is in ends: it returns or suspends, after at most \<open>b\<close> of its own steps.\<close>

definition call_ends ::
  "('pc \<Rightarrow> ('v, 'q, 'pc) instr) \<Rightarrow> nat \<Rightarrow> ('pc \<Rightarrow> bool) \<Rightarrow> tid \<Rightarrow> ('v, 'q, 'pc) sys \<Rightarrow> nat \<Rightarrow> bool"
where
  "call_ends code n rest t s b \<longleftrightarrow>
     (\<exists>j s'. (alone code n rest t ^^ j) s s' \<and> at_rest rest (ctl s' t))
     \<and> (\<forall>j s'. (alone code n rest t ^^ j) s s' \<longrightarrow> j \<le> b)"

text \<open>
  What every instruction owes to the rank: each outcome of an atomic step lowers it; a task that has to sleep
  passes four more points, a task that does not goes on at a lower one; a resumption pays one for
  every waiter. \<open>l\<close> gives the lengths of the queues.
\<close>

fun ranked ::
  "('v \<Rightarrow> ('q \<Rightarrow> nat) \<Rightarrow> 'pc \<Rightarrow> nat) \<Rightarrow> ('pc \<Rightarrow> bool) \<Rightarrow> 'v \<Rightarrow> ('q \<Rightarrow> nat) \<Rightarrow> 'pc
    \<Rightarrow> ('v, 'q, 'pc) instr \<Rightarrow> bool"
where
  "ranked pr rest v l pc (Atomic f) \<longleftrightarrow>
     rest pc \<or> f v \<noteq> [] \<and> (\<forall>(v', pc') \<in> set (f v). pc' \<noteq> pc \<and> pr v' l pc' < pr v l pc)"
| "ranked pr rest v l pc (Wait_if q pred k) \<longleftrightarrow>
     fst (pred v) = v \<and> k \<noteq> pc \<and> (if snd (pred v) then 4 \<le> pr v l pc else pr v l k < pr v l pc)"
| "ranked pr rest v l pc (Resume_one q k) \<longleftrightarrow>
     k True \<noteq> pc \<and> pr v (l(q := l q - 1)) (k True) + 2 < pr v l pc
     \<and> k False \<noteq> pc \<and> pr v (l(q := l q - 1)) (k False) < pr v l pc"
| "ranked pr rest v l pc (Resume_n q m k) \<longleftrightarrow>
     k \<noteq> pc \<and> pr v l k < pr v l pc \<and> l q + 1 + pr v (l(q := l q - m)) k < pr v l pc"
| "ranked pr rest v l pc (Resume_all q k) \<longleftrightarrow> k \<noteq> pc \<and> l q + 1 + pr v (l(q := 0)) k < pr v l pc"

locale ranked_calls =
  fixes code :: "'pc \<Rightarrow> ('v, 'q, 'pc) instr"
    and v0 :: 'v
    and pc0 :: 'pc
    and rest :: "'pc \<Rightarrow> bool"
    and pr :: "'v \<Rightarrow> ('q \<Rightarrow> nat) \<Rightarrow> 'pc \<Rightarrow> nat"
  assumes every: "ranked pr rest v l pc (code pc)"
begin

text \<open>The obligation for the instruction at hand.\<close>

lemma here: "code pc = i \<Longrightarrow> ranked pr rest v l pc i"
  using every by blast

lemma rank_decreases:
  assumes "mstep code n s t s'" "ctl s' t \<noteq> ctl s t" "\<not> at_rest rest (ctl s t)"
  shows "control_rank code pr (vars s') (m_waiters s') (ctl s' t)
    < control_rank code pr (vars s) (m_waiters s) (ctl s t)"
  using assms(1)
proof (cases rule: mstep.cases)
  case (atomic pc f v pc')
  with assms(3) have "\<not> rest pc" by (auto simp: at_rest_def)
  with here[OF atomic(4), of "vars s" "lengths (m_waiters s)"] atomic show ?thesis by auto
next
  case (wait_return pc q pred k v)
  with here[OF wait_return(4), of "vars s" "lengths (m_waiters s)"] show ?thesis by simp
next
  case (wait_suspend pc q pred k v)
  with here[OF wait_suspend(4), of "vars s" "lengths (m_waiters s)"] show ?thesis by simp
next
  case (wait_recheck_wait pc q pred k v)
  with here[OF wait_recheck_wait(4), of "vars s" "lengths (m_waiters s)"] show ?thesis by simp
next
  case (wait_recheck_go pc q pred k v)
  with here[OF wait_recheck_go(4), of "vars s" "lengths (m_waiters s)"] show ?thesis by simp
next
  case (resume_one_none pc q k)
  with here[OF resume_one_none(4), of "vars s" "lengths (m_waiters s)"] show ?thesis
    by (simp add: lengths_def fun_upd_idem)
next
  case (resume_one_some pc q k w ws)
  with here[OF resume_one_some(4), of "vars s" "lengths (m_waiters s)"] show ?thesis
    by (simp add: lengths_upd lengths_def)
next
  case (resume_n_zero pc q k)
  with here[OF resume_n_zero(4), of "vars s" "lengths (m_waiters s)"] show ?thesis by simp
next
  case (resume_n_pop pc q m k)
  with here[OF resume_n_pop(4), of "vars s" "lengths (m_waiters s)"] show ?thesis
    by (simp add: lengths_upd) (simp add: lengths_def, linarith)
next
  case (resume_all_pop pc q k)
  with here[OF resume_all_pop(4), of "vars s" "lengths (m_waiters s)"] show ?thesis
    by (simp add: lengths_upd) (simp add: lengths_def)
qed auto

sublocale calls: bounded_calls code v0 pc0 "\<lambda>_. True" rest "control_rank code pr"
proof unfold_locales
  show "\<exists>v' pc'. (v', pc') \<in> set (f v) \<and> pc' \<noteq> pc" if "code pc = Atomic f" "\<not> rest pc" for pc f v
    using here[OF that(1), of v "\<lambda>_. 0"] that(2) by (cases "f v") auto
  show "k \<noteq> pc" if "code pc = Wait_if q pred k" for pc q pred k
    using here[OF that] by simp
  show "k' b \<noteq> pc" if "code pc = Resume_one q k'" for pc q k' b
    using here[OF that] by (cases b) simp_all
  show "k \<noteq> pc" if "code pc = Resume_n q m k" for pc q m k
    using here[OF that] by simp
  show "k \<noteq> pc" if "code pc = Resume_all q k" for pc q k
    using here[OF that] by simp
qed (rule rank_decreases)

lemma call_terminates:
  assumes "reach code n (init_sys v0 pc0) s" "t < n" "undisturbed s t" "ctl s t = At pc"
    and "pr (vars s) (lengths (m_waiters s)) pc \<le> b"
  shows "call_ends code n rest t s b"
  unfolding call_ends_def
  using calls.alone_returns[OF assms(1) TrueI assms(2,3)] calls.alone_steps[OF assms(1) TrueI] assms(4,5)
  by fastforce

end

section \<open>\<open>mutex\<close> and \<open>counting_semaphore<1>\<close>\<close>

fun mutex_rest :: "mutex_pc \<Rightarrow> bool" where
  "mutex_rest mutex_pc.Idle \<longleftrightarrow> True"
| "mutex_rest mutex_pc.Held \<longleftrightarrow> True"
| "mutex_rest mutex_pc.Aborted \<longleftrightarrow> True"
| "mutex_rest _ \<longleftrightarrow> False"

fun mutex_pc_rank :: "mutex \<Rightarrow> (unit \<Rightarrow> nat) \<Rightarrow> mutex_pc \<Rightarrow> nat" where
  "mutex_pc_rank m l mutex_pc.Try_lock = 1"
| "mutex_pc_rank m l mutex_pc.Lock = (if m_locked m then 5 else 1)"
| "mutex_pc_rank m l mutex_pc.Lock_wait = (if m_locked m then 4 else 2)"
| "mutex_pc_rank m l mutex_pc.Unlock = 5"
| "mutex_pc_rank m l mutex_pc.Unlock_store = 4"
| "mutex_pc_rank m l mutex_pc.Unlock_resume = 3"
| "mutex_pc_rank m l _ = 0"

interpretation mutex_calls: ranked_calls mutex_code mutex_init mutex_pc.Idle mutex_rest mutex_pc_rank
proof unfold_locales
  show "ranked mutex_pc_rank mutex_rest v l pc (mutex_code pc)" for v l pc
    by (cases pc) (auto simp: mutex_try_lock_iff Let_def split: if_splits)
qed

lemma mutex_pc_rank_le: "mutex_pc_rank m l pc \<le> 5"
  by (cases pc) auto

theorem mutex_calls_terminate:
  assumes "reach mutex_code n mutex_start s" "t < n" "undisturbed s t" "ctl s t = At pc"
  shows "call_ends mutex_code n mutex_rest t s 5"
  by (rule mutex_calls.call_terminates[OF assms mutex_pc_rank_le])

fun bsem_rest :: "bsem_pc \<Rightarrow> bool" where
  "bsem_rest bsem_pc.Idle \<longleftrightarrow> True"
| "bsem_rest bsem_pc.Aborted \<longleftrightarrow> True"
| "bsem_rest _ \<longleftrightarrow> False"

fun bsem_pc_rank :: "binary_semaphore \<Rightarrow> (unit \<Rightarrow> nat) \<Rightarrow> bsem_pc \<Rightarrow> nat" where
  "bsem_pc_rank m l bsem_pc.Try_acquire = 1"
| "bsem_pc_rank m l bsem_pc.Acquire = (if m_available m then 1 else 5)"
| "bsem_pc_rank m l bsem_pc.Acquire_wait = (if m_available m then 2 else 4)"
| "bsem_pc_rank m l (bsem_pc.Release u) = 6"
| "bsem_pc_rank m l bsem_pc.Release_assert = 5"
| "bsem_pc_rank m l bsem_pc.Release_store = 4"
| "bsem_pc_rank m l bsem_pc.Release_resume = 3"
| "bsem_pc_rank m l _ = 0"

interpretation bsem_calls: ranked_calls "bsem_code us" "bsem_init d" bsem_pc.Idle bsem_rest bsem_pc_rank for us d
proof unfold_locales
  show "ranked bsem_pc_rank bsem_rest v l pc (bsem_code us pc)" for v l pc
    by (cases pc) (auto simp: bsem_try_acquire_iff Let_def split: if_splits)
qed

lemma bsem_pc_rank_le: "bsem_pc_rank m l pc \<le> 6"
  by (cases pc) auto

theorem bsem_calls_terminate:
  assumes "reach (bsem_code us) n (bsem_start d) s" "t < n" "undisturbed s t" "ctl s t = At pc"
  shows "call_ends (bsem_code us) n bsem_rest t s 6"
  by (rule bsem_calls.call_terminates[OF assms bsem_pc_rank_le])

section \<open>\<open>condition_variable\<close>\<close>

text \<open>Outside: with the mutex after \<open>wait\<close>, or after a change of the data.\<close>

fun cv_rest :: "'d cv_pc \<Rightarrow> bool" where
  "cv_rest cv_pc.Idle \<longleftrightarrow> True"
| "cv_rest (cv_pc.Held Returned) \<longleftrightarrow> True"
| "cv_rest (cv_pc.Held Returned_pred) \<longleftrightarrow> True"
| "cv_rest (cv_pc.Held Pred_threw) \<longleftrightarrow> True"
| "cv_rest Updated \<longleftrightarrow> True"
| "cv_rest cv_pc.Aborted \<longleftrightarrow> True"
| "cv_rest _ \<longleftrightarrow> False"

fun cv_after_rank :: "nat \<Rightarrow> cv_after \<Rightarrow> nat" where
  "cv_after_rank l (Then_sleep b) = 4"
| "cv_after_rank l (Then_notify all) = l + 3"
| "cv_after_rank l Then_leave = 0"

fun cv_pc_rank :: "'d cv_state \<Rightarrow> (cv_queue \<Rightarrow> nat) \<Rightarrow> 'd cv_pc \<Rightarrow> nat" where
  "cv_pc_rank v l (cv_pc.Lock k) = (if m_locked (cv_mutex v) then 5 else 11)"
| "cv_pc_rank v l (cv_pc.Lock_wait k) = (if m_locked (cv_mutex v) then 4 else 12)"
| "cv_pc_rank v l (cv_pc.Held To_wait) = 10"
| "cv_pc_rank v l (cv_pc.Held To_wait_pred) = 10"
| "cv_pc_rank v l (cv_pc.Held (To_update d)) = 1"
| "cv_pc_rank v l (cv_pc.Unlock u) = cv_after_rank (l Cond_q) u + 5"
| "cv_pc_rank v l (cv_pc.Unlock_store u) = cv_after_rank (l Cond_q) u + 4"
| "cv_pc_rank v l (cv_pc.Unlock_resume u) = cv_after_rank (l Cond_q) u + 3"
| "cv_pc_rank v l (Sleep b) = 4"
| "cv_pc_rank v l (Notify all holding) = l Cond_q + (if holding then 8 else 3)"
| "cv_pc_rank v l _ = 0"

lemma cv_rank_helpers: "cv_after_rank c u \<le> c + 4" "cv_pc_rank v l (cv_pc.Held k) \<le> 10"
  subgoal by (cases u) simp_all
  subgoal by (cases k) simp_all
  done

interpretation cv_calls: ranked_calls "cv_code pred ds" "cv_init d" cv_pc.Idle cv_rest cv_pc_rank
  for pred :: "'d \<Rightarrow> bool option" and ds d
proof unfold_locales
  show "ranked cv_pc_rank cv_rest v l pc (cv_code pred ds pc)" for v l pc
    by (cases "(pred, ds, pc)" rule: cv_code.cases)
      (auto simp: cv_try_lock_iff cv_continue_def Let_def less_eq_Suc_le cv_rank_helpers(2)[THEN le_trans] split: if_splits cv_after.splits cv_next.splits option.splits)
qed

lemma cv_pc_rank_le: "cv_pc_rank v l pc \<le> l Cond_q + 12"
  by (cases "(v, l, pc)" rule: cv_pc_rank.cases)
    (auto intro: cv_rank_helpers(1)[THEN le_trans])

theorem cv_calls_terminate:
  assumes "reach (cv_code pred ds) n (cv_start d) s" "t < n" "undisturbed s t" "ctl s t = At pc"
  shows "call_ends (cv_code pred ds) n cv_rest t s (length (m_waiters s Cond_q) + 12)"
  using cv_calls.call_terminates[OF assms cv_pc_rank_le] by (simp add: lengths_def)

section \<open>\<open>latch\<close> and \<open>barrier\<close>\<close>

fun latch_rest :: "latch_pc \<Rightarrow> bool" where
  "latch_rest latch_pc.Idle \<longleftrightarrow> True"
| "latch_rest latch_pc.Passed \<longleftrightarrow> True"
| "latch_rest latch_pc.Aborted \<longleftrightarrow> True"
| "latch_rest _ \<longleftrightarrow> False"

fun latch_pc_rank :: "latch \<Rightarrow> (unit \<Rightarrow> nat) \<Rightarrow> latch_pc \<Rightarrow> nat" where
  "latch_pc_rank m l latch_pc.Try_wait = 1"
| "latch_pc_rank m l (Count_down u w) = l () + 10"
| "latch_pc_rank m l (Cd_sub u w) = l () + 9"
| "latch_pc_rank m l (Cd_check u prev w) = l () + 8"
| "latch_pc_rank m l (Cd_resume w) = l () + 7"
| "latch_pc_rank m l latch_pc.Wait_fast = 5"
| "latch_pc_rank m l latch_pc.Wait_sleep = (if latch_counter m = 0 then 2 else 4)"
| "latch_pc_rank m l latch_pc.Wait_assert = 1"
| "latch_pc_rank m l _ = 0"

interpretation latch_calls: ranked_calls "latch_code us" "latch_init e" latch_pc.Idle latch_rest latch_pc_rank for us e
proof unfold_locales
  show "ranked latch_pc_rank latch_rest v l pc (latch_code us pc)" for v l pc
    by (cases pc) (auto simp: latch_try_wait_def after_count_down_def Let_def split: if_splits)
qed

lemma latch_pc_rank_le: "latch_pc_rank m l pc \<le> l () + 10"
  by (cases pc) auto

theorem latch_calls_terminate:
  assumes "reach (latch_code us) n (latch_start e) s" "t < n" "undisturbed s t" "ctl s t = At pc"
  shows "call_ends (latch_code us) n latch_rest t s (length (m_waiters s ()) + 10)"
  using latch_calls.call_terminates[OF assms latch_pc_rank_le] by (simp add: lengths_def)

fun bar_rest :: "bar_pc \<Rightarrow> bool" where
  "bar_rest bar_pc.Idle \<longleftrightarrow> True"
| "bar_rest (Token p) \<longleftrightarrow> True"
| "bar_rest (bar_pc.Passed p) \<longleftrightarrow> True"
| "bar_rest bar_pc.Aborted \<longleftrightarrow> True"
| "bar_rest _ \<longleftrightarrow> False"

fun bar_pc_rank :: "barrier \<Rightarrow> (unit \<Rightarrow> nat) \<Rightarrow> bar_pc \<Rightarrow> nat" where
  "bar_pc_rank m l Drop = l () + 17"
| "bar_pc_rank m l (Drop_check prev) = l () + 16"
| "bar_pc_rank m l (Arrive u k) = l () + 15"
| "bar_pc_rank m l (Arr_load u k) = l () + 14"
| "bar_pc_rank m l (Arr_sub u p k) = l () + 13"
| "bar_pc_rank m l (Arr_check u p prev k) = l () + 12"
| "bar_pc_rank m l (Complete p k) = l () + 11"
| "bar_pc_rank m l (Load_next p k) = l () + 10"
| "bar_pc_rank m l (Store_expected x p k) = l () + 9"
| "bar_pc_rank m l (Store_phase p k) = l () + 8"
| "bar_pc_rank m l (Wake p k) = l () + 7"
| "bar_pc_rank m l (bar_pc.Wait_fast p) = 5"
| "bar_pc_rank m l (bar_pc.Wait_sleep p) = (if m_phase m = p then 4 else 1)"
| "bar_pc_rank m l _ = 0"

interpretation barrier_calls: ranked_calls "bar_code ag us" "bar_state e p" bar_pc.Idle bar_rest bar_pc_rank for ag us e p
proof unfold_locales
  show "ranked bar_pc_rank bar_rest v l pc (bar_code ag us pc)" for v l pc
    by (cases pc) (auto simp: after_arrive_def Let_def split: bar_next.splits if_splits)
qed

lemma bar_pc_rank_le: "bar_pc_rank m l pc \<le> l () + 17"
  by (cases pc) auto

theorem barrier_calls_terminate:
  assumes "reach (bar_code ag us) n (bar_start e p) s" "t < n" "undisturbed s t" "ctl s t = At pc"
  shows "call_ends (bar_code ag us) n bar_rest t s (length (m_waiters s ()) + 17)"
  using barrier_calls.call_terminates[OF assms bar_pc_rank_le] by (simp add: lengths_def)

section \<open>\<open>atomic_condition\<close> and \<open>atomic_flag\<close>\<close>

fun ac_rest :: "'a ac_pc \<Rightarrow> bool" where
  "ac_rest ac_pc.Idle \<longleftrightarrow> True"
| "ac_rest (ac_pc.Passed i old) \<longleftrightarrow> True"
| "ac_rest ac_pc.Aborted \<longleftrightarrow> True"
| "ac_rest _ \<longleftrightarrow> False"

text \<open>The cost of the notifications a caller makes in a row.\<close>

fun notify_rank :: "(nat \<Rightarrow> nat) \<Rightarrow> nat list \<Rightarrow> nat" where
  "notify_rank l [] = 1"
| "notify_rank l (i # is) = l i + 2 + notify_rank (l(i := 0)) is"

fun ac_pc_rank ::
  "('a \<Rightarrow> 8 word list) \<Rightarrow> nat list \<Rightarrow> 'a atomic_value \<Rightarrow> (nat \<Rightarrow> nat) \<Rightarrow> 'a ac_pc \<Rightarrow> nat"
where
  "ac_pc_rank bytes wrappers v l (ac_pc.Wait i old order) = 6"
| "ac_pc_rank bytes wrappers v l (Wait_loop i old) = (if same_bytes bytes (m_value v) old then 5 else 1)"
| "ac_pc_rank bytes wrappers v l (ac_pc.Wait_sleep i old) = (if same_bytes bytes (m_value v) old then 4 else 2)"
| "ac_pc_rank bytes wrappers v l (Modify f) = notify_rank l wrappers + 1"
| "ac_pc_rank bytes wrappers v l (Notify_all is) = notify_rank l is"
| "ac_pc_rank bytes wrappers v l (Notify_one i) = 3"
| "ac_pc_rank bytes wrappers v l _ = 0"

interpretation ac_calls: ranked_calls "ac_code bytes wrappers calls" "\<lparr>m_value = x\<rparr>" ac_pc.Idle
  ac_rest "ac_pc_rank bytes wrappers" for bytes wrappers calls x
proof unfold_locales
  show "ranked (ac_pc_rank bytes wrappers) ac_rest v l pc (ac_code bytes wrappers calls pc)" for v l pc
  proof (cases pc)
    case (Notify_all js)
    then show ?thesis by (cases js) auto
  qed auto
qed

fun notified :: "nat list \<Rightarrow> 'a ac_pc \<Rightarrow> nat list" where
  "notified wrappers (Modify f) = wrappers"
| "notified wrappers (Notify_all is) = is"
| "notified wrappers _ = []"

lemma notify_rank_le:
  "(\<And>q. l q \<le> l' q) \<Longrightarrow> notify_rank l is \<le> sum_list (map (\<lambda>i. l' i + 2) is) + 1"
proof (induction "is" arbitrary: l)
  case (Cons i "is")
  from Cons.prems have "(l(i := 0)) q \<le> l' q" for q by simp
  from Cons.IH[of "l(i := 0)", OF this] Cons.prems[of i] show ?case by (simp add: fun_upd_def)
qed simp

lemma ac_pc_rank_le:
  "ac_pc_rank bytes wrappers v l pc \<le> sum_list (map (\<lambda>i. l i + 2) (notified wrappers pc)) + 6"
  using notify_rank_le[of l l] by (cases pc) (fastforce intro: order.trans)+

theorem ac_calls_terminate:
  assumes "reach (ac_code bytes wrappers calls) n (ac_start x) s" "t < n" "undisturbed s t" "ctl s t = At pc"
  shows "call_ends (ac_code bytes wrappers calls) n ac_rest t s
    (sum_list (map (\<lambda>i. length (m_waiters s i) + 2) (notified wrappers pc)) + 6)"
  using ac_calls.call_terminates[OF assms ac_pc_rank_le] by (simp add: lengths_def)

text \<open>The same for the objects of \<open>atomic_ref_condition\<close>, whose notified objects depend on the state.\<close>

fun ref_rest :: "'a ref_pc \<Rightarrow> bool" where
  "ref_rest R_idle \<longleftrightarrow> True"
| "ref_rest (R_constructed i) \<longleftrightarrow> True"
| "ref_rest (R_passed i old) \<longleftrightarrow> True"
| "ref_rest R_aborted \<longleftrightarrow> True"
| "ref_rest _ \<longleftrightarrow> False"

fun ref_pc_rank ::
  "('a \<Rightarrow> 8 word list) \<Rightarrow> ('a ref_state \<Rightarrow> nat \<Rightarrow> nat list) \<Rightarrow> 'a ref_state \<Rightarrow> (nat \<Rightarrow> nat) \<Rightarrow> 'a ref_pc \<Rightarrow> nat"
where
  "ref_pc_rank bytes policy v l (R_construct x) = 1"
| "ref_pc_rank bytes policy v l (R_copy_construct i) = 1"
| "ref_pc_rank bytes policy v l (R_wait i old order) = 6"
| "ref_pc_rank bytes policy v l (R_loop i old) = (if same_bytes bytes (ref_load i v) old then 5 else 1)"
| "ref_pc_rank bytes policy v l (R_sleep i old) = (if same_bytes bytes (ref_load i v) old then 4 else 2)"
| "ref_pc_rank bytes policy v l (R_change i f) = notify_rank l (policy v i) + 1"
| "ref_pc_rank bytes policy v l (R_notify_all is) = notify_rank l is"
| "ref_pc_rank bytes policy v l (R_notify_one i) = 3"
| "ref_pc_rank bytes policy v l _ = 0"

interpretation ref_calls: ranked_calls "ref_code bytes policy calls" "\<lparr>ref_values = vals, ref_objects = []\<rparr>"
  R_idle ref_rest "ref_pc_rank bytes policy" for bytes policy calls vals
proof unfold_locales
  show "ranked (ref_pc_rank bytes policy) ref_rest v l pc (ref_code bytes policy calls pc)" for v l pc
  proof (cases pc)
    case (R_notify_all js)
    then show ?thesis by (cases js) auto
  qed auto
qed

theorem ref_calls_terminate:
  assumes "reach (ref_code bytes policy calls) n (ref_start vals) s" "t < n" "undisturbed s t" "ctl s t = At pc"
  shows "call_ends (ref_code bytes policy calls) n ref_rest t s
    (ref_pc_rank bytes policy (vars s) (lengths (m_waiters s)) pc)"
  by (rule ref_calls.call_terminates[OF assms le_refl])

text \<open>Between a change of the flag and \<open>notify_all\<close> the caller is outside the class.\<close>

fun flag_rest :: "flag_pc \<Rightarrow> bool" where
  "flag_rest F_idle \<longleftrightarrow> True"
| "flag_rest (F_passed old) \<longleftrightarrow> True"
| "flag_rest (Tested b) \<longleftrightarrow> True"
| "flag_rest (Changed r) \<longleftrightarrow> True"
| "flag_rest F_aborted \<longleftrightarrow> True"
| "flag_rest _ \<longleftrightarrow> False"

fun flag_pc_rank :: "flag_state \<Rightarrow> (unit \<Rightarrow> nat) \<Rightarrow> flag_pc \<Rightarrow> nat" where
  "flag_pc_rank v l (Clear order) = 1"
| "flag_pc_rank v l (Test_and_set order) = 1"
| "flag_pc_rank v l (Test order) = 1"
| "flag_pc_rank v l (F_wait old order) = 6"
| "flag_pc_rank v l (F_loop old order) = (if old = flag_value v then 5 else 1)"
| "flag_pc_rank v l (F_sleep old order) = (if old = flag_value v then 4 else 2)"
| "flag_pc_rank v l (Flag_reference b) = 1"
| "flag_pc_rank v l F_notify_all = l () + 2"
| "flag_pc_rank v l F_notify_one = 3"
| "flag_pc_rank v l _ = 0"

interpretation flag_calls: ranked_calls flag_code flag_init F_idle flag_rest flag_pc_rank
proof unfold_locales
  show "ranked flag_pc_rank flag_rest v l pc (flag_code pc)" for v l pc
    by (cases pc) (auto split: if_splits)
qed

lemma flag_pc_rank_le: "flag_pc_rank v l pc \<le> l () + 6"
  by (cases pc) auto

theorem flag_calls_terminate:
  assumes "reach flag_code n (init_sys flag_init F_idle) s" "t < n" "undisturbed s t" "ctl s t = At pc"
  shows "call_ends flag_code n flag_rest t s (length (m_waiters s ()) + 6)"
  using flag_calls.call_terminates[OF assms flag_pc_rank_le] by (simp add: lengths_def)

section \<open>The shared state of futures\<close>

fun ss_rest :: "('a, 'e) ss_pc \<Rightarrow> bool" where
  "ss_rest ss_pc.Idle \<longleftrightarrow> True"
| "ss_rest Set_failed \<longleftrightarrow> True"
| "ss_rest Obtained \<longleftrightarrow> True"
| "ss_rest Already_retrieved \<longleftrightarrow> True"
| "ss_rest (Got r) \<longleftrightarrow> True"
| "ss_rest ss_pc.Aborted \<longleftrightarrow> True"
| "ss_rest _ \<longleftrightarrow> False"

fun ss_pc_rank :: "('a, 'e) shared_state \<Rightarrow> (unit \<Rightarrow> nat) \<Rightarrow> ('a, 'e) ss_pc \<Rightarrow> nat" where
  "ss_pc_rank m l (Set_value v) = l () + 6"
| "ss_pc_rank m l (Sv_emplace v) = l () + 5"
| "ss_pc_rank m l Sv_store = l () + 3"
| "ss_pc_rank m l (Sv_catch e) = l () + 4"
| "ss_pc_rank m l (Set_exception e) = l () + 5"
| "ss_pc_rank m l (Se_assign e) = l () + 4"
| "ss_pc_rank m l Se_store = l () + 3"
| "ss_pc_rank m l Break = l () + 3"
| "ss_pc_rank m l Resume = l () + 2"
| "ss_pc_rank m l Get_future = 1"
| "ss_pc_rank m l ss_pc.Try_wait = 3"
| "ss_pc_rank m l ss_pc.Wait = 4"
| "ss_pc_rank m l ss_pc.Wait_assert = 3"
| "ss_pc_rank m l Read = 2"
| "ss_pc_rank m l Read_value = 1"
| "ss_pc_rank m l _ = 0"

interpretation ss_calls: ranked_calls "ss_code vo th vs es" shared_state_init ss_pc.Idle ss_rest
  ss_pc_rank for vo th vs es
proof unfold_locales
  show "ranked ss_pc_rank ss_rest v l pc (ss_code vo th vs es pc)" for v l pc
    by (cases pc) (auto simp: claim_iff obtain_future_iff emplace_def Let_def split: if_splits option.splits)
qed

lemma ss_pc_rank_le: "ss_pc_rank m l pc \<le> l () + 6"
  by (cases pc) auto

theorem ss_calls_terminate:
  assumes "reach (ss_code vo th vs es) n (init_sys shared_state_init ss_pc.Idle) s" "t < n"
    and "undisturbed s t" "ctl s t = At pc"
  shows "call_ends (ss_code vo th vs es) n ss_rest t s (length (m_waiters s ()) + 6)"
  using ss_calls.call_terminates[OF assms ss_pc_rank_le] by (simp add: lengths_def)

end
