(* ===== verification/Linearizability.thy ===== *)
theory Linearizability
  imports Accounting
begin

text \<open>
  Linearizability: what a client sees of a primitive without its queues, atomics and suspensions. The
  specification is a sequential object, a function from a state and an operation to a result and the next
  state (no result: the operation has to wait). A history lists the calls, the commits and the returns that
  the steps of the code make; the contract, proved once, gives that the commits, in their order, are a run of
  the sequential object that ends in the state the atomics stand for, and that each call commits once
  between its call and its return.
\<close>

section \<open>Sequential objects and histories\<close>

type_synonym ('a, 'op, 'r) object = "'a \<Rightarrow> 'op \<Rightarrow> ('r \<times> 'a) option"

fun object_run :: "('a, 'op, 'r) object \<Rightarrow> 'a \<Rightarrow> ('op \<times> 'r) list \<Rightarrow> 'a option" where
  "object_run obj a [] = Some a"
| "object_run obj a ((op, r) # ops) =
     (case obj a op of None \<Rightarrow> None | Some (r', a') \<Rightarrow> if r' = r then object_run obj a' ops else None)"

text \<open>A task is outside the object, in a call that has not taken effect, or in one that has.\<close>

datatype ('op, 'r) phase = Outside | Pending 'op | Committed 'r

datatype ('op, 'r) action = Call 'op | Commit 'op 'r | Return 'r

text \<open>
  The actions of one step, from the phases of its task before and after it; \<open>r\<close> is the result of a
  call that takes effect and returns in the same step. A call may be followed at once by the next.
\<close>

fun actions :: "('op, 'r) phase \<Rightarrow> 'r \<Rightarrow> ('op, 'r) phase \<Rightarrow> ('op, 'r) action list" where
  "actions Outside r (Pending op) = [Call op]"
| "actions (Pending op) r (Committed r') = [Commit op r']"
| "actions (Pending op) r Outside = [Commit op r, Return r]"
| "actions (Committed r') r Outside = [Return r']"
| "actions (Committed r') r (Pending op) = [Return r', Call op]"
| "actions p r p' = []"

text \<open>
  \<open>ph\<close> gives the phase of a task, \<open>an\<close> the result of a step that commits and returns.
\<close>

inductive history ::
  "('pc \<Rightarrow> ('v, 'q, 'pc) instr) \<Rightarrow> ('pc control \<Rightarrow> ('op, 'r) phase) \<Rightarrow> ('v \<Rightarrow> 'pc control \<Rightarrow> 'pc control \<Rightarrow> 'r)
    \<Rightarrow> nat \<Rightarrow> ('v, 'q, 'pc) sys \<Rightarrow> (tid \<times> ('op, 'r) action) list \<Rightarrow> ('v, 'q, 'pc) sys \<Rightarrow> bool"
  for code :: "'pc \<Rightarrow> ('v, 'q, 'pc) instr" and ph an n s0
where
  history_init: "history code ph an n s0 [] s0"
| history_step: "history code ph an n s0 h s \<Longrightarrow> mstep code n s t s'
    \<Longrightarrow> history code ph an n s0
          (h @ map (Pair t) (actions (ph (ctl s t)) (an (vars s) (ctl s t) (ctl s' t)) (ph (ctl s' t)))) s'"

lemma history_reach: "history code ph an n s0 h s \<Longrightarrow> reach code n s0 s"
  by (induction rule: history.induct) (auto intro: reach_init reach_step)

text \<open>Every execution has a history, so the properties of histories are about all executions.\<close>

lemma reach_history: "reach code n s0 s \<Longrightarrow> \<exists>h. history code ph an n s0 h s"
  by (induction rule: reach.induct) (auto intro: history_init history_step)

section \<open>What a history says\<close>

fun commits :: "(tid \<times> ('op, 'r) action) list \<Rightarrow> ('op \<times> 'r) list" where
  "commits [] = []"
| "commits ((t, Commit op r) # h) = (op, r) # commits h"
| "commits (_ # h) = commits h"

definition by_task :: "tid \<Rightarrow> (tid \<times> ('op, 'r) action) list \<Rightarrow> ('op, 'r) action list" where
  "by_task t h = map snd (filter (\<lambda>x. fst x = t) h)"

text \<open>The actions of one task: call, commit and return in turn.\<close>

fun phase_run :: "('op, 'r) phase \<Rightarrow> ('op, 'r) action list \<Rightarrow> ('op, 'r) phase option" where
  "phase_run p [] = Some p"
| "phase_run Outside (Call op # es) = phase_run (Pending op) es"
| "phase_run (Pending op) (Commit op' r # es) = (if op' = op then phase_run (Committed r) es else None)"
| "phase_run (Committed r) (Return r' # es) = (if r' = r then phase_run Outside es else None)"
| "phase_run p (e # es) = None"

text \<open>What the caller sees: the operations it called with the results that were returned.\<close>

fun answers :: "'op option \<Rightarrow> ('op, 'r) action list \<Rightarrow> ('op \<times> 'r) list" where
  "answers c [] = []"
| "answers c (Call op # es) = answers (Some op) es"
| "answers (Some op) (Return r # es) = (op, r) # answers None es"
| "answers c (e # es) = answers c es"

lemma object_run_append:
  "object_run obj a (xs @ ys) = (case object_run obj a xs of None \<Rightarrow> None | Some a' \<Rightarrow> object_run obj a' ys)"
  by (induction obj a xs rule: object_run.induct) (auto split: option.splits)

lemma phase_run_append:
  "phase_run p (xs @ ys) = (case phase_run p xs of None \<Rightarrow> None | Some p' \<Rightarrow> phase_run p' ys)"
  by (induction p xs rule: phase_run.induct) (auto split: option.splits)

lemma commits_append [simp]: "commits (xs @ ys) = commits xs @ commits ys"
  by (induction xs rule: commits.induct) auto

lemma by_task_simps [simp]:
  "by_task t [] = []" "by_task t (xs @ ys) = by_task t xs @ by_task t ys"
  "by_task t (map (Pair u) es) = (if u = t then es else [])"
  by (auto simp: by_task_def filter_map comp_def)

text \<open>A task outside the object has been given exactly the results its calls committed with.\<close>

fun given :: "('op, 'r) phase \<Rightarrow> 'op option \<Rightarrow> ('op \<times> 'r) list \<Rightarrow> bool" where
  "given (Committed r) (Some op) xs \<longleftrightarrow> xs = [(op, r)]"
| "given (Committed r) None xs \<longleftrightarrow> False"
| "given (Pending op) c xs \<longleftrightarrow> c = Some op \<and> xs = []"
| "given Outside c xs \<longleftrightarrow> xs = []"

lemma answers_from:
  "phase_run p es = Some Outside \<Longrightarrow> given p c xs \<Longrightarrow> answers c es = xs @ commits (map (Pair t) es)"
proof (induction p es arbitrary: c xs rule: phase_run.induct)
  case (3 op op' r es)
  then show ?case by (auto split: if_splits)
next
  case (4 r r' es)
  then show ?case by (cases c) (auto split: if_splits)
qed auto

lemma answers_committed:
  assumes "phase_run Outside es = Some Outside"
  shows "answers None es = commits (map (Pair t) es)"
  using answers_from[OF assms, of None "[]" t] by simp

text \<open>
  The history \<open>h\<close> is linearized by its commits: they are a run of the object from \<open>a0\<close> to \<open>a\<close>, every task
  calls, commits and returns in turn, and whoever is outside the object got the results its calls committed with.
\<close>

definition linearized ::
  "('a, 'op, 'r) object \<Rightarrow> 'a \<Rightarrow> (tid \<times> ('op, 'r) action) list \<Rightarrow> 'a \<Rightarrow> (tid \<Rightarrow> ('op, 'r) phase) \<Rightarrow> bool"
where
  "linearized obj a0 h a p \<longleftrightarrow> object_run obj a0 (commits h) = Some a
     \<and> (\<forall>t. phase_run Outside (by_task t h) = Some (p t)
          \<and> (p t = Outside \<longrightarrow> answers None (by_task t h) = commits (map (Pair t) (by_task t h))))"

section \<open>The contract\<close>

text \<open>
  What one step may do: the abstract state changes only where a call commits, and there as the object says.
\<close>

fun commits_as ::
  "('a, 'op, 'r) object \<Rightarrow> 'a \<Rightarrow> ('op, 'r) phase \<Rightarrow> 'r \<Rightarrow> 'a \<Rightarrow> ('op, 'r) phase \<Rightarrow> bool"
where
  "commits_as obj a (Pending op) r a' (Pending op') \<longleftrightarrow> a' = a \<and> op' = op"
| "commits_as obj a (Pending op) r a' (Committed r') \<longleftrightarrow> obj a op = Some (r', a')"
| "commits_as obj a (Pending op) r a' Outside \<longleftrightarrow> obj a op = Some (r, a')"
| "commits_as obj a Outside r a' (Committed r') \<longleftrightarrow> False"
| "commits_as obj a (Committed r') r a' (Committed r'') \<longleftrightarrow> a' = a \<and> r'' = r'"
| "commits_as obj a p r a' p' \<longleftrightarrow> a' = a"

lemma commits_as_actions:
  assumes "commits_as obj a p r a' p'"
  shows "object_run obj a (commits (map (Pair t) (actions p r p'))) = Some a'"
    and "phase_run p (actions p r p') = Some p'"
  using assms by (cases p; cases p'; auto)+

lemma commits_as_refl [simp]: "commits_as obj a p r a p"
  by (cases p) auto

text \<open>\<open>ab\<close>: the state of the object that the atomics stand for; \<open>K\<close>: what is known about a task.\<close>

locale linearizable =
  fixes code :: "'pc \<Rightarrow> ('v, 'q, 'pc) instr"
    and v0 :: 'v
    and pc0 :: 'pc
    and small :: "nat \<Rightarrow> bool"
    and K :: "'v \<Rightarrow> 'pc control \<Rightarrow> bool"
    and obj :: "'a \<Rightarrow> 'op \<Rightarrow> ('r \<times> 'a) option"
    and ab :: "'v \<Rightarrow> 'a"
    and ph :: "'pc control \<Rightarrow> ('op, 'r) phase"
    and an :: "'v \<Rightarrow> 'pc control \<Rightarrow> 'pc control \<Rightarrow> 'r"
  assumes known: "reach code n (init_sys v0 pc0) s \<Longrightarrow> small n \<Longrightarrow> t < n \<Longrightarrow> K (vars s) (ctl s t)"
    and outside: "ph (At pc0) = Outside"
    and commit: "moves pc (code pc) v c v' c' \<Longrightarrow> K v c \<Longrightarrow> K v' c'
      \<Longrightarrow> commits_as obj (ab v) (ph c) (an v c c') (ab v') (ph c')"
    and hand: "code pc = Wait_if q pred k' \<Longrightarrow> continues code q k
      \<Longrightarrow> ph (Suspended pc) = ph (At k') \<and> ph (Resuming (x # ws) k) = ph (Resuming ws k)"
begin

lemma step_commits:
  assumes reach: "reach code n (init_sys v0 pc0) s" and small: "small n" and step: "mstep code n s t s'"
  shows "commits_as obj (ab (vars s)) (ph (ctl s t)) (an (vars s) (ctl s t) (ctl s' t)) (ab (vars s')) (ph (ctl s' t))"
    and "u \<noteq> t \<Longrightarrow> ph (ctl s' u) = ph (ctl s u)"
proof -
  note t = mstep_inside[OF step]
  from step reach_wf[OF reach]
  have "commits_as obj (ab (vars s)) (ph (ctl s t)) (an (vars s) (ctl s t) (ctl s' t)) (ab (vars s')) (ph (ctl s' t))
    \<and> (\<forall>u. u \<noteq> t \<longrightarrow> ph (ctl s' u) = ph (ctl s u))"
  proof (cases rule: mstep_moves)
    case (move pc c')
    then show ?thesis
      using known[OF reach small t] known[OF reach_step[OF reach step] small t]
        commit[of pc "vars s" "ctl s t" "vars s'" c'] by simp
  next
    case (handover w ws k q pc pred k')
    then show ?thesis using hand[OF handover(3,4), of w ws] by simp
  qed
  then show "commits_as obj (ab (vars s)) (ph (ctl s t)) (an (vars s) (ctl s t) (ctl s' t)) (ab (vars s'))
      (ph (ctl s' t))" "u \<noteq> t \<Longrightarrow> ph (ctl s' u) = ph (ctl s u)" by auto
qed

lemma history_run:
  assumes "history code ph an n (init_sys v0 pc0) h s" "small n"
  shows "object_run obj (ab v0) (commits h) = Some (ab (vars s))
    \<and> (\<forall>t. phase_run Outside (by_task t h) = Some (ph (ctl s t)))"
  using assms
proof (induction rule: history.induct)
  case history_init
  then show ?case by (simp add: init_sys_def outside)
next
  case (history_step h s t s')
  note c = step_commits[OF history_reach[OF history_step.hyps(1)] history_step.prems history_step.hyps(2)]
  from commits_as_actions[OF c(1)] c(2) history_step.IH[OF history_step.prems] show ?case
    by (simp add: object_run_append phase_run_append)
qed

lemma history_linearized:
  assumes "history code ph an n (init_sys v0 pc0) h s" "small n"
  shows "linearized obj (ab v0) h (ab (vars s)) (\<lambda>t. ph (ctl s t))"
  using history_run[OF assms] answers_committed unfolding linearized_def by metis

end

section \<open>Replaying a history\<close>

fun record_run ::
  "('pc \<Rightarrow> ('v, 'q, 'pc) instr) \<Rightarrow> ('pc control \<Rightarrow> ('op, 'r) phase) \<Rightarrow> ('v \<Rightarrow> 'pc control \<Rightarrow> 'pc control \<Rightarrow> 'r)
    \<Rightarrow> nat \<Rightarrow> (tid \<times> nat) list \<Rightarrow> (tid \<times> ('op, 'r) action) list \<times> ('v, 'q, 'pc) sys
    \<Rightarrow> ((tid \<times> ('op, 'r) action) list \<times> ('v, 'q, 'pc) sys) option"
where
  "record_run code ph an n [] (h, s) = Some (h, s)"
| "record_run code ph an n ((t, c) # sched) (h, s) = (case exec_step code n c t s of
     None \<Rightarrow> None
   | Some s' \<Rightarrow> record_run code ph an n sched
       (h @ map (Pair t) (actions (ph (ctl s t)) (an (vars s) (ctl s t) (ctl s' t)) (ph (ctl s' t))), s'))"

lemma record_run_history:
  "record_run code ph an n sched (h, s) = Some (h', s') \<Longrightarrow> history code ph an n s0 h s
    \<Longrightarrow> history code ph an n s0 h' s'"
proof (induction sched arbitrary: h s)
  case (Cons x sched)
  obtain t c where x: "x = (t, c)" by (cases x)
  with Cons.prems(1) obtain s1 where "exec_step code n c t s = Some s1" by (auto split: option.splits)
  with Cons x show ?case by (auto intro: history_step exec_step_sound)
qed simp

lemma history_witness:
  assumes "(case record_run code ph an n sched ([], s0) of None \<Rightarrow> False | Some (h, s) \<Rightarrow> P h s)"
  shows "\<exists>h s. history code ph an n s0 h s \<and> P h s"
  using assms record_run_history[OF _ history_init] by (fastforce split: option.splits)

end
