(* ===== verification/Linear_Objects.thy ===== *)
theory Linear_Objects
  imports Linearizability Mutex Semaphore Binary_Semaphore Latch
begin

text \<open>
  The sequential objects that \<open>mutex\<close>, the semaphores and \<open>latch\<close> implement, and the proof that they are
  linearizable: whatever the tasks do, and however their steps are interleaved, the calls answer as they would
  if each took effect at once at one moment between its call and its return.
\<close>

section \<open>Mutex\<close>

datatype mutex_op = Op_try_lock | Op_lock | Op_unlock

fun mutex_object :: "(bool, mutex_op, bool) object" where
  "mutex_object locked Op_try_lock = Some (\<not> locked, True)"
| "mutex_object locked Op_lock = (if locked then None else Some (True, True))"
| "mutex_object locked Op_unlock = (if locked then Some (True, False) else None)"

text \<open>A task that holds the lock is outside every call.\<close>

fun mutex_phase :: "mutex_pc control \<Rightarrow> (mutex_op, bool) phase" where
  "mutex_phase (At Try_lock) = Pending Op_try_lock"
| "mutex_phase (At Lock) = Pending Op_lock"
| "mutex_phase (At Unlock) = Pending Op_unlock"
| "mutex_phase (At Unlock_store) = Pending Op_unlock"
| "mutex_phase (At Unlock_resume) = Committed True"
| "mutex_phase (Resuming ws k) = Committed True"
| "mutex_phase (At Lock_wait) = Pending Op_lock"
| "mutex_phase (At pc) = Outside"
| "mutex_phase _ = Pending Op_lock"

definition mutex_answer :: "mutex \<Rightarrow> mutex_pc control \<Rightarrow> mutex_pc control \<Rightarrow> bool" where
  "mutex_answer m c c' = fst (mutex_try_lock m)"

interpretation mutex_lin: linearizable mutex_code mutex_init mutex_pc.Idle "\<lambda>_. True"
  "\<lambda>m c. owner c \<le> of_bool (m_locked m) \<and> aborted c \<le> 0" mutex_object m_locked mutex_phase mutex_answer
proof unfold_locales
  show "owner (ctl s t) \<le> of_bool (m_locked (vars s)) \<and> aborted (ctl s t) \<le> 0"
    if "reach mutex_code n mutex_start s" "t < n" for n s t
    using mtx.reach_fits[OF that(1) TrueI that(2)] by (auto simp: fits_def mutex_accounts)
  show "commits_as mutex_object (m_locked v) (mutex_phase c) (mutex_answer v c c') (m_locked v') (mutex_phase c')"
    if "moves pc (mutex_code pc) v c v' c'" "owner c \<le> of_bool (m_locked v) \<and> aborted c \<le> 0"
      "owner c' \<le> of_bool (m_locked v') \<and> aborted c' \<le> 0" for pc v c v' c'
    using that by (cases pc) (auto simp: mutex_try_lock_iff mutex_answer_def split: if_splits)
qed (auto elim!: mutex_code_cases)

section \<open>Semaphores\<close>

text \<open>A number of permits up to \<open>m\<close>; for one permit \<open>release\<close> of any positive number releases that one.\<close>

datatype permit_op = Op_try_acquire | Op_acquire | Op_release int

fun permits :: "int \<Rightarrow> (int, permit_op, bool) object" where
  "permits m p Op_try_acquire = Some (if 0 < p then (True, p - 1) else (False, p))"
| "permits m p Op_acquire = (if 0 < p then Some (True, p - 1) else None)"
| "permits m p (Op_release u) = (if 0 \<le> u \<and> p + u \<le> m then Some (True, p + u) else None)"

fun sem_caller_op :: "sem_caller \<Rightarrow> permit_op" where
  "sem_caller_op By_try = Op_try_acquire"
| "sem_caller_op By_acquire = Op_acquire"

text \<open>A failing \<open>try_acquire\<close> takes effect when it reads 0.\<close>

fun sem_phase :: "sem_pc control \<Rightarrow> (permit_op, bool) phase" where
  "sem_phase (At (Acquire_load c)) = Pending (sem_caller_op c)"
| "sem_phase (At (Acquire_cas c current)) =
     (if c \<noteq> By_try \<or> 0 < current then Pending (sem_caller_op c) else Committed False)"
| "sem_phase (At (sem_pc.Release u)) = Pending (Op_release u)"
| "sem_phase (At (Release_add u)) = Pending (Op_release u)"
| "sem_phase (At (Release_check u prev)) = Committed True"
| "sem_phase (At (sem_pc.Release_resume u)) = Committed True"
| "sem_phase (Resuming ws k) = Committed True"
| "sem_phase (At sem_pc.Idle) = Outside"
| "sem_phase (At sem_pc.Aborted) = Outside"
| "sem_phase _ = Pending Op_acquire"

definition sem_answer :: "semaphore \<Rightarrow> sem_pc control \<Rightarrow> sem_pc control \<Rightarrow> bool" where
  "sem_answer m c c' = (case c of At (Acquire_cas By_try current) \<Rightarrow> 0 < current | _ \<Rightarrow> True)"

interpretation sem_lin: linearizable "sem_code N us" "sem_init N d" sem_pc.Idle "\<lambda>_. sem_arguments_ok N d"
  "\<lambda>m c. promised c \<le> sem_max N - m_counter m - budget m \<and> 0 \<le> m_counter m \<and> 0 \<le> budget m \<and> doomed N c \<le> 0"
  "permits (sem_max N)" m_counter sem_phase sem_answer for N us d
proof unfold_locales
  show "promised (ctl s t) \<le> sem_max N - m_counter (vars s) - budget (vars s) \<and> 0 \<le> m_counter (vars s)
      \<and> 0 \<le> budget (vars s) \<and> doomed N (ctl s t) \<le> 0"
    if "reach (sem_code N us) n (sem_start N d) s" "sem_arguments_ok N d" "t < n" for n s t
    using sem.reach_fits[OF that] by (auto simp: fits_def sem_accounts)
  show "commits_as (permits (sem_max N)) (m_counter v) (sem_phase c) (sem_answer v c c') (m_counter v') (sem_phase c')"
    if m: "moves pc (sem_code N us pc) v c v' c'"
      and k: "promised c \<le> sem_max N - m_counter v - budget v \<and> 0 \<le> m_counter v \<and> 0 \<le> budget v \<and> doomed N c \<le> 0"
      and k': "promised c' \<le> sem_max N - m_counter v' - budget v' \<and> 0 \<le> m_counter v' \<and> 0 \<le> budget v' \<and> doomed N c' \<le> 0"
    for pc v c v' c'
  proof -
    let ?w = "int_max_value_t N"
    have down: "0 < m_counter v \<Longrightarrow> swrap ?w (m_counter v - 1) = m_counter v - 1"
      using k promised_nonneg[of c] int_max_value_t_pos[of N]
      by (intro swrap_nonneg) (auto simp: sem_max_def)
    have up: "swrap ?w (m_counter v + swrap ?w u) = m_counter v + u"
      if "0 \<le> u" "u \<le> sem_max N - m_counter v - budget v" for u
      using that k int_max_value_t_pos[of N] by (simp add: swrap_nonneg sem_max_def)
    have by_caller: "sem_caller_op x = (if x = By_try then Op_try_acquire else Op_acquire)" for x
      by (cases x) simp_all
    show ?thesis using m k k' down up
      by (cases pc) (auto simp: sem_try_step_iff sem_fetch_add_def sem_answer_def by_caller Let_def
          split: if_splits sem_caller.splits)
  qed
qed (auto elim!: sem_code_cases)

text \<open>\<open>binary_semaphore\<close> has one permit; \<open>sgn u\<close> is the number of permits that \<open>release u\<close> releases.\<close>

fun bsem_phase :: "bsem_pc control \<Rightarrow> (permit_op, bool) phase" where
  "bsem_phase (At Try_acquire) = Pending Op_try_acquire"
| "bsem_phase (At (bsem_pc.Release u)) = Pending (Op_release (sgn u))"
| "bsem_phase (At bsem_pc.Release_assert) = Pending (Op_release 1)"
| "bsem_phase (At Release_store) = Pending (Op_release 1)"
| "bsem_phase (At bsem_pc.Release_resume) = Committed True"
| "bsem_phase (Resuming ws k) = Committed True"
| "bsem_phase (At bsem_pc.Idle) = Outside"
| "bsem_phase (At bsem_pc.Aborted) = Outside"
| "bsem_phase _ = Pending Op_acquire"

definition bsem_answer :: "binary_semaphore \<Rightarrow> bsem_pc control \<Rightarrow> bsem_pc control \<Rightarrow> bool" where
  "bsem_answer m c c' = (c = At Try_acquire \<longrightarrow> fst (bsem_try_acquire m))"

definition bsem_permits :: "binary_semaphore \<Rightarrow> int" where
  "bsem_permits m = of_bool (m_available m)"

interpretation bsem_lin: linearizable "bsem_code us" "bsem_init d" bsem_pc.Idle "\<lambda>_. bsem_arguments_ok d"
  "\<lambda>m c. bsem_promised c \<le> 1 - of_bool (m_available m) - bsem_budget m \<and> 0 \<le> bsem_budget m \<and> bsem_doomed c \<le> 0"
  "permits bsem_max" bsem_permits bsem_phase bsem_answer for us d
proof unfold_locales
  show "bsem_promised (ctl s t) \<le> 1 - of_bool (m_available (vars s)) - bsem_budget (vars s)
      \<and> 0 \<le> bsem_budget (vars s) \<and> bsem_doomed (ctl s t) \<le> 0"
    if "reach (bsem_code us) n (bsem_start d) s" "bsem_arguments_ok d" "t < n" for n s t
    using bsem.reach_fits[OF that] by (auto simp: fits_def bsem_accounts)
  show "commits_as (permits bsem_max) (bsem_permits v) (bsem_phase c) (bsem_answer v c c') (bsem_permits v') (bsem_phase c')"
    if "moves pc (bsem_code us pc) v c v' c'"
      "bsem_promised c \<le> 1 - of_bool (m_available v) - bsem_budget v \<and> 0 \<le> bsem_budget v \<and> bsem_doomed c \<le> 0"
      "bsem_promised c' \<le> 1 - of_bool (m_available v') - bsem_budget v' \<and> 0 \<le> bsem_budget v' \<and> bsem_doomed c' \<le> 0"
    for pc v c v' c'
    using that
    by (cases pc; cases "m_available v")
      (auto simp: bsem_try_acquire_iff bsem_answer_def bsem_permits_def bsem_max_def split: if_splits)
qed (auto elim!: bsem_code_cases)

section \<open>Latch\<close>

text \<open>\<open>arrive_and_wait\<close> is a call of \<open>count_down\<close> followed by a call of \<open>wait\<close>, as in the code.\<close>

datatype latch_op = Op_count_down int | Op_poll | Op_wait

fun latch_object :: "(int, latch_op, bool) object" where
  "latch_object x (Op_count_down u) = (if 0 \<le> u \<and> u \<le> x then Some (True, x - u) else None)"
| "latch_object x Op_poll = Some (x = 0, x)"
| "latch_object x Op_wait = (if x = 0 then Some (True, x) else None)"

fun latch_phase :: "latch_pc control \<Rightarrow> (latch_op, bool) phase" where
  "latch_phase (At Try_wait) = Pending Op_poll"
| "latch_phase (At (Count_down u w)) = Pending (Op_count_down u)"
| "latch_phase (At (Cd_sub u w)) = Pending (Op_count_down u)"
| "latch_phase (At (Cd_check u prev w)) = Committed True"
| "latch_phase (At (Cd_resume w)) = Committed True"
| "latch_phase (Resuming ws k) = Committed True"
| "latch_phase (At Passed) = Committed True"
| "latch_phase (At latch_pc.Idle) = Outside"
| "latch_phase (At latch_pc.Aborted) = Outside"
| "latch_phase _ = Pending Op_wait"

definition latch_answer :: "latch \<Rightarrow> latch_pc control \<Rightarrow> latch_pc control \<Rightarrow> bool" where
  "latch_answer l c c' = latch_try_wait l"

interpretation latch_lin: linearizable "latch_code us" "latch_init e" latch_pc.Idle "\<lambda>_. latch_arguments_ok e"
  "\<lambda>l c. latch_arguments_ok e \<and> (\<exists>n. latch_known e n l c) \<and> latch_at l c" latch_object latch_counter
  latch_phase latch_answer for us e
proof unfold_locales
  show "latch_arguments_ok e \<and> (\<exists>n. latch_known e n (vars s) (ctl s t)) \<and> latch_at (vars s) (ctl s t)"
    if "reach (latch_code us) n (latch_start e) s" "latch_arguments_ok e" "t < n" for n s t
    using that latch_known_reach[OF that(1,3)] lat_at.assertion_holds[OF that(1,3)] by blast
  show "commits_as latch_object (latch_counter v) (latch_phase c) (latch_answer v c c') (latch_counter v') (latch_phase c')"
    if m: "moves pc (latch_code us pc) v c v' c'"
      and k: "latch_arguments_ok e \<and> (\<exists>n. latch_known e n v c) \<and> latch_at v c"
      and k': "latch_arguments_ok e \<and> (\<exists>n. latch_known e n v' c') \<and> latch_at v' c'" for pc v c v' c'
  proof -
    from k obtain n where "latch_known e n v c" "latch_arguments_ok e" by blast
    note f = latch_knownD[OF this]
    show ?thesis using m f k k'
      by (cases pc) (auto simp: latch_fetch_sub_def latch_try_wait_def latch_answer_def after_count_down_def Let_def
          split: if_splits)
  qed
qed (auto elim!: latch_code_cases)

section \<open>Properties\<close>

text \<open>C17. \<open>counting_semaphore\<close> is linearizable: for any tasks and any interleaving, the calls of
  \<open>try_acquire\<close>, \<open>acquire\<close> and \<open>release\<close> have taken effect one after the other, in a sequential
  run that starts with the initial count, never has less than 0 or more than \<open>max()\<close> permits and ends with
  the value of the counter; each call takes effect once, between its call and its return, and
  answers what it answers in that run (\<open>try_acquire\<close> fails only when there is no permit).\<close>

theorem sem_linearizable:
  assumes "history (sem_code N us) sem_phase sem_answer n (sem_start N d) h s" "sem_arguments_ok N d"
  shows "linearized (permits (sem_max N)) d h (m_counter (vars s)) (\<lambda>t. sem_phase (ctl s t))"
  using sem_lin.history_linearized[OF assms] by (simp add: sem_init_def)

text \<open>Task 0 takes the only permit, the \<open>try_acquire\<close> of task 1 fails, task 0 releases two.\<close>

theorem sem_linearizable_witness:
  "\<exists>h s. history (sem_code 100 [2]) sem_phase sem_answer 2 (sem_start 100 1) h s
     \<and> commits h = [(Op_try_acquire, True), (Op_try_acquire, False), (Op_release 2, True)]
     \<and> answers None (by_task 1 h) = [(Op_try_acquire, False)]
     \<and> object_run (permits (sem_max 100)) 1 (commits h) = Some 2"
proof -
  have "\<exists>h s. history (sem_code 100 [2]) sem_phase sem_answer 2 (sem_start 100 1) h s
      \<and> (commits h = [(Op_try_acquire, True), (Op_try_acquire, False), (Op_release 2, True)]
         \<and> by_task 1 h = [Call Op_try_acquire, Commit Op_try_acquire False, Return False]
         \<and> ctl s 1 = At sem_pc.Idle \<and> m_counter (vars s) = 2)"
    by (rule history_witness[where sched = "[(0,0),(0,0),(1,0),(0,0),(1,0),(1,0),(0,2),(0,0),(0,0)]"])
      (simp add: run_simps sem_init_def sem_try_step_def compare_exchange_weak_def sem_fetch_add_def
        sem_answer_def by_task_def swrap_def int_max_value_t_def smax_values sem_max_def)
  then obtain h s where h: "history (sem_code 100 [2]) sem_phase sem_answer 2 (sem_start 100 1) h s"
    "commits h = [(Op_try_acquire, True), (Op_try_acquire, False), (Op_release 2, True)]"
    "by_task 1 h = [Call Op_try_acquire, Commit Op_try_acquire False, Return False]"
    "ctl s 1 = At sem_pc.Idle" "m_counter (vars s) = 2" by blast
  have "sem_arguments_ok 100 1" by (simp add: sem_arguments_ok_def sem_max_def int_max_value_t_def smax_values)
  from sem_linearizable[OF h(1) this] h show ?thesis by (auto simp: linearized_def)
qed

text \<open>C19. \<open>binary_semaphore\<close> is linearizable, as a semaphore of at most one permit: in every interleaving, each call of
  \<open>try_acquire\<close>, \<open>acquire\<close> and \<open>release\<close> takes effect at one moment between its call and its return and answers as it
  would on a number of permits between 0 and 1, which the flag holds.\<close>

theorem bsem_linearizable:
  assumes "history (bsem_code us) bsem_phase bsem_answer n (bsem_start d) h s" "bsem_arguments_ok d"
  shows "linearized (permits bsem_max) d h (bsem_permits (vars s)) (\<lambda>t. bsem_phase (ctl s t))"
proof -
  have "bsem_permits (bsem_init d) = d"
    using assms(2) by (auto simp: bsem_permits_def bsem_init_def bsem_arguments_ok_def)
  with bsem_lin.history_linearized[OF assms] show ?thesis by simp
qed

text \<open>The \<open>acquire\<close> of task 1 takes effect only after it was resumed by the \<open>release\<close> of task 0.\<close>

theorem bsem_linearizable_witness:
  "\<exists>h s. history (bsem_code [5]) bsem_phase bsem_answer 2 (bsem_start 0) h s
     \<and> commits h = [(Op_release 1, True), (Op_acquire, True)]
     \<and> object_run (permits bsem_max) 0 (commits h) = Some 0"
proof -
  have "\<exists>h s. history (bsem_code [5]) bsem_phase bsem_answer 2 (bsem_start 0) h s
      \<and> (commits h = [(Op_release 1, True), (Op_acquire, True)] \<and> \<not> m_available (vars s))"
    by (rule history_witness[where sched = "[(1,1),(1,0),(1,0),(1,0),(1,0),(1,0),
        (0,3),(0,0),(0,0),(0,0),(0,0),(0,0),(0,0),(1,0)]"])
      (simp add: run_simps bsem_init_def bsem_try_acquire_iff bsem_answer_def)
  then obtain h s where h: "history (bsem_code [5]) bsem_phase bsem_answer 2 (bsem_start 0) h s"
    "commits h = [(Op_release 1, True), (Op_acquire, True)]" "\<not> m_available (vars s)" by blast
  from bsem_linearizable[OF h(1)] h show ?thesis
    by (auto simp: linearized_def bsem_arguments_ok_def bsem_permits_def)
qed

text \<open>C4. \<open>mutex\<close> is linearizable: \<open>try_lock\<close> fails only when the lock is taken, \<open>lock\<close> and \<open>try_lock\<close>
  succeed only when it is free, and \<open>unlock\<close> always finds it taken.\<close>

theorem mutex_linearizable:
  assumes "history mutex_code mutex_phase mutex_answer n mutex_start h s"
  shows "linearized mutex_object False h (m_locked (vars s)) (\<lambda>t. mutex_phase (ctl s t))"
  using mutex_lin.history_linearized[OF assms TrueI] by (simp add: mutex_init_def)

text \<open>Task 0 holds the lock while task 1 tries it, and releases it.\<close>

theorem mutex_linearizable_witness:
  "\<exists>h s. history mutex_code mutex_phase mutex_answer 2 mutex_start h s
     \<and> commits h = [(Op_lock, True), (Op_try_lock, False), (Op_unlock, True)]
     \<and> object_run mutex_object False (commits h) = Some False"
proof -
  have "\<exists>h s. history mutex_code mutex_phase mutex_answer 2 mutex_start h s
      \<and> (commits h = [(Op_lock, True), (Op_try_lock, False), (Op_unlock, True)] \<and> \<not> m_locked (vars s))"
    by (rule history_witness[where sched = "[(0,1),(1,0),(0,0),(1,0),(0,0),(0,0),(0,0)]"])
      (simp add: run_simps mutex_init_def mutex_try_lock_iff mutex_answer_def)
  then obtain h s where h: "history mutex_code mutex_phase mutex_answer 2 mutex_start h s"
    "commits h = [(Op_lock, True), (Op_try_lock, False), (Op_unlock, True)]" "\<not> m_locked (vars s)" by blast
  from mutex_linearizable[OF h(1)] h show ?thesis by (auto simp: linearized_def)
qed

text \<open>C21. \<open>latch\<close> is linearizable: \<open>wait\<close> takes effect only at zero, \<open>try_wait\<close> says whether the counter is zero,
  and the counter is the initial count minus what the calls of \<open>count_down\<close> took from it.\<close>

theorem latch_linearizable:
  assumes "history (latch_code us) latch_phase latch_answer n (latch_start e) h s" "latch_arguments_ok e"
  shows "linearized latch_object e h (latch_counter (vars s)) (\<lambda>t. latch_phase (ctl s t))"
  using latch_lin.history_linearized[OF assms] by (simp add: latch_init_def)

text \<open>Task 1 waits; task 0 polls, arrives and waits, and is through first.\<close>

theorem latch_linearizable_witness:
  "\<exists>h s. history (latch_code [2]) latch_phase latch_answer 2 (latch_start 2) h s
     \<and> commits h = [(Op_poll, False), (Op_count_down 2, True), (Op_wait, True), (Op_wait, True)]
     \<and> object_run latch_object 2 (commits h) = Some 0"
proof -
  have "\<exists>h s. history (latch_code [2]) latch_phase latch_answer 2 (latch_start 2) h s
      \<and> (commits h = [(Op_poll, False), (Op_count_down 2, True), (Op_wait, True), (Op_wait, True)]
         \<and> latch_counter (vars s) = 0)"
    by (rule history_witness[where sched = "[(1,1),(1,0),(1,0),(1,0),(1,0),(1,0),(0,0),(0,0),
        (0,3),(0,0),(0,0),(0,0),(0,0),(0,0),(0,0),(0,0),(0,0),(1,0)]"])
      (simp add: run_simps latch_init_def latch_fetch_sub_def latch_try_wait_def latch_answer_def Let_def
        swrap_def after_count_down_def)
  then obtain h s where h: "history (latch_code [2]) latch_phase latch_answer 2 (latch_start 2) h s"
    "commits h = [(Op_poll, False), (Op_count_down 2, True), (Op_wait, True), (Op_wait, True)]"
    "latch_counter (vars s) = 0" by blast
  have "latch_arguments_ok 2" by (simp add: latch_arguments_ok_def latch_max_def smax_values)
  from latch_linearizable[OF h(1) this] h show ?thesis by (auto simp: linearized_def)
qed

end
