(* ===== verification/Linear_Atomics.thy ===== *)
theory Linear_Atomics
  imports Linearizability Atomic_Condition
begin

text \<open>
  \<open>atomic_flag\<close> and \<open>atomic_condition\<close> are linearizable. Their objects are a flag and a value; \<open>wait\<close> takes
  effect at a moment when the value differs from the one it was given. The notifications have no effect on the
  object, and a call whose memory order is not allowed never takes effect: its assertion fails.
\<close>

section \<open>\<open>atomic_flag\<close>\<close>

datatype flag_op = Op_clear | Op_test_and_set | Op_test | Op_store bool | Op_wait_flag bool

fun flag_object :: "(bool, flag_op, bool option) object" where
  "flag_object b Op_clear = Some (None, False)"
| "flag_object b Op_test_and_set = Some (Some b, True)"
| "flag_object b Op_test = Some (Some b, b)"
| "flag_object b (Op_store x) = Some (None, x)"
| "flag_object b (Op_wait_flag old) = (if b \<noteq> old then Some (None, b) else None)"

fun flag_point :: "flag_pc \<Rightarrow> (flag_op, bool option) phase" where
  "flag_point (Clear order) = (if clear_order_ok order then Pending Op_clear else Outside)"
| "flag_point (Test_and_set order) = Pending Op_test_and_set"
| "flag_point (Test order) = (if test_order_ok order then Pending Op_test else Outside)"
| "flag_point (F_wait old order) = (if test_order_ok order then Pending (Op_wait_flag old) else Outside)"
| "flag_point (F_loop old order) = Pending (Op_wait_flag old)"
| "flag_point (F_sleep old order) = Pending (Op_wait_flag old)"
| "flag_point (F_passed old) = Committed None"
| "flag_point (Tested b) = Committed (Some b)"
| "flag_point (Flag_reference b) = Pending (Op_store b)"
| "flag_point (Changed r) = Committed r"
| "flag_point _ = Outside"

definition flag_phase :: "flag_pc control \<Rightarrow> (flag_op, bool option) phase" where
  "flag_phase c = flag_point (pc_of c)"

text \<open>No operation takes effect and returns in one step.\<close>

definition flag_answer :: "flag_state \<Rightarrow> flag_pc control \<Rightarrow> flag_pc control \<Rightarrow> bool option" where
  "flag_answer v c c' = None"

lemma flag_point_enter: "flag_point (flag_enter null f) \<noteq> Committed r"
  by (cases f) (simp_all add: flag_enter_def)

lemma commits_as_call [simp]:
  "commits_as obj a Outside r a' p \<longleftrightarrow> a' = a \<and> (\<forall>r'. p \<noteq> Committed r')"
  by (cases p) auto

interpretation flag_lin: linearizable flag_code flag_init F_idle "\<lambda>_. True" "\<lambda>_ _. True" flag_object flag_value
  flag_phase flag_answer
proof unfold_locales
  show "commits_as flag_object (flag_value v) (flag_phase c) (flag_answer v c c') (flag_value v') (flag_phase c')"
    if "moves pc (flag_code pc) v c v' c'" for pc v c v' c'
    using that by (cases pc) (auto simp: flag_phase_def flag_point_enter flag_answer_def split: if_splits)
qed (auto simp: flag_phase_def elim!: flag_code_cases)

section \<open>\<open>atomic_condition\<close>\<close>

datatype 'a ac_op = Op_modify "'a \<Rightarrow> 'a" | Op_wait_change 'a

fun value_object :: "('a \<Rightarrow> 8 word list) \<Rightarrow> ('a, 'a ac_op, unit) object" where
  "value_object bytes x (Op_modify f) = Some ((), f x)"
| "value_object bytes x (Op_wait_change old) = (if \<not> same_bytes bytes x old then Some ((), x) else None)"

fun ac_point :: "'a ac_pc \<Rightarrow> ('a ac_op, unit) phase" where
  "ac_point (Wait i old order) =
     (if order = Release \<or> order = Acq_rel then Outside else Pending (Op_wait_change old))"
| "ac_point (Wait_loop i old) = Pending (Op_wait_change old)"
| "ac_point (Wait_sleep i old) = Pending (Op_wait_change old)"
| "ac_point (Passed i old) = Committed ()"
| "ac_point (Modify f) = Pending (Op_modify f)"
| "ac_point _ = Outside"

definition ac_phase :: "'a ac_pc control \<Rightarrow> ('a ac_op, unit) phase" where
  "ac_phase c = ac_point (pc_of c)"

definition ac_answer :: "'a atomic_value \<Rightarrow> 'a ac_pc control \<Rightarrow> 'a ac_pc control \<Rightarrow> unit" where
  "ac_answer v c c' = ()"

lemma ac_point_enter: "ac_point (ac_enter call) \<noteq> Committed ()"
proof -
  have "ac_point (on_object f p) \<noteq> Committed ()" if "\<And>i. ac_point (f i) \<noteq> Committed ()" for f :: "nat \<Rightarrow> 'a ac_pc" and p
    using that by (cases p) auto
  then show ?thesis by (cases call) simp_all
qed

interpretation ac_lin: linearizable "ac_code bytes wrappers calls" "\<lparr>m_value = x\<rparr>" Idle "\<lambda>_. True" "\<lambda>_ _. True"
  "value_object bytes" m_value ac_phase ac_answer for bytes wrappers calls x
proof unfold_locales
  show "commits_as (value_object bytes) (m_value v) (ac_phase c) (ac_answer v c c') (m_value v') (ac_phase c')"
    if "moves pc (ac_code bytes wrappers calls pc) v c v' c'" for pc v c v' c'
  proof (cases pc)
    case (Notify_all qs)
    with that show ?thesis by (cases qs) (auto simp: ac_phase_def)
  qed (use that in \<open>auto simp: ac_phase_def ac_point_enter ac_answer_def split: if_splits\<close>)
qed (auto simp: ac_phase_def elim!: ac_code_cases)

section \<open>Properties\<close>

text \<open>\<open>atomic_flag\<close> is linearizable: \<open>test_and_set\<close> and \<open>test\<close> answer the value of the flag when they took
  effect, and \<open>wait old\<close> takes effect only when the flag is not \<open>old\<close>.\<close>

theorem flag_linearizable:
  assumes "history flag_code flag_phase flag_answer n (init_sys flag_init F_idle) h s"
  shows "linearized flag_object False h (flag_value (vars s)) (\<lambda>t. flag_phase (ctl s t))"
  using flag_lin.history_linearized[OF assms TrueI] by (simp add: flag_init_def)

text \<open>Task 1 waits while the flag is false, task 0 sets it, and tests and sets it again.\<close>

theorem flag_linearizable_witness:
  "\<exists>h s. history flag_code flag_phase flag_answer 2 (init_sys flag_init F_idle) h s
     \<and> commits h = [(Op_test_and_set, Some False), (Op_wait_flag False, None), (Op_test_and_set, Some True)]
     \<and> object_run flag_object False (commits h) = Some True"
proof -
  have "\<exists>h s. history flag_code flag_phase flag_answer 2 (init_sys flag_init F_idle) h s
      \<and> (commits h = [(Op_test_and_set, Some False), (Op_wait_flag False, None), (Op_test_and_set, Some True)]
         \<and> flag_value (vars s))"
    by (rule history_witness[where sched = "[(1,19),(1,0),(1,0),(1,0),(1,0),(1,0),(1,0),
        (0,7),(0,0),(0,0),(0,0),(0,0),(0,0),(1,0),(0,7),(0,0)]"])
      (simp add: run_simps flag_init_def flag_phase_def flag_answer_def all_orders_def test_order_ok_def)
  then obtain h s where h: "history flag_code flag_phase flag_answer 2 (init_sys flag_init F_idle) h s"
    "commits h = [(Op_test_and_set, Some False), (Op_wait_flag False, None), (Op_test_and_set, Some True)]"
    "flag_value (vars s)" by blast
  from flag_linearizable[OF h(1)] h show ?thesis by (auto simp: linearized_def)
qed

text \<open>\<open>atomic_condition\<close> is linearizable: every modification takes effect once, and \<open>wait old\<close> returns only
  after a moment in which the representation of the value was not that of \<open>old\<close>.\<close>

theorem ac_linearizable:
  assumes "history (ac_code bytes wrappers calls) ac_phase ac_answer n (ac_start x) h s"
  shows "linearized (value_object bytes) x h (m_value (vars s)) (\<lambda>t. ac_phase (ctl s t))"
  using ac_lin.history_linearized[OF assms TrueI] by simp

text \<open>Task 1 sleeps while the value is 0, task 0 increments it.\<close>

theorem ac_linearizable_witness:
  "\<exists>h s. history (ac_code (\<lambda>x. [x]) [0] [Wait_call 0 0 Seq_cst, Modify_call (\<lambda>x. x + 1)]) ac_phase ac_answer 2
       (ac_start 0) h s
     \<and> map fst (commits h) = [Op_modify (\<lambda>x. x + 1), Op_wait_change 0]
     \<and> object_run (value_object (\<lambda>x. [x])) 0 (commits h) = Some 1"
proof -
  let ?c = "ac_code (\<lambda>x. [x]) [0] [Wait_call 0 0 Seq_cst, Modify_call (\<lambda>x. x + 1)]"
  have "\<exists>h s. history ?c ac_phase ac_answer 2 (ac_start 0) h s
      \<and> (commits h = [(Op_modify (\<lambda>x. x + 1), ()), (Op_wait_change 0, ())] \<and> m_value (vars s) = 1)"
    by (rule history_witness[where sched = "[(1,0),(1,0),(1,0),(1,0),(1,0),(1,0),(1,0),
        (0,1),(0,0),(0,0),(0,0),(0,0),(1,0)]"])
      (simp add: run_simps ac_phase_def ac_answer_def same_bytes_def)
  then obtain h s where h: "history ?c ac_phase ac_answer 2 (ac_start 0) h s"
    "commits h = [(Op_modify (\<lambda>x. x + 1), ()), (Op_wait_change 0, ())]" "m_value (vars s) = 1" by blast
  from ac_linearizable[OF h(1)] h show ?thesis by (auto simp: linearized_def)
qed

end
