(* ===== verification/Heap_Machine.thy ===== *)
theory Heap_Machine
  imports Wait_Queue
begin

text \<open>
  The whole library on the heap: the task machine again, with the pointer code of the wait queue in the place of
  its abstract queues. The node of a waiter is a local variable of the suspended task and is
  gone the moment the task is resumed; \<open>resume_n\<close> and \<open>resume_all\<close> pop the waiters they took one by one from a list
  of their own, while other tasks push to and pop from the queue. Proved, for every program and
  every interleaving: no pointer is ever followed to a node that is gone, no assertion of the list fails,
  \<open>resume\<close> is called on suspended tasks only, and every state of this machine stands for a reachable
  state of the task machine (and every reachable state is one of them), so all that is proved of the primitives
  over the task machine holds with the pointer code underneath.
\<close>

section \<open>State\<close>

text \<open>
  As \<open>control\<close>, with what a task that resumes others has in its hands: the list it pops from (\<open>H_popping\<close>), a node
  that it has popped and will read (\<open>H_holding\<close>, with the rest of its list, or none in \<open>resume_one\<close>), nothing more (\<open>H_done\<close>).
\<close>

datatype 'pc hcontrol =
    H_at 'pc
  | H_suspending 'pc | H_checking 'pc | H_pushing 'pc | H_self_resume 'pc | H_suspended 'pc
  | H_popping intrusive_list 'pc
  | H_holding addr "intrusive_list option" 'pc
  | H_done 'pc
  | H_fault fault

record ('v, 'q, 'pc) hsys =
  h_vars :: 'v
  h_heap :: "waiter_t heap"
  h_queue :: "'q \<Rightarrow> wait_queue"
  h_mutex :: "'q \<Rightarrow> tid option"
  h_ctl :: "tid \<Rightarrow> 'pc hcontrol"

definition heap_init :: "'v \<Rightarrow> 'pc \<Rightarrow> ('v, 'q, 'pc) hsys" where
  "heap_init v pc = \<lparr>h_vars = v, h_heap = Map.empty, h_queue = (\<lambda>_. wq_init), h_mutex = (\<lambda>_. None),
                     h_ctl = (\<lambda>_. H_at pc)\<rparr>"

abbreviation hgoto :: "('v, 'q, 'pc) hsys \<Rightarrow> tid \<Rightarrow> 'pc hcontrol \<Rightarrow> ('v, 'q, 'pc) hsys" where
  "hgoto hs t c \<equiv> hs\<lparr>h_ctl := (h_ctl hs)(t := c)\<rparr>"

section \<open>The critical sections\<close>

definition take_one :: "waiter_t heap \<Rightarrow> wait_queue \<Rightarrow> fault + waiter_t heap \<times> wait_queue \<times> addr option" where
  "take_one h q = and_then (pop_front h (wq_waiters q)) (\<lambda>(h', l, w). Inr (h', q\<lparr>wq_waiters := l\<rparr>, w))"

definition take_all :: "waiter_t heap \<Rightarrow> wait_queue \<Rightarrow> fault + waiter_t heap \<times> wait_queue \<times> intrusive_list" where
  "take_all h q =
     (let (to_resume, l) = il_swap il_empty (wq_waiters q) in
      and_then (il_is_empty h l) (\<lambda>b.
      and_then (require b (Assertion ''m_waiters.empty()'')) (\<lambda>_. Inr (h, q\<lparr>wq_waiters := l\<rparr>, to_resume))))"

definition take_some ::
  "nat \<Rightarrow> waiter_t heap \<Rightarrow> wait_queue \<Rightarrow> fault + waiter_t heap \<times> wait_queue \<times> intrusive_list"
where
  "take_some m h q =
     and_then (take_waiters pop_front push_back m h (wq_waiters q) il_empty) (\<lambda>(h', src, dst, resumed).
     Inr (h', q\<lparr>wq_waiters := src\<rparr>, dst))"

text \<open>A node is at the address that is the number of its task: a task waits in one queue at a time.\<close>

definition critical ::
  "('v, 'q, 'pc) hsys \<Rightarrow> tid \<Rightarrow> 'q \<Rightarrow> (fault + waiter_t heap \<times> wait_queue \<times> 'x) \<Rightarrow> ('x \<Rightarrow> 'pc hcontrol)
    \<Rightarrow> ('v, 'q, 'pc) hsys"
where
  "critical hs t q r f = (case r of
     Inl e \<Rightarrow> hgoto hs t (H_fault e)
   | Inr (h, wq, x) \<Rightarrow> hs\<lparr>h_heap := h, h_queue := (h_queue hs)(q := wq), h_ctl := (h_ctl hs)(t := f x)\<rparr>)"

section \<open>Steps\<close>

definition heap_at ::
  "('v, 'q, 'pc) instr \<Rightarrow> nat \<Rightarrow> tid \<Rightarrow> 'pc \<Rightarrow> ('v, 'q, 'pc) hsys \<Rightarrow> ('v, 'q, 'pc) hsys option"
where
  "heap_at i c t pc hs = (case i of
     Atomic f \<Rightarrow>
       (let os = f (h_vars hs) in
        if c < length os then Some (hgoto (hs\<lparr>h_vars := fst (os ! c)\<rparr>) t (H_at (snd (os ! c)))) else None)
   | Wait_if q pred k \<Rightarrow>
       (let r = pred (h_vars hs) in
        Some (if snd r
              then hgoto (hs\<lparr>h_vars := fst r, h_heap := (h_heap hs)(t \<mapsto> new_node None)\<rparr>) t (H_suspending pc)
              else hgoto (hs\<lparr>h_vars := fst r\<rparr>) t (H_at k)))
   | Resume_one q k \<Rightarrow>
       (if h_mutex hs q = None
        then Some (critical hs t q (take_one (h_heap hs) (h_queue hs q))
               (\<lambda>w. case w of None \<Rightarrow> H_at (k False) | Some a \<Rightarrow> H_holding a None (k True)))
        else None)
   | Resume_n q m k \<Rightarrow>
       (if m = 0 then Some (hgoto hs t (H_at k))
        else if h_mutex hs q = None
        then Some (critical hs t q (take_some m (h_heap hs) (h_queue hs q)) (\<lambda>l. H_popping l k))
        else None)
   | Resume_all q k \<Rightarrow>
       (if h_mutex hs q = None
        then Some (critical hs t q (take_all (h_heap hs) (h_queue hs q)) (\<lambda>l. H_popping l k))
        else None))"

definition heap_stage ::
  "('v, 'q, 'pc) instr \<Rightarrow> tid \<Rightarrow> ('v, 'q, 'pc) hsys \<Rightarrow> ('v, 'q, 'pc) hsys option"
where
  "heap_stage i t hs = (case i of
     Wait_if q pred k \<Rightarrow>
       (case h_ctl hs t of
          H_suspending pc \<Rightarrow>
            (if h_mutex hs q = None
             then Some (hgoto (hs\<lparr>h_mutex := (h_mutex hs)(q := Some t)\<rparr>) t (H_checking pc))
             else None)
        | H_checking pc \<Rightarrow>
            (let r = pred (h_vars hs) in
             if snd r then Some (hgoto (hs\<lparr>h_vars := fst r\<rparr>) t (H_pushing pc))
             else Some (hgoto (hs\<lparr>h_vars := fst r, h_mutex := (h_mutex hs)(q := None)\<rparr>) t (H_self_resume pc)))
        | H_pushing pc \<Rightarrow>
            Some (critical (hs\<lparr>h_mutex := (h_mutex hs)(q := None)\<rparr>) t q
              (and_then (wq_enqueue (Some t) t (h_heap hs) (h_queue hs q)) (\<lambda>(h, wq). Inr (h, wq, ())))
              (\<lambda>_. H_suspended pc))
        | H_self_resume pc \<Rightarrow> Some (hgoto (hs\<lparr>h_heap := release t (h_heap hs)\<rparr>) t (H_at k))
        | _ \<Rightarrow> None)
   | _ \<Rightarrow> None)"

text \<open>The loop of \<open>do_resume_all\<close>, in two steps: the pop, and \<open>tbb::task::resume(waiter->value)\<close>.\<close>

definition heap_pop :: "tid \<Rightarrow> intrusive_list \<Rightarrow> 'pc \<Rightarrow> ('v, 'q, 'pc) hsys \<Rightarrow> ('v, 'q, 'pc) hsys" where
  "heap_pop t l k hs = (case pop_front (h_heap hs) l of
     Inl e \<Rightarrow> hgoto hs t (H_fault e)
   | Inr (h, l', w) \<Rightarrow>
       hgoto (hs\<lparr>h_heap := h\<rparr>) t (case w of None \<Rightarrow> H_at k | Some a \<Rightarrow> H_holding a (Some l') k))"

fun after_resume :: "intrusive_list option \<Rightarrow> 'pc \<Rightarrow> 'pc hcontrol" where
  "after_resume None k = H_done k"
| "after_resume (Some l) k = H_popping l k"

definition bad_resume :: fault where
  "bad_resume = Assertion ''tbb::task::resume''"

definition heap_resume ::
  "('pc \<Rightarrow> ('v, 'q, 'pc) instr) \<Rightarrow> tid \<Rightarrow> addr \<Rightarrow> intrusive_list option \<Rightarrow> 'pc \<Rightarrow> ('v, 'q, 'pc) hsys
    \<Rightarrow> ('v, 'q, 'pc) hsys"
where
  "heap_resume code t a r k hs = (case deref (h_heap hs) a of
     Inl e \<Rightarrow> hgoto hs t (H_fault e)
   | Inr nd \<Rightarrow> (case node_value nd of
       None \<Rightarrow> hgoto hs t (H_fault bad_resume)
     | Some w \<Rightarrow> (case h_ctl hs w of
         H_suspended pc \<Rightarrow> (case code pc of
           Wait_if q pred k' \<Rightarrow>
             hs\<lparr>h_heap := release w (h_heap hs), h_ctl := (h_ctl hs)(w := H_at k', t := after_resume r k)\<rparr>
         | _ \<Rightarrow> hgoto hs t (H_fault bad_resume))
       | _ \<Rightarrow> hgoto hs t (H_fault bad_resume))))"

definition heap_step ::
  "('pc \<Rightarrow> ('v, 'q, 'pc) instr) \<Rightarrow> nat \<Rightarrow> nat \<Rightarrow> tid \<Rightarrow> ('v, 'q, 'pc) hsys \<Rightarrow> ('v, 'q, 'pc) hsys option"
where
  "heap_step code n c t hs =
     (if t < n then
        (case h_ctl hs t of
           H_at pc \<Rightarrow> heap_at (code pc) c t pc hs
         | H_suspending pc \<Rightarrow> heap_stage (code pc) t hs
         | H_checking pc \<Rightarrow> heap_stage (code pc) t hs
         | H_pushing pc \<Rightarrow> heap_stage (code pc) t hs
         | H_self_resume pc \<Rightarrow> heap_stage (code pc) t hs
         | H_suspended pc \<Rightarrow> None
         | H_popping l k \<Rightarrow> Some (heap_pop t l k hs)
         | H_holding a r k \<Rightarrow> Some (heap_resume code t a r k hs)
         | H_done k \<Rightarrow> Some (hgoto hs t (H_at k))
         | H_fault e \<Rightarrow> None)
      else None)"

inductive heap_reach ::
  "('pc \<Rightarrow> ('v, 'q, 'pc) instr) \<Rightarrow> nat \<Rightarrow> ('v, 'q, 'pc) hsys \<Rightarrow> ('v, 'q, 'pc) hsys \<Rightarrow> bool"
  for code :: "'pc \<Rightarrow> ('v, 'q, 'pc) instr" and n :: nat and h0 :: "('v, 'q, 'pc) hsys"
where
  heap_reach_init: "heap_reach code n h0 h0"
| heap_reach_step: "heap_reach code n h0 hs \<Longrightarrow> heap_step code n c t hs = Some hs' \<Longrightarrow> heap_reach code n h0 hs'"

section \<open>What a heap stands for\<close>

definition node_ok :: "waiter_t heap \<Rightarrow> addr \<Rightarrow> bool" where
  "node_ok h a \<longleftrightarrow> map_option node_value (h a) = Some (Some a)"

text \<open>A pointer list that holds the nodes of these tasks, each with the suspend point of its task.\<close>

definition listed :: "waiter_t heap \<Rightarrow> intrusive_list \<Rightarrow> tid list \<Rightarrow> bool" where
  "listed h l ts \<longleftrightarrow> represents h l ts \<and> (\<forall>t\<in>set ts. node_ok h t)"

fun stands_control :: "waiter_t heap \<Rightarrow> tid \<Rightarrow> 'pc hcontrol \<Rightarrow> 'pc control \<Rightarrow> bool" where
  "stands_control h t (H_at pc) c \<longleftrightarrow> c = At pc"
| "stands_control h t (H_suspending pc) c \<longleftrightarrow> c = Suspending pc \<and> detached h t"
| "stands_control h t (H_checking pc) c \<longleftrightarrow> c = Checking pc \<and> detached h t"
| "stands_control h t (H_pushing pc) c \<longleftrightarrow> c = Pushing pc \<and> detached h t"
| "stands_control h t (H_self_resume pc) c \<longleftrightarrow> c = Self_resume pc"
| "stands_control h t (H_suspended pc) c \<longleftrightarrow> c = Suspended pc"
| "stands_control h t (H_popping l k) c \<longleftrightarrow> (\<exists>ws. c = Resuming ws k \<and> listed h l ws)"
| "stands_control h t (H_holding a None k) c \<longleftrightarrow> c = Resuming [a] k \<and> node_ok h a"
| "stands_control h t (H_holding a (Some l) k) c \<longleftrightarrow>
     (\<exists>ws. c = Resuming (a # ws) k \<and> node_ok h a \<and> listed h l ws)"
| "stands_control h t (H_done k) c \<longleftrightarrow> c = Resuming [] k"
| "stands_control h t (H_fault e) c \<longleftrightarrow> False"

definition stands_for :: "('v, 'q, 'pc) hsys \<Rightarrow> ('v, 'q, 'pc) sys \<Rightarrow> bool" where
  "stands_for hs s \<longleftrightarrow> h_vars hs = vars s \<and> h_mutex hs = m_waiters_mutex s
     \<and> (\<forall>q. listed (h_heap hs) (wq_waiters (h_queue hs q)) (m_waiters s q))
     \<and> (\<forall>t. stands_control (h_heap hs) t (h_ctl hs t) (ctl s t))"

lemma node_ok_frame: "node_ok h a \<Longrightarrow> h' a = h a \<Longrightarrow> node_ok h' a"
  by (simp add: node_ok_def)

lemma listed_frame: "listed h l ts \<Longrightarrow> (\<And>a. a \<in> set ts \<Longrightarrow> h' a = h a) \<Longrightarrow> listed h' l ts"
  unfolding listed_def using represents_frame[of h l ts h'] node_ok_frame by metis

lemma listed_empty [simp]: "listed h il_empty []"
  by (simp add: listed_def represents_empty)

lemma stands_control_frame:
  assumes "stands_control h t hc c" "(\<And>pc. c \<noteq> Suspended pc) \<Longrightarrow> h' t = h t" "\<And>a. a \<in> set (popped c) \<Longrightarrow> h' a = h a"
  shows "stands_control h' t hc c"
  using assms listed_frame[of h _ _ h'] node_ok_frame[of h _ h']
  by (cases "(h, t, hc, c)" rule: stands_control.cases) (auto simp: detached_def)

lemma stands_init: "stands_for (heap_init v pc) (init_sys v pc)"
  by (simp add: stands_for_def heap_init_def init_sys_def wq_init_def)

section \<open>The pointer code on lists of tasks\<close>

lemma node_ok_same: "same_values h h' \<Longrightarrow> node_ok h a \<Longrightarrow> node_ok h' a"
  by (simp add: node_ok_def same_values_def)

lemma pop_listed_nil: "listed h l [] \<Longrightarrow> pop_front h l = Inr (h, l, None)"
  by (simp add: listed_def pop_front_nil)

lemma pop_listed:
  assumes "listed h l (a # ts)"
  obtains h' l' where "pop_front h l = Inr (h', l', Some a)" "listed h' l' ts" "node_ok h' a"
    "\<And>b. b \<noteq> a \<Longrightarrow> h' b = h b"
proof -
  from assms pop_front_cons[of h l a ts] obtain h' l' where p: "pop_front h l = Inr (h', l', Some a)"
    "represents h' l' ts" "same_values h h'" "\<forall>b. b \<noteq> a \<longrightarrow> h' b = h b" by (auto simp: listed_def)
  from assms node_ok_same[OF p(3)] have "node_ok h' a" "\<forall>t\<in>set ts. node_ok h' t"
    by (auto simp: listed_def)
  with p show thesis by (intro that[of h' l']) (auto simp: listed_def)
qed

lemma take_one_listed:
  assumes "listed h (wq_waiters q) ts"
  obtains h' q' where "take_one h q = Inr (h', q', if ts = [] then None else Some (hd ts))"
    "listed h' (wq_waiters q') (tl ts)" "ts = [] \<or> node_ok h' (hd ts)" "\<And>b. b \<notin> set ts \<Longrightarrow> h' b = h b"
proof (cases ts)
  case Nil
  with assms pop_listed_nil[of h "wq_waiters q"] show thesis
    by (intro that[of h "q\<lparr>wq_waiters := wq_waiters q\<rparr>"]) (simp_all add: take_one_def)
next
  case (Cons a as)
  with assms obtain h' l' where "pop_front h (wq_waiters q) = Inr (h', l', Some a)" "listed h' l' as" "node_ok h' a"
    "\<And>b. b \<noteq> a \<Longrightarrow> h' b = h b" by (auto elim: pop_listed)
  with Cons show thesis by (intro that[of h' "q\<lparr>wq_waiters := l'\<rparr>"]) (simp_all add: take_one_def)
qed

lemma take_some_listed:
  assumes "listed h (wq_waiters q) ts"
  obtains h' q' l where "take_some m h q = Inr (h', q', l)" "listed h' (wq_waiters q') (drop m ts)"
    "listed h' l (take m ts)" "\<And>b. b \<notin> set ts \<Longrightarrow> h' b = h b"
proof -
  from assms il.take_waiters_ok[of h "wq_waiters q" ts il_empty "[]" m] obtain h' src dst where
    p: "take_waiters pop_front push_back m h (wq_waiters q) il_empty = Inr (h', src, dst, int (min m (length ts)))"
      "represents h' src (drop m ts)" "represents h' dst (take m ts)" "same_values h h'"
      "\<forall>b. b \<notin> set ts \<longrightarrow> h' b = h b"
    by (auto simp: listed_def represents_empty)
  from assms node_ok_same[OF p(4)] have "\<forall>t\<in>set ts. node_ok h' t" by (auto simp: listed_def)
  with p show thesis
    by (intro that[of h' "q\<lparr>wq_waiters := src\<rparr>" dst])
      (auto simp: take_some_def listed_def dest: in_set_takeD in_set_dropD)
qed

lemma take_all_listed:
  assumes "listed h (wq_waiters q) ts"
  obtains q' l where "take_all h q = Inr (h, q', l)" "listed h (wq_waiters q') []" "listed h l ts"
proof -
  obtain x l where sw: "il_swap il_empty (wq_waiters q) = (x, l)" by (cases "il_swap il_empty (wq_waiters q)") auto
  from assms il_swap_spec[OF represents_empty _ sw, of h ts] have xl: "represents h x ts" "represents h l []"
    by (auto simp: listed_def)
  with sw il_is_empty_spec[OF xl(2)] assms show thesis
    by (intro that[of "q\<lparr>wq_waiters := l\<rparr>" x]) (auto simp: take_all_def listed_def)
qed

lemma enqueue_listed:
  assumes "listed h (wq_waiters q) ts" "detached h t" "t \<notin> set ts"
  obtains h' q' where "wq_enqueue (Some t) t h q = Inr (h', q')" "listed h' (wq_waiters q') (ts @ [t])"
    "\<And>b. b \<notin> insert t (set ts) \<Longrightarrow> h' b = h b"
proof -
  have "map (value_at h) ts = map Some ts" using assms(1) by (auto simp: listed_def node_ok_def value_at_def)
  with assms(1) have "queue_of h q ts (map Some ts)" by (simp add: queue_of_def listed_def)
  from wq_enqueue_ok[OF this assms(2,3), of "Some t"] obtain h' q' where p: "wq_enqueue (Some t) t h q = Inr (h', q')"
    "queue_of h' q' (ts @ [t]) (map Some (ts @ [t]))" "\<forall>b. b \<notin> insert t (set ts) \<longrightarrow> h' b = h b" by auto
  then have r: "represents h' (wq_waiters q') (ts @ [t])" "map Some (ts @ [t]) = map (value_at h') (ts @ [t])"
    by (simp_all add: queue_of_def)
  then have "node_ok h' b" if "b \<in> set (ts @ [t])" for b
    using represents_alloc[OF r(1) that] that by (auto simp: node_ok_def value_at_def)
  with p r show thesis by (intro that[of h' q']) (auto simp: listed_def)
qed

section \<open>The simulation\<close>

text \<open>The nodes that a step of \<open>t\<close> on queue \<open>q\<close> may touch are in nobody else's hands.\<close>

lemma touched_apart:
  assumes "wf code n s" "sleeps_on code (ctl s t) = None"
    and "\<And>b. b \<noteq> t \<Longrightarrow> b \<notin> set (popped (ctl s t)) \<Longrightarrow> b \<notin> set (m_waiters s q) \<Longrightarrow> h' b = h b"
  shows "q' \<noteq> q \<Longrightarrow> listed h l (m_waiters s q') \<Longrightarrow> listed h' l (m_waiters s q')"
    and "u \<noteq> t \<Longrightarrow> stands_control h u hc (ctl s u) \<Longrightarrow> stands_control h' u hc (ctl s u)"
proof -
  from assms(1) have Q: "wf_queued code s" and P: "wf_popped code s" and A: "wf_apart s" and O: "wf_once s"
    and S: "wf_stage code s" by (auto simp: wf_def)
  note t = awake_not_queued[OF Q assms(2)] awake_not_popped[OF P assms(2)]
  show "listed h' l (m_waiters s q')" if q': "q' \<noteq> q" and l: "listed h l (m_waiters s q')"
  proof (rule listed_frame[OF l])
    fix b assume b: "b \<in> set (m_waiters s q')"
    from queuedD[OF Q b] queuedD[OF Q, of b q] q' have "b \<notin> set (m_waiters s q)" by auto
    with b apartD2[OF A b] t show "h' b = h b" by (intro assms(3)) auto
  qed
  show "stands_control h' u hc (ctl s u)" if u: "u \<noteq> t" and c: "stands_control h u hc (ctl s u)"
  proof (rule stands_control_frame[OF c])
    assume "\<And>pc. ctl s u \<noteq> Suspended pc"
    then have "sleeps_on code (ctl s u) = None" by (cases "ctl s u") auto
    with u awake_not_queued[OF Q] awake_not_popped[OF P] show "h' u = h u" by (intro assms(3)) auto
  next
    fix b assume b: "b \<in> set (popped (ctl s u))"
    show "h' b = h b"
    proof (rule assms(3))
      show "b \<noteq> t" using b t(2)[of u] by blast
      show "b \<notin> set (popped (ctl s t))" using onceD[OF O b, of t] u by blast
      show "b \<notin> set (m_waiters s q)" by (rule apartD[OF A b])
    qed
  qed
qed

lemma stands_step:
  assumes st: "stands_for hs s" and wf: "wf code n s" and aw: "sleeps_on code (ctl s t) = None"
    and v: "h_vars hs' = vars s'" "h_mutex hs' = m_waiters_mutex s'"
    and fr: "\<And>b. b \<noteq> t \<Longrightarrow> b \<notin> set (popped (ctl s t)) \<Longrightarrow> b \<notin> set (m_waiters s q) \<Longrightarrow> h_heap hs' b = h_heap hs b"
    and qs: "\<And>q'. q' \<noteq> q \<Longrightarrow> h_queue hs' q' = h_queue hs q' \<and> m_waiters s' q' = m_waiters s q'"
    and q: "listed (h_heap hs') (wq_waiters (h_queue hs' q)) (m_waiters s' q)"
    and cs: "\<And>u. u \<noteq> t \<Longrightarrow> h_ctl hs' u = h_ctl hs u \<and> ctl s' u = ctl s u
      \<or> stands_control (h_heap hs') u (h_ctl hs' u) (ctl s' u)"
    and c: "stands_control (h_heap hs') t (h_ctl hs' t) (ctl s' t)"
  shows "stands_for hs' s'"
  unfolding stands_for_def
proof (intro conjI allI)
  show "listed (h_heap hs') (wq_waiters (h_queue hs' q')) (m_waiters s' q')" for q'
  proof (cases "q' = q")
    case False
    have "listed (h_heap hs) (wq_waiters (h_queue hs q')) (m_waiters s q')" using st by (simp add: stands_for_def)
    from touched_apart(1)[OF wf aw fr False this] qs[OF False] show ?thesis by simp
  qed (use q in simp)
  show "stands_control (h_heap hs') u (h_ctl hs' u) (ctl s' u)" for u
  proof (cases "u = t")
    case False
    have "stands_control (h_heap hs) u (h_ctl hs u) (ctl s u)" using st by (simp add: stands_for_def)
    from touched_apart(2)[OF wf aw fr False this] cs[OF False] show ?thesis by auto
  qed (use c in simp)
qed (fact v)+

text \<open>A step that leaves the queues alone.\<close>

lemma stands_quiet:
  assumes st: "stands_for hs s" and wf: "wf code n s" and aw: "sleeps_on code (ctl s t) = None"
    and "h_vars hs' = vars s'" "h_mutex hs' = m_waiters_mutex s'"
    and fr: "\<And>b. b \<noteq> t \<Longrightarrow> b \<notin> set (popped (ctl s t)) \<Longrightarrow> h_heap hs' b = h_heap hs b"
    and qs: "h_queue hs' = h_queue hs" "m_waiters s' = m_waiters s"
    and "\<And>u. u \<noteq> t \<Longrightarrow> h_ctl hs' u = h_ctl hs u \<and> ctl s' u = ctl s u
      \<or> stands_control (h_heap hs') u (h_ctl hs' u) (ctl s' u)"
    and "stands_control (h_heap hs') t (h_ctl hs' t) (ctl s' t)"
  shows "stands_for hs' s'"
proof -
  from wf have W: "wf_queued code s" "wf_apart s" by (simp_all add: wf_def)
  have "h_heap hs' b = h_heap hs b" if "b \<in> set (m_waiters s undefined)" for b
    using that apartD2[OF W(2) that] awake_not_queued[OF W(1) aw] by (intro fr) auto
  then have "listed (h_heap hs') (wq_waiters (h_queue hs' undefined)) (m_waiters s' undefined)"
    using st listed_frame[of "h_heap hs" _ "m_waiters s undefined" "h_heap hs'"] qs by (simp add: stands_for_def)
  with assms show ?thesis by (intro stands_step[OF st wf aw, of hs' s' undefined]) auto
qed

lemma stands_at:
  assumes st: "stands_for hs s" and wf: "wf code n s" and t: "t < n" "ctl s t = At pc"
  shows "rel_option stands_for (heap_at (code pc) c t pc hs) (exec_at (code pc) c t pc s)"
proof -
  have aw: "sleeps_on code (ctl s t) = None" using t by simp
  have eq: "h_vars hs = vars s" "h_mutex hs = m_waiters_mutex s"
    and l: "\<And>q. listed (h_heap hs) (wq_waiters (h_queue hs q)) (m_waiters s q)"
    using st by (simp_all add: stands_for_def)
  note quiet = stands_quiet[OF st wf aw] and step = stands_step[OF st wf aw]
  show ?thesis
  proof (cases "code pc")
    case (Atomic f)
    then show ?thesis by (auto simp: heap_at_def exec_at_def eq Let_def intro!: quiet)
  next
    case (Wait_if q pred k)
    then show ?thesis
      by (auto simp: heap_at_def exec_at_def eq Let_def detached_def new_node_def intro!: quiet)
  next
    case (Resume_one q k)
    obtain h' wq where p: "take_one (h_heap hs) (h_queue hs q)
          = Inr (h', wq, if m_waiters s q = [] then None else Some (hd (m_waiters s q)))"
      "listed h' (wq_waiters wq) (tl (m_waiters s q))" "m_waiters s q = [] \<or> node_ok h' (hd (m_waiters s q))"
      "\<And>b. b \<notin> set (m_waiters s q) \<Longrightarrow> h' b = h_heap hs b"
      using take_one_listed[OF l[of q]] by blast
    with Resume_one show ?thesis
      by (cases "m_waiters s q") (auto simp: heap_at_def exec_at_def eq critical_def intro!: step[of _ _ q])
  next
    case (Resume_n q m k)
    obtain h' wq dst where p: "take_some m (h_heap hs) (h_queue hs q) = Inr (h', wq, dst)"
      "listed h' (wq_waiters wq) (drop m (m_waiters s q))" "listed h' dst (take m (m_waiters s q))"
      "\<And>b. b \<notin> set (m_waiters s q) \<Longrightarrow> h' b = h_heap hs b"
      using take_some_listed[OF l[of q]] by blast
    show ?thesis
    proof (cases "m = 0")
      case True
      with Resume_n show ?thesis by (auto simp: heap_at_def exec_at_def intro!: quiet simp: eq)
    next
      case False
      with Resume_n p show ?thesis
        by (auto simp: heap_at_def exec_at_def eq critical_def intro!: step[of _ _ q])
    qed
  next
    case (Resume_all q k)
    obtain wq dst where "take_all (h_heap hs) (h_queue hs q) = Inr (h_heap hs, wq, dst)"
      "listed (h_heap hs) (wq_waiters wq) []" "listed (h_heap hs) dst (m_waiters s q)"
      using take_all_listed[OF l[of q]] by blast
    with Resume_all show ?thesis
      by (auto simp: heap_at_def exec_at_def eq critical_def intro!: step[of _ _ q])
  qed
qed

lemma stands_stage:
  assumes st: "stands_for hs s" and wf: "wf code n s"
    and t: "h_ctl hs t \<in> {H_suspending pc, H_checking pc, H_pushing pc, H_self_resume pc}"
  shows "rel_option stands_for (heap_stage (code pc) t hs) (exec_stage (code pc) t s)"
proof -
  have eq: "h_vars hs = vars s" "h_mutex hs = m_waiters_mutex s"
    and l: "\<And>q. listed (h_heap hs) (wq_waiters (h_queue hs q)) (m_waiters s q)"
    and ct: "stands_control (h_heap hs) t (h_ctl hs t) (ctl s t)"
    using st by (simp_all add: stands_for_def)
  have aw: "sleeps_on code (ctl s t) = None" using t ct by auto
  note quiet = stands_quiet[OF st wf aw] and step = stands_step[OF st wf aw]
  show ?thesis
  proof (cases "code pc")
    case (Wait_if q pred k)
    from t show ?thesis
    proof (elim insertE emptyE)
      assume h: "h_ctl hs t = H_pushing pc"
      have c: "ctl s t = Pushing pc" and d: "detached (h_heap hs) t" using ct h by simp_all
      have "t \<notin> set (m_waiters s q)" using wf awake_not_queued[OF _ aw] by (simp add: wf_def)
      with enqueue_listed[OF l[of q] d] obtain h' wq where
        "wq_enqueue (Some t) t (h_heap hs) (h_queue hs q) = Inr (h', wq)" "listed h' (wq_waiters wq) (m_waiters s q @ [t])"
        "\<And>b. b \<notin> insert t (set (m_waiters s q)) \<Longrightarrow> h' b = h_heap hs b" by blast
      with Wait_if h c show ?thesis
        by (auto simp: heap_stage_def exec_stage_def eq critical_def intro!: step[of _ _ q])
    next
      assume h: "h_ctl hs t = H_self_resume pc"
      with Wait_if ct show ?thesis
        by (auto simp: heap_stage_def exec_stage_def eq release_def intro!: quiet)
    qed (use Wait_if ct in \<open>auto simp: heap_stage_def exec_stage_def eq Let_def intro!: quiet\<close>)
  qed (auto simp: heap_stage_def exec_stage_def)
qed

text \<open>A resume that is due: the node is there, its task is asleep, and nobody reads the node again.\<close>

lemma stands_resume:
  assumes st: "stands_for hs s" and wf: "wf code n s" and h: "h_ctl hs t = H_holding a r k"
  shows "\<exists>ws. ctl s t = Resuming (a # ws) k
    \<and> rel_option stands_for (Some (heap_resume code t a r k hs)) (exec_resume code t (a # ws) k s)"
proof -
  have eq: "h_vars hs = vars s" "h_mutex hs = m_waiters_mutex s"
    and ct: "stands_control (h_heap hs) t (h_ctl hs t) (ctl s t)" using st by (simp_all add: stands_for_def)
  from ct h obtain ws where c: "ctl s t = Resuming (a # ws) k" and a: "node_ok (h_heap hs) a"
    and r: "r = None \<and> ws = [] \<or> (\<exists>l. r = Some l \<and> listed (h_heap hs) l ws)" by (cases r) auto
  have aw: "sleeps_on code (ctl s t) = None" using c by simp
  from resume_target[OF wf c] obtain pc q pred k' where w: "ctl s a = Suspended pc" "code pc = Wait_if q pred k'"
    by blast
  have "stands_control (h_heap hs) a (h_ctl hs a) (ctl s a)" using st by (simp add: stands_for_def)
  with w(1) have hw: "h_ctl hs a = H_suspended pc"
    by (cases "(h_heap hs, a, h_ctl hs a, ctl s a)" rule: stands_control.cases) auto
  from a obtain nd where nd: "h_heap hs a = Some nd" "node_value nd = Some a" by (auto simp: node_ok_def)
  have "a \<notin> set ws" using resume_target_unique(1)[OF wf c] .
  then have "listed (release a (h_heap hs)) l ws" if "listed (h_heap hs) l ws" for l
    by (intro listed_frame[OF that]) (auto simp: release_def)
  then have rest: "stands_control (release a (h_heap hs)) t (after_resume r k) (Resuming ws k)"
    using r by auto
  have "a \<noteq> t" using w c by auto
  with c w hw nd rest have "rel_option stands_for (Some (heap_resume code t a r k hs)) (exec_resume code t (a # ws) k s)"
    by (auto simp: heap_resume_def exec_resume_def deref_def eq release_def intro!: stands_quiet[OF st wf aw])
  with c show ?thesis by blast
qed

text \<open>The pop of \<open>do_resume_all\<close>: the end of the loop, or a step that the task machine does not see.\<close>

lemma stands_pop:
  assumes st: "stands_for hs s" and wf: "wf code n s" and h: "h_ctl hs t = H_popping l k"
  shows "(ctl s t = Resuming [] k \<and> stands_for (heap_pop t l k hs) (goto s t (At k)))
    \<or> (stands_for (heap_pop t l k hs) s \<and> (\<exists>a r. h_ctl (heap_pop t l k hs) t = H_holding a r k))"
proof -
  have eq: "h_vars hs = vars s" "h_mutex hs = m_waiters_mutex s"
    and ct: "stands_control (h_heap hs) t (h_ctl hs t) (ctl s t)" using st by (simp_all add: stands_for_def)
  from ct h obtain ws where c: "ctl s t = Resuming ws k" and l: "listed (h_heap hs) l ws" by auto
  have aw: "sleeps_on code (ctl s t) = None" using c by simp
  note quiet = stands_quiet[OF st wf aw]
  show ?thesis
  proof (cases ws)
    case Nil
    with l have "pop_front (h_heap hs) l = Inr (h_heap hs, l, None)" by (simp add: pop_listed_nil)
    with c Nil show ?thesis by (auto simp: heap_pop_def eq intro!: quiet)
  next
    case (Cons a ts)
    with l obtain h' l' where "pop_front (h_heap hs) l = Inr (h', l', Some a)" "listed h' l' ts" "node_ok h' a"
      "\<And>b. b \<noteq> a \<Longrightarrow> h' b = h_heap hs b" using pop_listed by blast
    with c Cons have "stands_for (heap_pop t l k hs) s" by (auto simp: heap_pop_def eq intro!: quiet)
    with \<open>pop_front (h_heap hs) l = Inr (h', l', Some a)\<close> show ?thesis by (simp add: heap_pop_def)
  qed
qed

lemma stands_forD:
  assumes "stands_for hs s"
  shows "stands_control (h_heap hs) t (h_ctl hs t) (ctl s t)"
  using assms by (simp add: stands_for_def)

text \<open>A step of the heap machine is a step of the task machine, or the pop of a node that is resumed next.\<close>

lemma heap_step_sim:
  assumes st: "stands_for hs s" and wf: "wf code n s"
  shows "rel_option stands_for (heap_step code n c t hs) (exec_step code n c t s)
    \<or> (\<exists>hs' a r k. heap_step code n c t hs = Some hs' \<and> stands_for hs' s \<and> h_ctl hs' t = H_holding a r k)"
proof (cases "t < n")
  case True
  note ct = stands_forD[OF st, of t]
  show ?thesis
  proof (cases "h_ctl hs t")
    case (H_at pc)
    with ct stands_at[OF st wf True, of pc c] True show ?thesis by (simp add: heap_step_def exec_step_def)
  next
    case (H_holding a r k)
    from stands_resume[OF st wf H_holding] H_holding True show ?thesis
      by (auto simp: heap_step_def exec_step_def)
  next
    case (H_popping l k)
    from stands_pop[OF st wf H_popping] H_popping True show ?thesis
      by (auto simp: heap_step_def exec_step_def exec_resume_def)
  next
    case (H_done k)
    have aw: "sleeps_on code (ctl s t) = None" using H_done ct by simp
    have "stands_for (hgoto hs t (H_at k)) (goto s t (At k))"
      using st by (intro stands_quiet[OF st wf aw]) (auto simp: stands_for_def)
    with H_done ct True show ?thesis by (simp add: heap_step_def exec_step_def exec_resume_def)
  qed (use ct True stands_stage[OF st wf] in \<open>auto simp: heap_step_def exec_step_def\<close>)
qed (simp add: heap_step_def exec_step_def)

lemma heap_reach_trans: "heap_reach code n h1 h2 \<Longrightarrow> heap_reach code n h0 h1 \<Longrightarrow> heap_reach code n h0 h2"
  by (induction rule: heap_reach.induct) (auto intro: heap_reach_step)

lemma heap_reach_stands:
  "heap_reach code n (heap_init v pc) hs \<Longrightarrow> \<exists>s. reach code n (init_sys v pc) s \<and> stands_for hs s"
proof (induction rule: heap_reach.induct)
  case heap_reach_init
  show ?case by (intro exI conjI) (rule reach_init, rule stands_init)
next
  case (heap_reach_step hs c t hs')
  then obtain s where s: "reach code n (init_sys v pc) s" "stands_for hs s" by blast
  from heap_step_sim[OF s(2) reach_wf[OF s(1)], of c t]
  consider s' where "exec_step code n c t s = Some s'" "stands_for hs' s'" | "stands_for hs' s"
    unfolding heap_reach_step.hyps(2) by (cases "exec_step code n c t s") auto
  then show ?case
  proof cases
    case (1 s')
    with s(1) reach_step exec_step_sound show ?thesis by metis
  qed (use s(1) in blast)
qed

text \<open>Each step of the task machine takes one or two steps here.\<close>

lemma heap_follows:
  assumes st: "stands_for hs s" and wf: "wf code n s" and e: "exec_step code n c t s = Some s'"
  shows "\<exists>hs'. heap_reach code n hs hs' \<and> stands_for hs' s'"
proof -
  have one: "\<exists>hs'. heap_reach code n h hs' \<and> stands_for hs' s'"
    if "rel_option stands_for (heap_step code n c t h) (exec_step code n c t s)" for h
  proof -
    from that e obtain x where x: "heap_step code n c t h = Some x" "stands_for x s'"
      by (auto simp: option_rel_Some2)
    from heap_reach_step[OF heap_reach_init x(1)] x(2) show ?thesis by blast
  qed
  from heap_step_sim[OF st wf, of c t] show ?thesis
  proof (elim disjE exE conjE)
    fix h a r k assume h: "heap_step code n c t hs = Some h" "stands_for h s" "h_ctl h t = H_holding a r k"
    have "t < n" using h(1) by (simp add: heap_step_def split: if_splits)
    with stands_resume[OF h(2) wf h(3)] h(3)
    have "rel_option stands_for (heap_step code n c t h) (exec_step code n c t s)"
      by (auto simp: heap_step_def exec_step_def)
    from one[OF this] obtain h' where "heap_reach code n h h'" "stands_for h' s'" by blast
    with heap_reach_trans[OF _ heap_reach_step[OF heap_reach_init h(1)]] show ?thesis by blast
  qed (rule one)
qed

text \<open>What is proved of the atomics and of the tasks outside the queues holds on the heap.\<close>

lemma heap_inherits:
  assumes "heap_reach code n (heap_init v pc) hs" "\<And>s. reach code n (init_sys v pc) s \<Longrightarrow> stands_for hs s \<Longrightarrow> P"
  shows P
  using heap_reach_stands[OF assms(1)] assms(2) by blast

section \<open>Replaying a schedule\<close>

fun heap_run ::
  "('pc \<Rightarrow> ('v, 'q, 'pc) instr) \<Rightarrow> nat \<Rightarrow> (tid \<times> nat) list \<Rightarrow> ('v, 'q, 'pc) hsys \<Rightarrow> ('v, 'q, 'pc) hsys option"
where
  "heap_run code n [] hs = Some hs"
| "heap_run code n ((t, c) # sched) hs =
     (case heap_step code n c t hs of None \<Rightarrow> None | Some hs' \<Rightarrow> heap_run code n sched hs')"

lemma heap_run_reach: "heap_run code n sched h1 = Some h2 \<Longrightarrow> heap_reach code n h0 h1 \<Longrightarrow> heap_reach code n h0 h2"
  by (induction code n sched h1 rule: heap_run.induct) (auto split: option.splits intro: heap_reach_step)

lemma heap_run_witness:
  assumes "(case heap_run code n sched h0 of None \<Rightarrow> False | Some hs \<Rightarrow> P hs)"
  shows "\<exists>hs. heap_reach code n h0 hs \<and> P hs"
  using assms by (auto split: option.splits intro: heap_run_reach heap_reach_init)

lemmas heap_run_simps = heap_init_def heap_step_def heap_at_def heap_stage_def heap_pop_def heap_resume_def critical_def
  take_one_def take_all_def take_some_def wq_enqueue_def wq_init_def il_empty_def il_swap_def il_is_empty_def
  push_back_def pop_front_def assert_invariants_def deref_def set_next_def new_node_def release_def

section \<open>Properties\<close>

text \<open>C13. Memory safety under concurrency: for every program on the wait queues, any number of tasks and any interleaving of
  pushes, pops and resumptions, no pointer is followed to a node whose task has been resumed, no assertion
  of the list fails and \<open>resume\<close> is called on suspended tasks only, although nodes vanish while other
  tasks work on the same queue; and what has been reached stands for a reachable state of the task machine, on
  which everything else is proved.\<close>

theorem heap_machine_safe:
  assumes "heap_reach code n (heap_init v pc) hs"
  shows "(\<forall>t e. h_ctl hs t \<noteq> H_fault e) \<and> (\<exists>s. reach code n (init_sys v pc) s \<and> stands_for hs s)"
proof -
  from heap_reach_stands[OF assms] obtain s where s: "reach code n (init_sys v pc) s" "stands_for hs s" by blast
  have "h_ctl hs t \<noteq> H_fault e" for t e using stands_forD[OF s(2), of t] by auto
  with s show ?thesis by blast
qed

text \<open>
  Tasks 0 and 1 sleep, task 2 has taken both and resumed task 0, whose node is gone, and task 0 sleeps again, in a
  node at the same address, before task 2 goes on to task 1.
\<close>

theorem heap_machine_safe_witness:
  "\<exists>hs. heap_reach (\<lambda>pc::nat. if pc = 0 then Goto [1, 2] else if pc = 1 then Wait_if () (\<lambda>v. (v, True)) 0
       else Resume_all () 0) 3 (heap_init () 0) hs
     \<and> h_ctl hs 0 = H_suspended 1 \<and> wq_is_empty (h_heap hs) (h_queue hs ()) = Inr False
     \<and> (\<exists>s ws. ctl s 2 = Resuming ws 0 \<and> stands_for hs s)"
proof -
  let ?code = "\<lambda>pc::nat. if pc = 0 then Goto [1, 2] else if pc = 1 then Wait_if () (\<lambda>v. (v, True)) 0
       else Resume_all () 0"
  have "\<exists>hs. heap_reach ?code 3 (heap_init () 0) hs \<and> (h_ctl hs 0 = H_suspended 1
      \<and> h_ctl hs 2 = H_popping \<lparr>m_head = Some 1, m_tail = Some 1\<rparr> 0
      \<and> wq_is_empty (h_heap hs) (h_queue hs ()) = Inr False)"
    by (rule heap_run_witness[where sched = "[(0,0),(0,0),(0,0),(0,0),(0,0),(1,0),(1,0),(1,0),(1,0),(1,0),
        (2,1),(2,0),(2,0),(2,0),(0,0),(0,0),(0,0),(0,0),(0,0)]"]) (simp add: heap_run_simps wq_is_empty_def)
  then obtain hs where h: "heap_reach ?code 3 (heap_init () 0) hs" "h_ctl hs 0 = H_suspended 1"
    "h_ctl hs 2 = H_popping \<lparr>m_head = Some 1, m_tail = Some 1\<rparr> 0"
    "wq_is_empty (h_heap hs) (h_queue hs ()) = Inr False" by blast
  from heap_machine_safe[OF h(1)] obtain s where "stands_for hs s" by blast
  with stands_forD[OF this, of 2] h show ?thesis by auto
qed

text \<open>C14. Conversely, the pointer code can do all that the task machine does: every reachable state of the task
  machine is stood for by a state that the heap machine reaches, so the model of the queues as lists has
  no behaviour that the code does not have.\<close>

theorem heap_machine_complete:
  assumes "reach code n (init_sys v pc) s"
  shows "\<exists>hs. heap_reach code n (heap_init v pc) hs \<and> stands_for hs s"
  using assms
proof (induction rule: reach.induct)
  case reach_init
  show ?case by (intro exI conjI) (rule heap_reach_init, rule stands_init)
next
  case (reach_step s t s')
  then obtain hs where h: "heap_reach code n (heap_init v pc) hs" "stands_for hs s" by blast
  from exec_step_complete[OF reach_step(2)] obtain c where "exec_step code n c t s = Some s'" by blast
  from heap_follows[OF h(2) reach_wf[OF reach_step(1)] this] obtain hs'
    where "heap_reach code n hs hs'" "stands_for hs' s'" by blast
  with heap_reach_trans[OF _ h(1)] show ?case by blast
qed

theorem heap_machine_complete_witness:
  "\<exists>hs. heap_reach (\<lambda>pc::nat. if pc = 0 then Goto [1, 2] else if pc = 1 then Wait_if () (\<lambda>v. (v, True)) 0
       else Resume_all () 0) 2 (heap_init () 0) hs \<and> h_ctl hs 0 = H_suspended 1"
proof -
  let ?code = "\<lambda>pc::nat. if pc = 0 then Goto [1, 2] else if pc = 1 then Wait_if () (\<lambda>v. (v, True)) 0
       else Resume_all () 0"
  have "\<exists>s. reach ?code 2 (init_sys () 0) s \<and> ctl s 0 = Suspended 1"
    by (rule run_witness[where sched = "[(0,0),(0,0),(0,0),(0,0),(0,0)]"]) (simp add: run_simps)
  then obtain s where s: "reach ?code 2 (init_sys () 0) s" "ctl s 0 = Suspended 1" by blast
  from heap_machine_complete[OF s(1)] obtain hs
    where hs: "heap_reach ?code 2 (heap_init () 0) hs" "stands_for hs s" by blast
  from stands_forD[OF hs(2), of 0] s(2) have "h_ctl hs 0 = H_suspended 1"
    by (cases "(h_heap hs, 0::nat, h_ctl hs 0, ctl s 0)" rule: stands_control.cases) auto
  with hs(1) show ?thesis by blast
qed

end
