(* ===== verification/Wake_Order.thy ===== *)
theory Wake_Order
  imports Heap_Machine Semaphore
begin

text \<open>
  First in, first out: for every program, the wait queues call \<open>tbb::task::resume\<close> on their sleepers in the order
  in which these went to sleep. The history records, over the pointer code of \<open>Heap_Machine\<close>, each push of a node at the
  end of \<open>wait_if\<close> and each call of \<open>resume\<close>, with the suspend point that is read from the node; what was
  popped from a queue is not in it.
\<close>

section \<open>The history\<close>

datatype 'q wake_event =
    Slept 'q tid
  | Resumed tid tid

text \<open>\<open>Slept q t\<close>: \<open>t\<close> pushed its node to \<open>q\<close>. \<open>Resumed t w\<close>: \<open>t\<close> called \<open>tbb::task::resume\<close> on the suspend point of \<open>w\<close>.
  The events of a step of \<open>t\<close>, from where it is and what the heap holds.\<close>

fun heap_event :: "('pc \<Rightarrow> ('v, 'q, 'pc) instr) \<Rightarrow> waiter_t heap \<Rightarrow> tid \<Rightarrow> 'pc hcontrol \<Rightarrow> 'q wake_event list" where
  "heap_event code h t (H_pushing pc) = (case code pc of Wait_if q pred k \<Rightarrow> [Slept q t] | _ \<Rightarrow> [])"
| "heap_event code h t (H_holding a r k) =
     (case deref h a of Inl e \<Rightarrow> []
      | Inr nd \<Rightarrow> (case node_value nd of None \<Rightarrow> [] | Some w \<Rightarrow> [Resumed t w]))"
| "heap_event code h t _ = []"

inductive heap_log ::
  "('pc \<Rightarrow> ('v, 'q, 'pc) instr) \<Rightarrow> nat \<Rightarrow> ('v, 'q, 'pc) hsys \<Rightarrow> 'q wake_event list \<Rightarrow> ('v, 'q, 'pc) hsys \<Rightarrow> bool"
  for code :: "'pc \<Rightarrow> ('v, 'q, 'pc) instr" and n h0
where
  heap_log_init: "heap_log code n h0 [] h0"
| heap_log_step: "heap_log code n h0 es hs \<Longrightarrow> heap_step code n c t hs = Some hs'
    \<Longrightarrow> heap_log code n h0 (es @ heap_event code (h_heap hs) t (h_ctl hs t)) hs'"

fun slept :: "'q \<Rightarrow> 'q wake_event list \<Rightarrow> tid list" where
  "slept q [] = []"
| "slept q (Slept q' t # es) = (if q' = q then t # slept q es else slept q es)"
| "slept q (Resumed u w # es) = slept q es"

fun resumed_by :: "tid \<Rightarrow> 'q wake_event list \<Rightarrow> tid list" where
  "resumed_by u [] = []"
| "resumed_by u (Slept q t # es) = resumed_by u es"
| "resumed_by u (Resumed u' w # es) = (if u' = u then w # resumed_by u es else resumed_by u es)"

lemma slept_append [simp]: "slept q (es @ fs) = slept q es @ slept q fs"
  by (induction es rule: slept.induct) auto

lemma resumed_by_append [simp]: "resumed_by u (es @ fs) = resumed_by u es @ resumed_by u fs"
  by (induction es rule: resumed_by.induct) auto

section \<open>Who takes whom out of which queue\<close>

text \<open>\<open>(w, q, u)\<close>: task \<open>u\<close> takes the waiter \<open>w\<close> out of the queue \<open>q\<close>.\<close>

definition taken_from :: "'q \<Rightarrow> (tid \<times> 'q \<times> tid) list \<Rightarrow> tid list" where
  "taken_from q takes = map fst (filter (\<lambda>(w, q', u). q' = q) takes)"

definition taken_by :: "tid \<Rightarrow> (tid \<times> 'q \<times> tid) list \<Rightarrow> tid list" where
  "taken_by u takes = map fst (filter (\<lambda>(w, q, u'). u' = u) takes)"

fun resume_queue :: "('v, 'q, 'pc) instr \<Rightarrow> 'q option" where
  "resume_queue (Resume_one q k) = Some q"
| "resume_queue (Resume_n q m k) = Some q"
| "resume_queue (Resume_all q k) = Some q"
| "resume_queue _ = None"

text \<open>What a step of the task machine takes out, pushes and is about to resume, from where its task is before and after.\<close>

fun takes_of :: "('pc \<Rightarrow> ('v, 'q, 'pc) instr) \<Rightarrow> tid \<Rightarrow> 'pc control \<Rightarrow> 'pc control \<Rightarrow> (tid \<times> 'q \<times> tid) list" where
  "takes_of code t (At pc) c' =
     (case resume_queue (code pc) of Some q \<Rightarrow> map (\<lambda>w. (w, q, t)) (popped c') | None \<Rightarrow> [])"
| "takes_of code t _ c' = []"

fun pushed :: "('pc \<Rightarrow> ('v, 'q, 'pc) instr) \<Rightarrow> 'q \<Rightarrow> tid \<Rightarrow> 'pc control \<Rightarrow> tid list" where
  "pushed code q t (Pushing pc) = (if wait_queue_of (code pc) = Some q then [t] else [])"
| "pushed code q t _ = []"

fun resumes_next :: "'pc control \<Rightarrow> tid list" where
  "resumes_next (Resuming (w # ws) k) = [w]"
| "resumes_next _ = []"

lemma taken_append [simp]:
  "taken_from q (xs @ ys) = taken_from q xs @ taken_from q ys" "taken_by u (xs @ ys) = taken_by u xs @ taken_by u ys"
  by (simp_all add: taken_from_def taken_by_def)

lemma taken_from_map [simp]: "taken_from q (map (\<lambda>w. (w, q', u)) ws) = (if q' = q then ws else [])"
  by (simp add: taken_from_def filter_map o_def)

lemma taken_by_map [simp]: "taken_by u (map (\<lambda>w. (w, q, u')) ws) = (if u' = u then ws else [])"
  by (simp add: taken_by_def filter_map o_def)

lemma taken_cons [simp]:
  "taken_from q ((w, q', u) # xs) = (if q' = q then w # taken_from q xs else taken_from q xs)"
  "taken_by u ((w, q, u') # xs) = (if u' = u then w # taken_by u xs else taken_by u xs)"
  by (simp_all add: taken_from_def taken_by_def)

lemma taken_nil [simp]: "taken_from q [] = []" "taken_by u [] = []"
  by (simp_all add: taken_from_def taken_by_def)

lemma mstep_queue_order:
  assumes "mstep code n s t s'"
  shows "m_waiters s q @ pushed code q t (ctl s t) = taken_from q (takes_of code t (ctl s t) (ctl s' t)) @ m_waiters s' q"
  using assms by (cases rule: mstep.cases) auto

lemma mstep_hand_order:
  assumes "mstep code n s t s'"
  shows "popped (ctl s u) @ taken_by u (takes_of code t (ctl s t) (ctl s' t))
       = (if u = t then resumes_next (ctl s t) else []) @ popped (ctl s' u)"
  using assms by (cases rule: mstep.cases) (auto simp: fun_upd_def)

section \<open>The events of the heap machine\<close>

lemma heap_event_stands:
  assumes "stands_control h t hc c" "\<And>l k. hc \<noteq> H_popping l k"
  shows "slept q (heap_event code h t hc) = pushed code q t c
    \<and> resumed_by u (heap_event code h t hc) = (if u = t then resumes_next c else [])"
proof (cases hc)
  case (H_pushing pc)
  with assms show ?thesis by (cases "code pc") auto
next
  case (H_holding a r k)
  with assms obtain ws where "c = Resuming (a # ws) k" "node_ok h a" by (cases r) auto
  with H_holding show ?thesis by (auto simp: node_ok_def deref_def)
qed (use assms in auto)

text \<open>A task that has a popped node in its hands after its step neither slept nor resumed in it.\<close>

lemma heap_event_pop:
  assumes "heap_step code n c t hs = Some hs'" "h_ctl hs' t = H_holding a r k"
  shows "heap_event code (h_heap hs) t (h_ctl hs t) = []"
proof (cases "h_ctl hs t")
  case (H_pushing pc)
  with assms show ?thesis
    by (auto simp: heap_step_def heap_stage_def critical_def split: if_splits instr.splits sum.splits)
next
  case (H_holding a' r' k')
  with assms show ?thesis
    by (cases r') (auto simp: heap_step_def heap_resume_def split: if_splits instr.splits sum.splits option.splits hcontrol.splits)
qed simp_all

lemma heap_step_order:
  assumes st: "stands_for hs s" and wf: "wf code n s" and e: "heap_step code n c t hs = Some hs'"
  obtains s' xs where "s' = s \<or> mstep code n s t s'" "stands_for hs' s'"
    "\<And>q. m_waiters s q @ slept q (heap_event code (h_heap hs) t (h_ctl hs t)) = taken_from q xs @ m_waiters s' q"
    "\<And>u. popped (ctl s u) @ taken_by u xs
       = resumed_by u (heap_event code (h_heap hs) t (h_ctl hs t)) @ popped (ctl s' u)"
proof (cases "\<exists>l k. h_ctl hs t = H_popping l k")
  case True
  then obtain l k where pop: "h_ctl hs t = H_popping l k" by blast
  with e have hs': "hs' = heap_pop t l k hs" and t: "t < n" by (auto simp: heap_step_def split: if_splits)
  from stands_pop[OF st wf pop] consider "ctl s t = Resuming [] k" "stands_for hs' (goto s t (At k))"
    | "stands_for hs' s" unfolding hs' by blast
  then show thesis
  proof cases
    case 1
    show thesis
      by (rule that[OF disjI2[OF resume_done[OF t 1(1)]] 1(2), of "[]"]) (simp_all add: pop 1(1))
  next
    case 2
    show thesis by (rule that[of s "[]"]) (simp_all add: pop 2)
  qed
next
  case False
  then have ev: "slept q (heap_event code (h_heap hs) t (h_ctl hs t)) = pushed code q t (ctl s t)"
    "resumed_by u (heap_event code (h_heap hs) t (h_ctl hs t)) = (if u = t then resumes_next (ctl s t) else [])" for q u
    using heap_event_stands[OF stands_forD[OF st, of t], where code = code and q = q and u = u] by auto
  from heap_step_sim[OF st wf, of c t] e consider
      s' where "exec_step code n c t s = Some s'" "stands_for hs' s'"
    | a r k where "stands_for hs' s" "h_ctl hs' t = H_holding a r k"
    by (cases "exec_step code n c t s") auto
  then show thesis
  proof cases
    case (1 s')
    note m = exec_step_sound[OF 1(1)]
    show thesis
      by (rule that[OF disjI2[OF m] 1(2)]; unfold ev; rule mstep_queue_order[OF m] mstep_hand_order[OF m])
  next
    case 2
    show thesis by (rule that[of s "[]"]) (simp_all add: 2(1) heap_event_pop[OF e 2(2)])
  qed
qed

lemma heap_log_order:
  assumes "heap_log code n (heap_init v pc) es hs"
  shows "\<exists>s takes. reach code n (init_sys v pc) s \<and> stands_for hs s
    \<and> (\<forall>q. slept q es = taken_from q takes @ m_waiters s q)
    \<and> (\<forall>u. taken_by u takes = resumed_by u es @ popped (ctl s u))"
  using assms
proof (induction rule: heap_log.induct)
  case heap_log_init
  show ?case
    using stands_init[of v pc] reach_init[of code n "init_sys v pc"]
    by (intro exI[of _ "init_sys v pc"] exI[of _ "[]"]) (simp add: init_sys_def)
next
  case (heap_log_step es hs c t hs')
  then obtain s takes where s: "reach code n (init_sys v pc) s" "stands_for hs s"
    and q: "\<And>q. slept q es = taken_from q takes @ m_waiters s q"
    and u: "\<And>u. taken_by u takes = resumed_by u es @ popped (ctl s u)" by blast
  from heap_step_order[OF s(2) reach_wf[OF s(1)] heap_log_step.hyps(2)] obtain s' xs where
    s': "s' = s \<or> mstep code n s t s'" "stands_for hs' s'"
    and q': "\<And>q. m_waiters s q @ slept q (heap_event code (h_heap hs) t (h_ctl hs t)) = taken_from q xs @ m_waiters s' q"
    and u': "\<And>u. popped (ctl s u) @ taken_by u xs
       = resumed_by u (heap_event code (h_heap hs) t (h_ctl hs t)) @ popped (ctl s' u)" by metis
  have "reach code n (init_sys v pc) s'" using s(1) s'(1) by (auto intro: reach_step)
  with s'(2) show ?case
    by (intro exI[of _ s'] exI[of _ "takes @ xs"]) (simp add: q u q' u')
qed

section \<open>Replaying a schedule with its history\<close>

fun heap_log_run ::
  "('pc \<Rightarrow> ('v, 'q, 'pc) instr) \<Rightarrow> nat \<Rightarrow> (tid \<times> nat) list \<Rightarrow> 'q wake_event list \<Rightarrow> ('v, 'q, 'pc) hsys
    \<Rightarrow> ('q wake_event list \<times> ('v, 'q, 'pc) hsys) option"
where
  "heap_log_run code n [] es hs = Some (es, hs)"
| "heap_log_run code n ((t, c) # sched) es hs =
     (case heap_step code n c t hs of None \<Rightarrow> None
      | Some hs' \<Rightarrow> heap_log_run code n sched (es @ heap_event code (h_heap hs) t (h_ctl hs t)) hs')"

lemma heap_log_run_sound:
  "heap_log_run code n sched es hs = Some (es', hs') \<Longrightarrow> heap_log code n h0 es hs \<Longrightarrow> heap_log code n h0 es' hs'"
  by (induction code n sched es hs rule: heap_log_run.induct) (auto split: option.splits intro: heap_log_step)

lemma heap_log_run_witness:
  assumes "(case heap_log_run code n sched [] h0 of None \<Rightarrow> False | Some (es, hs) \<Rightarrow> P es hs)"
  shows "\<exists>es hs. heap_log code n h0 es hs \<and> P es hs"
  using assms heap_log_run_sound[OF _ heap_log_init] by (fastforce split: option.splits)

lemma take_waiters_2: "take_waiters pop push 2 = take_waiters pop push (Suc (Suc 0))"
  by (simp add: numeral_2_eq_2)

section \<open>Property\<close>

text \<open>C2. Sleepers are woken in order. Whatever program runs on the queues, its history fits one sequence of takes, each of a
  waiter out of a queue by a task, such that every queue is emptied in the order in which tasks went to sleep in
  it (those taken, then those that its list of nodes still holds), and every task calls
  \<open>tbb::task::resume\<close> on those that it took, each once and in that order (those resumed, then those in its hands: none
  once its \<open>resume_one\<close>, \<open>resume_n\<close> or \<open>resume_all\<close> has returned). The calls of two tasks that resume at the same time
  may interleave.\<close>

theorem queue_wakes_in_order:
  assumes "heap_log code n (heap_init v pc) es hs"
  shows "\<exists>takes waiting in_hand.
    (\<forall>q. slept q es = taken_from q takes @ waiting q
       \<and> represents (h_heap hs) (wq_waiters (h_queue hs q)) (waiting q))
    \<and> (\<forall>u. taken_by u takes = resumed_by u es @ in_hand u
         \<and> ((\<exists>pc. h_ctl hs u = H_at pc) \<longrightarrow> in_hand u = []))"
proof -
  from heap_log_order[OF assms] obtain s takes where st: "stands_for hs s"
    and q: "\<And>q. slept q es = taken_from q takes @ m_waiters s q"
    and u: "\<And>u. taken_by u takes = resumed_by u es @ popped (ctl s u)" by blast
  have "popped (ctl s u) = []" if "h_ctl hs u = H_at pc" for u pc using stands_forD[OF st, of u] that by simp
  with st q u show ?thesis
    by (intro exI[of _ takes] exI[of _ "m_waiters s"] exI[of _ "\<lambda>u. popped (ctl s u)"])
      (auto simp: stands_for_def listed_def)
qed

text \<open>Tasks 2 and 1 fell asleep in \<open>acquire\<close>, in this order, and task 0 has released two permits.\<close>

theorem queue_wakes_in_order_witness:
  "\<exists>es hs. heap_log (sem_code 100 [2]) 3 (heap_init (sem_init 100 0) sem_pc.Idle) es hs
     \<and> slept () es = [2, 1] \<and> resumed_by 0 es = [2, 1] \<and> h_ctl hs 0 = H_at sem_pc.Idle
     \<and> (\<exists>takes waiting. [2, 1] = taken_from () takes @ waiting \<and> taken_by (0::nat) takes = [2, 1])"
proof -
  have "\<exists>es hs. heap_log (sem_code 100 [2]) 3 (heap_init (sem_init 100 0) sem_pc.Idle) es hs
      \<and> (slept () es = [2, 1] \<and> resumed_by 0 es = [2, 1] \<and> h_ctl hs 0 = H_at sem_pc.Idle)"
    by (rule heap_log_run_witness[where sched = "[(2,1),(2,0),(2,0),(2,0),(2,0),(2,0),(2,0),
        (1,1),(1,0),(1,0),(1,0),(1,0),(1,0),(1,0),(0,2),(0,0),(0,0),(0,0),(0,0),(0,0),
        (0,0),(0,0),(0,0),(0,0)]"])
      (simp add: heap_run_simps take_waiters_2 sem_init_def sem_try_step_def compare_exchange_weak_def sem_fetch_add_def
        swrap_def int_max_value_t_def smax_values sem_max_def)
  then obtain es hs where l: "heap_log (sem_code 100 [2]) 3 (heap_init (sem_init 100 0) sem_pc.Idle) es hs"
    "slept () es = [2, 1]" "resumed_by 0 es = [2, 1]" "h_ctl hs 0 = H_at sem_pc.Idle" by blast
  from queue_wakes_in_order[OF l(1)] obtain takes waiting in_hand
    where "\<And>q. slept q es = taken_from q takes @ waiting q"
      "\<And>u. taken_by u takes = resumed_by u es @ in_hand u"
      "\<And>u. (\<exists>pc. h_ctl hs u = H_at pc) \<Longrightarrow> in_hand u = []" by blast
  with l show ?thesis by (metis append_Nil2)
qed

end
