(* ===== verification/Heap_Primitives.thy ===== *)
theory Heap_Primitives
  imports Heap_Machine Mutex
begin

text \<open>
  The mutex with the pointer code of its wait queue underneath: what \<open>Mutex\<close> proves over the task
  machine, said of the heap machine.
\<close>

fun heap_owner :: "mutex_pc hcontrol \<Rightarrow> bool" where
  "heap_owner (H_at pc) \<longleftrightarrow> pc \<in> {Held, Unlock, Unlock_store}"
| "heap_owner _ \<longleftrightarrow> False"

lemma heap_owner_stands: "stands_control h t hc c \<Longrightarrow> heap_owner hc \<Longrightarrow> owner c = 1"
  by (cases hc) auto

lemma stands_settled:
  assumes "stands_for hs s" "\<And>t. t < n \<Longrightarrow> (\<exists>pc. h_ctl hs t = H_at pc \<and> P pc) \<or> (\<exists>pc. h_ctl hs t = H_suspended pc)"
  shows "settled n s P"
  unfolding settled_def
proof (intro allI impI)
  fix t assume "t < n"
  with assms(2) stands_forD[OF assms(1), of t]
  show "(\<exists>pc. ctl s t = At pc \<and> P pc) \<or> (\<exists>pc. ctl s t = Suspended pc)" by fastforce
qed

text \<open>C15. The mutex with the pointer code of its queue: at most one task is between a successful acquisition and the
  store of its \<open>unlock\<close>, no pointer dangles, and when all tasks are outside, inside or asleep and the lock
  is free, the list of waiters is empty.\<close>

theorem mutex_on_heap:
  assumes "heap_reach mutex_code n (heap_init mutex_init mutex_pc.Idle) hs"
  shows "(\<forall>t<n. \<forall>u<n. heap_owner (h_ctl hs t) \<and> heap_owner (h_ctl hs u) \<longrightarrow> t = u)
    \<and> (\<forall>t e. h_ctl hs t \<noteq> H_fault e)
    \<and> ((\<forall>t<n. (\<exists>pc. h_ctl hs t = H_at pc \<and> pc \<in> {mutex_pc.Idle, Held}) \<or> (\<exists>pc. h_ctl hs t = H_suspended pc))
        \<and> \<not> m_locked (h_vars hs) \<longrightarrow> wq_is_empty (h_heap hs) (h_queue hs ()) = Inr True)"
proof (rule heap_inherits[OF assms])
  fix s assume r: "reach mutex_code n mutex_start s" and st: "stands_for hs s"
  note ct = stands_forD[OF st]
  have "t = u" if "t < n" "u < n" "heap_owner (h_ctl hs t)" "heap_owner (h_ctl hs u)" for t u
  proof (rule ccontr)
    assume "t \<noteq> u"
    with mtx.reach_pair[OF r TrueI that(1,2), of Owners] heap_owner_stands[OF ct that(3)]
      heap_owner_stands[OF ct that(4)] show False by (simp add: of_bool_def split: if_splits)
  qed
  moreover have "h_ctl hs t \<noteq> H_fault e" for t e using ct[of t] by auto
  moreover have "wq_is_empty (h_heap hs) (h_queue hs ()) = Inr True"
    if p: "\<forall>t<n. (\<exists>pc. h_ctl hs t = H_at pc \<and> pc \<in> {mutex_pc.Idle, Held}) \<or> (\<exists>pc. h_ctl hs t = H_suspended pc)"
      and f: "\<not> m_locked (h_vars hs)"
  proof -
    have q: "settled n s (\<lambda>pc. pc \<in> {mutex_pc.Idle, Held})"
      using stands_settled[OF st, of n "\<lambda>pc. pc \<in> {mutex_pc.Idle, Held}"] p by blast
    have h: "0 < (of_bool (\<not> m_locked (vars s)) :: int)" using f st by (simp add: stands_for_def)
    have w: "waker (At pc) = 0" if "pc \<in> {mutex_pc.Idle, Held}" for pc using that by auto
    have "m_waiters s () = []" by (rule mtx_wake.nobody_left(1)[OF r q w _ h]) simp_all
    moreover have "listed (h_heap hs) (wq_waiters (h_queue hs ())) (m_waiters s ())" using st by (simp add: stands_for_def)
    ultimately show ?thesis
      using il_is_empty_spec[of "h_heap hs" "wq_waiters (h_queue hs ())" "[]"] by (simp add: wq_is_empty_def listed_def)
  qed
  ultimately show ?thesis by blast
qed

text \<open>Task 1 slept while task 0 held the lock; task 0 has resumed it and is outside.\<close>

theorem mutex_on_heap_witness:
  "\<exists>hs. heap_reach mutex_code 2 (heap_init mutex_init mutex_pc.Idle) hs \<and> h_ctl hs 0 = H_at mutex_pc.Idle
     \<and> h_ctl hs 1 = H_at Held \<and> h_heap hs 1 = None \<and> (\<forall>u<2. heap_owner (h_ctl hs u) \<longrightarrow> u = 1)"
proof -
  have "\<exists>hs. heap_reach mutex_code 2 (heap_init mutex_init mutex_pc.Idle) hs \<and> (h_ctl hs 0 = H_at mutex_pc.Idle
      \<and> h_ctl hs 1 = H_at Held \<and> h_heap hs 1 = None)"
    by (rule heap_run_witness[where sched = "[(0,1),(0,0),(1,1),(1,0),(1,0),(1,0),(1,0),(1,0),
        (0,0),(0,0),(0,0),(0,0),(0,0),(0,0),(1,0)]"])
      (simp add: heap_run_simps mutex_init_def mutex_try_lock_iff)
  then obtain hs where h: "heap_reach mutex_code 2 (heap_init mutex_init mutex_pc.Idle) hs"
    "h_ctl hs 0 = H_at mutex_pc.Idle" "h_ctl hs 1 = H_at Held" "h_heap hs 1 = None" by blast
  from mutex_on_heap[OF h(1)] h(3) have "\<forall>u<2. heap_owner (h_ctl hs u) \<longrightarrow> u = 1" by fastforce
  with h show ?thesis by blast
qed

end
