(* ===== verification/Spec2Isabelle.thy ===== *)
theory Spec2Isabelle
  imports Mutex Shared_Mutex Wait_Queue Semaphore Binary_Semaphore Latch Barrier
    Scoped_Lock Atomic_Condition Condition_Variable Future_Properties Wait_For
    Destruction Lock_Refinement Cell_Refinement Bounded_Calls
    Linear_Objects Linear_Atomics Wake_Order
    Heap_Machine Heap_Primitives
begin

text \<open>
  A verification library for coopsync_tbb: synchronization primitives for oneTBB tasks. A task that has to
  wait does not block its thread; it is suspended with \<open>tbb::task::suspend\<close> and continued later with
  \<open>tbb::task::resume\<close>. Everything rests on one structure, \<open>detail::wait_queue\<close>, and each primitive is some
  atomic variables plus one or two wait queues.

  \<^bold>\<open>The parts and where they are modelled.\<close> Paths are relative to the repository.

  \<^item> \<open>Prelude\<close>: totals over tasks, two's complement wrap-around \<open>swrap\<close>, list and option lemmas.
  \<^item> \<open>Machine\<close>, \<open>Machine_Inv\<close>, \<open>Machine_Run\<close>: the meaning of \<open>wait_if\<close>, \<open>resume_one\<close>, \<open>resume_n\<close>,
    \<open>resume_all\<close> (\<open>include/coopsync_tbb/detail/wait_queue.hpp\<close>, \<open>src/wait_queue.cpp\<close>) for any number of
    tasks. A primitive is a table from program points to instructions; \<open>mstep\<close> runs one atomic access or one
    stage of a queue operation of one task, \<open>reach\<close> any interleaving of them. The fast check, the suspension,
    the spin mutex, the second check and the push of \<open>wait_if\<close> are separate stages, so every window
    between them is in the model. \<open>wf\<close>: a queue holds exactly the sleepers that nobody has popped, and
    \<open>tbb::task::resume\<close> is called on each suspension once. \<open>run\<close> replays a schedule by \<open>simp\<close>.
  \<^item> \<open>Accounting\<close>: the contracts that the primitives share, as locales. \<open>accounting\<close>: weights of the program
    points whose totals equal functions of the atomics; exclusion, counting and range facts follow.
    \<open>assertions\<close>: facts that hold at program points. \<open>wakeups\<close> and \<open>notifications\<close>: whoever sleeps has
    a reason to or somebody is about to wake; no lost wake-up follows. Each is interpreted on the tables of
    the primitives.
  \<^item> \<open>Intrusive_List\<close>, \<open>Wait_Queue\<close>: the pointer code of \<open>detail/intrusive_list.hpp\<close> and the critical
    sections of the wait queue on an explicit heap, where the node of a task vanishes when the task is resumed;
    dangling reads and failed assertions are errors. Interpreted as a first-in first-out list (locale \<open>fifo\<close>)
    and proved to implement the pops and the push of \<open>mstep\<close>.
  \<^item> \<open>Heap_Machine\<close>: the task machine with this pointer code in the place of the lists, step by step and
    interleaved: tasks push and pop while others walk through the waiters they took and nodes vanish.
    \<open>heap_machine_safe\<close>: no fault in any interleaving, and every state stands for one of \<open>mstep\<close>;
    \<open>heap_machine_complete\<close>: and conversely. So what the theories below prove over \<open>mstep\<close> holds with the
    pointer code underneath (\<open>heap_inherits\<close>); \<open>Heap_Primitives\<close> says so of \<open>mutex\<close> as an example.
  \<^item> \<open>Mutex\<close>, \<open>Shared_Mutex\<close>, \<open>Semaphore\<close>, \<open>Binary_Semaphore\<close>, \<open>Latch\<close>, \<open>Barrier\<close>, \<open>Atomic_Condition\<close>
    (with \<open>atomic_flag\<close>), \<open>Atomic_Ref\<close> (\<open>atomic_ref_condition\<close>), \<open>Condition_Variable\<close>: one table each, from the files of
    the same names under \<open>include/coopsync_tbb\<close> and \<open>src\<close>.
  \<^item> \<open>Scoped_Lock\<close>: the RAII locks of both mutexes as functions that return the calls they make.
  \<^item> \<open>Shared_State\<close>: the shared state of \<open>future.hpp\<close> under concurrent setters, breakers, getters and waiters.
  \<^item> \<open>Future\<close>, \<open>Future_Contract\<close>, \<open>Future_Properties\<close>: the ten classes of \<open>future.hpp\<close> as functions on a
    \<open>world\<close> of shared states and the objects that point to them; \<open>shared_state_calls_agree\<close> compares
    the functions on a shared state with the concurrent table when one task runs alone.
  \<^item> \<open>Wait_For\<close>: \<open>cuda/wait_for.hpp\<close>, \<open>hip/wait_for.hpp\<close>, \<open>onnx/wait_for.hpp\<close>, \<open>alpaka/wait_for.hpp\<close>.
  \<^item> \<open>Destruction\<close>: the destructors and their assertions.
  \<^item> \<open>Lock_Refinement\<close>: an abstract readers-writer lock, and a contract (locale \<open>lock_table\<close>) under which a
    program implements it step by step; interpreted on \<open>mutex\<close> and \<open>shared_mutex\<close>.
  \<^item> \<open>Cell_Refinement\<close>: an abstract cell that is written once, implemented step by step by the shared state of
    futures (\<open>ss_refines_cell\<close>).
  \<^item> \<open>Linearizability\<close>: sequential objects, histories of calls, commits and returns, and a contract (locale
    \<open>linearizable\<close>) under which every history of a program is linearized by its commits. Interpreted in
    \<open>Linear_Objects\<close> on \<open>mutex\<close>, both semaphores and \<open>latch\<close>, in \<open>Linear_Atomics\<close> on \<open>atomic_flag\<close> and
    \<open>atomic_condition\<close> (theorems \<open>X_linearizable\<close>). A phase function per program says at which program points
    a call has not yet taken effect and where it has; the results are those of the code. \<open>shared_mutex\<close> is not
    among them: a lock that is handed over takes effect in a step of the task that hands it over, which
    \<open>Lock_Refinement\<close> allows.
  \<^item> \<open>Wake_Order\<close>: the history of pushes and of calls of \<open>tbb::task::resume\<close> of the heap machine. For every program,
    each queue is emptied in the order in which tasks went to sleep in it, and each task calls \<open>resume\<close> on those
    it took in that order.
  \<^item> \<open>Termination\<close>: a contract (locale \<open>bounded_calls\<close>) under which a call that runs without interference
    returns or suspends within a stated number of steps; interpreted on \<open>shared_mutex\<close> and
    \<open>counting_semaphore\<close>, whose loops retry a weak compare-exchange.
  \<^item> \<open>Bounded_Calls\<close>: the same for the other primitives. A rank of the program points is enough there
    (locale \<open>ranked_calls\<close>, which gives \<open>bounded_calls\<close>); the theorems \<open>X_calls_terminate\<close> state the bounds.

  \<^bold>\<open>State and code.\<close> The record of a primitive has its members under the source's names. Some records also
  have bookkeeping fields for the proofs, each named in its theory (the permits a caller may still release, the
  arrivals not yet made, the number of completed phases, the streams dealt with): the code of the
  primitive never reads them. A program point is named after the access that comes next; local variables of
  the C++ functions are arguments of the program points. \<open>Idle\<close> is a task outside the object; it calls any
  operation that the documentation allows in its state. \<open>Aborted\<close> is a failed \<open>assert\<close>.

  \<^bold>\<open>What is shown.\<close> For the wait queue: sleepers are tracked exactly and woken in order, and its pointer code is
  memory safe in every interleaving. For the locks: exclusion, exact counts without wrap-around, no failed assertion, no lost
  wake-up where it holds, progress, bounded calls, refinement of an abstract lock, and that the scoped locks keep
  the calling discipline these rest on. For \<open>mutex\<close>, semaphores, latch, flag and condition: linearizability,
  that is, the calls answer as if each took effect at one moment between its call and its return.
  For semaphores, latch and barrier: conservation of permits and counts, that nobody passes early within a
  phase, and that all are released. For atomic conditions: no wait outlasts a change that stays. For the condition
  variable: a wait returns holding the lock. For futures: refinement of a write-once cell, one setter wins, all getters agree, an outcome is stored once and read as
  stored, abandoned states are broken. For the device runtimes: one resumption, after the last callback.
  Theorems that end in the replay of a schedule show where the code does not do what it documents:
  \<open>smx_writer_lost_wakeup\<close>, \<open>barrier_early_release\<close>, \<open>barrier_double_completion\<close>, \<open>barrier_wrap_abort\<close>,
  \<open>cv_lost_notification\<close>, \<open>ac_ref_copies_do_not_share\<close>, \<open>ref_copy_not_notified\<close>, \<open>promise_assignment_abandons\<close>,
  \<open>mutex_destroyed_during_unlock\<close>, \<open>latch_destroyed_during_count_down\<close>.

  \<^bold>\<open>Integers.\<close> Signed counters are integers with \<open>swrap\<close> at the width of their type written out, the barrier
  phase is an \<open>8 word\<close> with the promotion to \<open>int\<close> in its comparison, the pending count of \<open>wait_for_all\<close> is
  taken modulo 2^64. Hypotheses such as \<open>int n \<le> smax 32\<close> bound the number of tasks by the width of the
  counter. No fuel is used: the only loop without a structural measure, \<open>do_resume_all\<close>, is a partial function
  whose result is proved to exist. The retry loops of the atomics are program points, ended by \<open>Termination\<close>.

  \<^bold>\<open>Assumptions.\<close> Atomic accesses are sequentially consistent; the memory orders given to them matter only for
  the assertions on them. A weak compare-exchange may fail spuriously. The critical sections of the spin mutex
  that pop from a queue are one step, possible when the mutex is free: they touch nothing else. A task waits in
  one queue at a time, so its number serves as the address of its node. The oneTBB
  scheduler resumes a task once per call of \<open>resume\<close>, at any time after it; where it matters whether the task may run
  before the function passed to \<open>suspend\<close> has ended, this is the parameter \<open>overlap\<close>; no documentation of oneTBB says
  whether it may. If it may, \<open>wait_for_range\<close> can read an argument after it has returned (\<open>wait_for_range_dangling\<close>); what
  is proved of \<open>wait_for_range\<close> is proved without it. Device runtimes call an
  accepted callback once, at any time; their results are parameters. The argument of \<open>set_exception\<close> is an exception: a null
  \<open>std::exception_ptr\<close> is the caller's error, since \<open>get\<close> hands it to \<open>std::rethrow_exception\<close>.

  \<^bold>\<open>Not modelled.\<close> Weak memory. Exceptions from memory allocation and from \<open>tbb::task::suspend\<close> itself. The
  release of memory by \<open>std::shared_ptr\<close>, which no operation observes. Copies of user values are values;
  a constructor that throws is modelled where the code handles it (\<open>emplace\<close>), and so is a predicate of
  \<open>condition_variable::wait\<close> that throws. The condition variable is modelled
  with \<open>mutex\<close> as its lock. Type traits, \<open>std::copy\<close> to an output iterator, feature test
  and version macros, the C++ module file, tests, benchmarks and build files have no state of their own.
\<close>

end
